(* ===== verification/Prelude.thy ===== *)
theory Prelude
  imports Main "HOL-Library.Word"
begin

unbundle bit_operations_syntax

text \<open>
  Shared vocabulary of the development: the machine types of the Go sources, byte slices, the
  big-endian readers and writers of \<open>encoding/binary\<close>, error results, and the generic lemmas the
  components use.

  A Go \<open>[]byte\<close> is a \<open>byte list\<close>; \<open>uintN\<close> is an \<open>N word\<close>, whose arithmetic wraps around as Go's
  does; Go's \<open>int\<close> (64 bits wide on the supported platforms) is \<open>int\<close> or, where it is a length
  or an index, \<open>nat\<close>. A function returning \<open>(T, error)\<close> returns \<open>'e + 'a\<close>, \<open>Inl\<close> carrying the
  error. A slice expression \<open>b[lo:hi]\<close> is \<open>slice lo hi b\<close> below; every use is guarded, as in the
  source, by a test on the length.
\<close>

section \<open>Types\<close>

type_synonym byte = "8 word"
type_synonym u16 = "16 word"
type_synonym u32 = "32 word"
type_synonym u64 = "64 word"
type_synonym bytes = "byte list"
type_synonym ('e, 'a) result = "'e + 'a"

named_theorems wire_simps \<open>evaluation of readers and writers on explicit byte lists\<close>
named_theorems err_split \<open>case splits for error results\<close>

declare sum.splits [err_split] option.splits [err_split] if_splits [err_split]
  prod.splits [err_split]

section \<open>Slices\<close>

definition slice :: "nat \<Rightarrow> nat \<Rightarrow> 'a list \<Rightarrow> 'a list" where
  "slice lo hi xs = take (hi - lo) (drop lo xs)"

lemma length_slice [simp]: "length (slice lo hi xs) = min (hi - lo) (length xs - lo)"
  by (simp add: slice_def)

lemma slice_0 [simp]: "slice 0 n xs = take n xs"
  by (simp add: slice_def)

lemma slice_append_left: "hi \<le> length xs \<Longrightarrow> slice lo hi (xs @ ys) = slice lo hi xs"
  by (cases "lo \<le> length xs") (auto simp: slice_def)

lemma slice_append_right:
  "length xs \<le> lo \<Longrightarrow> slice lo hi (xs @ ys) = slice (lo - length xs) (hi - length xs) ys"
  by (cases "lo \<le> hi") (auto simp: slice_def)

lemma slice_full: "lo = 0 \<Longrightarrow> length xs \<le> hi \<Longrightarrow> slice lo hi xs = xs"
  by (simp add: slice_def)

lemma take_slice_drop: "lo \<le> hi \<Longrightarrow> take lo xs @ slice lo hi xs @ drop hi xs = xs"
  by (metis append_assoc append_take_drop_id le_add_diff_inverse slice_def take_add)

text \<open>Go's \<open>copy(dst, src)\<close>: overwrites the first \<open>min(len(dst), len(src))\<close> elements of \<open>dst\<close>.\<close>

definition go_copy :: "'a list \<Rightarrow> 'a list \<Rightarrow> 'a list" where
  "go_copy dst src = take (length dst) src @ drop (length src) dst"

lemma length_go_copy [simp]: "length (go_copy dst src) = length dst"
  by (simp add: go_copy_def)

lemma go_copy_same: "length src = length dst \<Longrightarrow> go_copy dst src = src"
  by (simp add: go_copy_def)

section \<open>Big-endian readers and writers\<close>

text \<open>
  \<open>be_bytes n w\<close> is what \<open>binary.BigEndian.PutUint16/32/64\<close> stores for \<open>n = 2, 4, 8\<close>;
  \<open>be_acc 0 bs\<close> is what the matching \<open>Uint16/32/64\<close> reads.
\<close>

fun be_bytes :: "nat \<Rightarrow> 'a::len word \<Rightarrow> bytes" where
  "be_bytes 0 w = []"
| "be_bytes (Suc n) w = ucast (drop_bit (8 * n) w) # be_bytes n w"

fun be_acc :: "'a::len word \<Rightarrow> bytes \<Rightarrow> 'a word" where
  "be_acc acc [] = acc"
| "be_acc acc (b # bs) = be_acc (push_bit 8 acc OR ucast b) bs"

abbreviation put16 :: "u16 \<Rightarrow> bytes" where "put16 \<equiv> be_bytes 2"
abbreviation put32 :: "u32 \<Rightarrow> bytes" where "put32 \<equiv> be_bytes 4"
abbreviation put64 :: "u64 \<Rightarrow> bytes" where "put64 \<equiv> be_bytes 8"

definition rd16 :: "bytes \<Rightarrow> u16" where "rd16 bs = be_acc 0 (take 2 bs)"
definition rd32 :: "bytes \<Rightarrow> u32" where "rd32 bs = be_acc 0 (take 4 bs)"
definition rd64 :: "bytes \<Rightarrow> u64" where "rd64 bs = be_acc 0 (take 8 bs)"

lemma length_be_bytes [simp]: "length (be_bytes n w) = n"
  by (induction n) auto

lemma be_acc_step:
  fixes acc w :: "'a::len word"
  shows "push_bit (8 * n) (push_bit 8 acc OR ucast (ucast (drop_bit (8 * n) w) :: byte))
      OR take_bit (8 * n) w
    = push_bit (8 * Suc n) acc OR take_bit (8 * Suc n) w" (is "?l = ?r")
proof (rule bit_word_eqI)
  fix i assume "i < LENGTH('a)"
  then show "bit ?l i = bit ?r i"
    by (cases "i < 8 * n"; cases "i < 8 * n + 8")
      (auto simp: bit_simps diff_diff_left add.commute)
qed

lemma be_acc_be_bytes:
  "be_acc acc (be_bytes n w) = push_bit (8 * n) acc OR take_bit (8 * n) (w :: 'a::len word)"
proof (induction n arbitrary: acc)
  case 0
  then show ?case by simp
next
  case (Suc n)
  show ?case by (simp only: be_bytes.simps be_acc.simps Suc.IH be_acc_step)
qed

lemma be_acc_roundtrip [simp]:
  "8 * n = LENGTH('a) \<Longrightarrow> be_acc 0 (be_bytes n w) = (w :: 'a::len word)"
  by (simp add: be_acc_be_bytes take_bit_word_eq_self)

lemma be_acc_append: "be_acc acc (xs @ ys) = be_acc (be_acc acc xs) ys"
  by (induction xs arbitrary: acc) auto

lemma be_bytes_snoc:
  "be_bytes (Suc n) w = be_bytes n (drop_bit 8 w) @ [ucast (w :: 'a::len word)]"
  by (induction n) (auto simp: ac_simps)

lemma be_bytes_take_bit: "8 * n \<le> m \<Longrightarrow> be_bytes n (take_bit m w) = be_bytes n w"
  by (induction n) (auto intro!: bit_word_eqI simp: bit_simps)

lemma drop_bit_push_or:
  "8 \<le> LENGTH('a) \<Longrightarrow>
   drop_bit 8 (push_bit 8 x OR ucast (b :: byte) :: 'a::len word) = take_bit (LENGTH('a) - 8) x"
  by (rule bit_word_eqI) (auto simp: bit_simps dest: bit_imp_le_length)

lemma ucast_push_or:
  "8 \<le> LENGTH('a) \<Longrightarrow> ucast (push_bit 8 x OR ucast (b :: byte) :: 'a::len word) = b"
  by (rule bit_word_eqI) (auto simp: bit_simps)

text \<open>Reading a run of bytes and writing it back gives the same bytes: wire formats are canonical.\<close>

lemma be_bytes_be_acc:
  "8 * length bs \<le> LENGTH('a) \<Longrightarrow> be_bytes (length bs) (be_acc (acc :: 'a::len word) bs) = bs"
proof (induction bs arbitrary: acc rule: rev_induct)
  case Nil
  then show ?case by simp
next
  case (snoc b bs)
  then have n: "8 * length bs \<le> LENGTH('a) - 8" and w: "8 \<le> LENGTH('a)" by auto
  have "be_bytes (Suc (length bs)) (be_acc acc (bs @ [b]))
      = be_bytes (length bs) (take_bit (LENGTH('a) - 8) (be_acc acc bs)) @ [b]"
    by (simp only: be_acc_append be_acc.simps be_bytes_snoc drop_bit_push_or [OF w]
        ucast_push_or [OF w])
  also have "\<dots> = bs @ [b]"
    using snoc n by (simp add: be_bytes_take_bit)
  finally show ?case by simp
qed

lemma rd_put [simp, wire_simps]:
  "rd16 (put16 a @ bs) = a" "rd32 (put32 b @ bs) = b" "rd64 (put64 c @ bs) = c"
  "rd16 (put16 a) = a" "rd32 (put32 b) = b" "rd64 (put64 c) = c"
  by (simp_all add: rd16_def rd32_def rd64_def)

lemma put_rd:
  "2 \<le> length bs \<Longrightarrow> put16 (rd16 bs) = take 2 bs"
  "4 \<le> length bs \<Longrightarrow> put32 (rd32 bs) = take 4 bs"
  "8 \<le> length bs \<Longrightarrow> put64 (rd64 bs) = take 8 bs"
  using be_bytes_be_acc [of "take 2 bs" "0::u16"] be_bytes_be_acc [of "take 4 bs" "0::u32"]
    be_bytes_be_acc [of "take 8 bs" "0::u64"]
  by (simp_all add: rd16_def rd32_def rd64_def)

lemma put16_eq [wire_simps]: "put16 w = [ucast (drop_bit 8 w), ucast w]"
  by (simp add: numeral_2_eq_2)

lemma rd16_eq [wire_simps]: "rd16 (a # b # bs) = push_bit 8 (ucast a) OR ucast b"
  by (simp add: rd16_def numeral_2_eq_2)

lemma be_bytes_inj: "8 * n = LENGTH('a) \<Longrightarrow> be_bytes n v = be_bytes n w \<longleftrightarrow> v = (w :: 'a::len word)"
  using be_acc_roundtrip [of n v] be_acc_roundtrip [of n w] by metis

section \<open>Words as numbers\<close>

lemma unat_mod_word: "unat (a mod b :: 'a::len word) = unat a mod unat b"
  by (fact unat_mod)

lemma unat_div_word: "unat (a div b :: 'a::len word) = unat a div unat b"
  by (fact unat_div)

lemma unat_plus_le: "unat a + unat b < 2 ^ LENGTH('a) \<Longrightarrow> unat (a + b :: 'a::len word) = unat a + unat b"
  by (simp add: unat_word_ariths)

lemma unat_minus_le: "b \<le> a \<Longrightarrow> unat (a - b :: 'a::len word) = unat a - unat b"
  by (rule unat_sub)

section \<open>Writing into buffers\<close>

text \<open>\<open>put_at off bs buf\<close> is \<open>copy(buf[off:], bs)\<close>.\<close>

definition put_at :: "nat \<Rightarrow> 'a list \<Rightarrow> 'a list \<Rightarrow> 'a list" where
  "put_at off bs buf = take off buf @ go_copy (drop off buf) bs"

text \<open>\<open>fill p out\<close>: the bytes \<open>p\<close> written over the front of \<open>out\<close>.\<close>

definition fill :: "'a list \<Rightarrow> 'a list \<Rightarrow> 'a list" where
  "fill p out = p @ drop (length p) out"

lemma length_put_at [simp]: "length (put_at off bs buf) = max (min off (length buf)) (length buf)"
  by (simp add: put_at_def)

lemma put_at_fill:
  "length p = n \<Longrightarrow> n + length bs \<le> length out \<Longrightarrow> put_at n bs (fill p out) = fill (p @ bs) out"
  by (simp add: put_at_def fill_def go_copy_def add.commute)

lemma update_fill:
  "length p = n \<Longrightarrow> n < length out \<Longrightarrow> (fill p out)[n := x] = fill (p @ [x]) out"
  by (simp add: fill_def list_update_append Cons_nth_drop_Suc [symmetric])

lemma fill_Nil: "fill [] out = out"
  by (simp add: fill_def)

lemma fill_all: "length p = length out \<Longrightarrow> fill p out = p"
  by (simp add: fill_def)

section \<open>Counters held in maps\<close>

text \<open>
  A Go \<open>map[K]int\<close> read at an absent key is 0; \<open>m[k]++\<close> on it stores 1. The code keeps counts in
  such maps and deletes a key rather than storing 0.
\<close>

definition count_of :: "('k \<rightharpoonup> nat) \<Rightarrow> 'k \<Rightarrow> nat" where
  "count_of m k = (case m k of None \<Rightarrow> 0 | Some n \<Rightarrow> n)"

definition count_inc :: "('k \<rightharpoonup> nat) \<Rightarrow> 'k \<Rightarrow> ('k \<rightharpoonup> nat)" where
  "count_inc m k = m(k \<mapsto> count_of m k + 1)"

definition count_dec :: "('k \<rightharpoonup> nat) \<Rightarrow> 'k \<Rightarrow> ('k \<rightharpoonup> nat)" where
  "count_dec m k = (if count_of m k \<le> 1 then m(k := None) else m(k \<mapsto> count_of m k - 1))"

lemma count_of_inc [simp]: "count_of (count_inc m k) j = (if j = k then count_of m k + 1 else count_of m j)"
  by (simp add: count_of_def count_inc_def)

lemma count_of_dec [simp]: "count_of (count_dec m k) j = (if j = k then count_of m k - 1 else count_of m j)"
  by (auto simp: count_of_def count_dec_def split: option.splits)

lemma count_of_empty [simp]: "count_of Map.empty k = 0"
  by (simp add: count_of_def)

end
