(* ===== verification/Esp_Replay.thy ===== *)
theory Esp_Replay
  imports Prelude
begin

unbundle bit_operations_syntax

text \<open>
  The anti-replay window of \<open>esp/replay.go\<close>: an XFRM-style circular bitmap over the last
  \<open>window\<close> sequence numbers. The record and every operation follow the source at word width
  (32-bit sequence numbers, 64-bit mask words). The bitmap is related to the set of sequence
  numbers accepted so far, and the window is shown to implement the locale
  \<open>replay_filter\<close> that the inbound SA relies on.
\<close>

section \<open>Model\<close>

record replayWindow =
  rw_window :: u32
  rw_last :: u32
  rw_mask :: "u64 list"

datatype replay_error = SeqZero | SeqTooOld | SeqReplayed

definition DefaultReplayWindow :: u32 where "DefaultReplayWindow = 4096"

definition newReplayWindow :: "u32 \<Rightarrow> replayWindow" where
  "newReplayWindow window =
     \<lparr>rw_window = window, rw_last = 0,
      rw_mask = replicate (unat ((ucast window + 63 :: u64) div 64)) 0\<rparr>"

definition rw_bit :: "replayWindow \<Rightarrow> u32 \<Rightarrow> u32 \<Rightarrow> u32" where
  "rw_bit w lst diff =
     (let pos = (lst - 1) mod rw_window w
      in (pos + rw_window w - diff) mod rw_window w)"

definition rw_set :: "replayWindow \<Rightarrow> u32 \<Rightarrow> bool" where
  "rw_set w b = (rw_mask w ! unat (b div 64) AND push_bit (unat (b mod 64)) 1 \<noteq> 0)"

definition rw_mark :: "replayWindow \<Rightarrow> u32 \<Rightarrow> replayWindow" where
  "rw_mark w b = w\<lparr>rw_mask := (rw_mask w)[unat (b div 64) :=
       rw_mask w ! unat (b div 64) OR push_bit (unat (b mod 64)) 1]\<rparr>"

text \<open>\<open>w.mask[i] &^= m\<close>\<close>

definition and_not_at :: "u64 list \<Rightarrow> u32 \<Rightarrow> u64 \<Rightarrow> u64 list" where
  "and_not_at ms i m = ms[unat i := ms ! unat i AND NOT m]"

text \<open>\<open>clear(mask[first : last+1])\<close>\<close>

definition clear_words :: "u64 list \<Rightarrow> u32 \<Rightarrow> u32 \<Rightarrow> u64 list" where
  "clear_words ms first lst =
     map (\<lambda>i. if unat first \<le> i \<and> i < unat (lst + 1) then 0 else ms ! i) [0..<length ms]"

definition clearSpan :: "u64 list \<Rightarrow> u32 \<Rightarrow> u32 \<Rightarrow> u64 list" where
  "clearSpan ms start n =
     (if n = 0 then ms
      else let end = start + n; first = start div 64; lst = (end - 1) div 64
        in if first = lst
           then and_not_at ms first
                  (push_bit (unat (start mod 64)) (drop_bit (unat (64 - n)) (NOT 0)))
           else
             let offset = start mod 64;
                 (ms1, first1) =
                   (if offset \<noteq> 0
                    then (and_not_at ms first (push_bit (unat offset) (NOT 0)), first + 1)
                    else (ms, first));
                 tail = end mod 64;
                 (ms2, last2) =
                   (if tail \<noteq> 0
                    then (and_not_at ms1 lst (drop_bit (unat (64 - tail)) (NOT 0)), lst - 1)
                    else (ms1, lst))
             in if first1 \<le> last2 then clear_words ms2 first1 last2 else ms2)"

definition clearRange :: "replayWindow \<Rightarrow> u32 \<Rightarrow> u32 \<Rightarrow> replayWindow" where
  "clearRange w start n =
     (if n = 0 then w
      else let start = start mod rw_window w
        in if rw_window w < start + n
           then let head = rw_window w - start
             in w\<lparr>rw_mask := clearSpan (clearSpan (rw_mask w) start head) 0 (n - head)\<rparr>
           else w\<lparr>rw_mask := clearSpan (rw_mask w) start n\<rparr>)"

definition rw_check :: "replayWindow \<Rightarrow> u32 \<Rightarrow> replay_error option" where
  "rw_check w seq =
     (if rw_window w = 0 then None
      else if seq = 0 then Some SeqZero
      else if rw_last w = 0 \<or> seq > rw_last w then None
      else let diff = rw_last w - seq
        in if diff \<ge> rw_window w then Some SeqTooOld
           else if rw_set w (rw_bit w (rw_last w) diff) then Some SeqReplayed
           else None)"

definition rw_commit :: "replayWindow \<Rightarrow> u32 \<Rightarrow> replayWindow" where
  "rw_commit w seq =
     (if rw_window w = 0 then w
      else if rw_last w = 0
        then rw_mark (w\<lparr>rw_last := seq\<rparr>) ((seq - 1) mod rw_window w)
      else if seq > rw_last w
        then let diff = seq - rw_last w;
                 w1 = (if diff \<ge> rw_window w
                       then w\<lparr>rw_mask := replicate (length (rw_mask w)) 0\<rparr>
                       else clearRange w ((rw_last w - 1) mod rw_window w + 1) (diff - 1))
             in rw_mark (w1\<lparr>rw_last := seq\<rparr>) ((seq - 1) mod rw_window w)
      else rw_mark w (rw_bit w (rw_last w) (rw_last w - seq)))"

section \<open>The bitmap, position by position\<close>

definition mbit :: "u64 list \<Rightarrow> nat \<Rightarrow> bool" where
  "mbit ms k = bit (ms ! (k div 64)) (k mod 64)"

lemma rw_set_mbit: "rw_set w b = mbit (rw_mask w) (unat b)"
  by (simp add: rw_set_def mbit_def and_exp_eq_0_iff_not_bit unat_mod_word unat_div_word)

lemma mbit_update:
  assumes "i < length ms"
  shows "mbit (ms[i := v]) k = (if k div 64 = i then bit v (k mod 64) else mbit ms k)"
  using assms by (auto simp: mbit_def nth_list_update)

lemma mbit_mark:
  assumes "unat b < 64 * length (rw_mask w)"
  shows "mbit (rw_mask (rw_mark w b)) k \<longleftrightarrow> k = unat b \<or> mbit (rw_mask w) k"
proof -
  have "unat b div 64 < length (rw_mask w)" using assms by auto
  moreover have "k = unat b \<longleftrightarrow> k div 64 = unat b div 64 \<and> k mod 64 = unat b mod 64"
    by (metis div_mult_mod_eq)
  ultimately show ?thesis
    by (auto simp: rw_mark_def mbit_update unat_mod_word unat_div_word bit_simps)
      (auto simp: mbit_def)
qed

lemma mbit_and_not_at:
  assumes "unat i < length ms"
  shows "mbit (and_not_at ms i m) k
    \<longleftrightarrow> mbit ms k \<and> \<not> (k div 64 = unat i \<and> bit m (k mod 64))"
  using assms by (auto simp: and_not_at_def mbit_update bit_simps) (auto simp: mbit_def)

lemma length_and_not_at [simp]: "length (and_not_at ms i m) = length ms"
  by (simp add: and_not_at_def)

lemma length_clear_words [simp]: "length (clear_words ms a b) = length ms"
  by (simp add: clear_words_def)

lemma mbit_clear_words:
  assumes "k < 64 * length ms"
  shows "mbit (clear_words ms a b) k
    \<longleftrightarrow> mbit ms k \<and> \<not> (unat a \<le> k div 64 \<and> k div 64 < unat (b + 1))"
proof -
  have "k div 64 < length ms" using assms by auto
  then show ?thesis by (auto simp: clear_words_def mbit_def)
qed

lemma bit_high: "j < 64 \<Longrightarrow> bit (push_bit s (NOT 0) :: u64) j \<longleftrightarrow> s \<le> j"
  by (auto simp: bit_simps)

lemma bit_low: "j < 64 \<Longrightarrow> 0 < t \<Longrightarrow> t \<le> 64 \<Longrightarrow> bit (drop_bit (64 - t) (NOT 0) :: u64) j \<longleftrightarrow> j < t"
  by (auto simp: bit_simps)

lemma bit_span:
  "j < 64 \<Longrightarrow> 0 < n \<Longrightarrow> n \<le> 64 \<Longrightarrow>
   bit (push_bit s (drop_bit (64 - n) (NOT 0)) :: u64) j \<longleftrightarrow> s \<le> j \<and> j < s + n"
  by (auto simp: bit_simps)

lemma same_word_span:
  fixes s m k :: nat
  assumes "0 < m" "s div 64 = (s + m - 1) div 64"
  shows "m \<le> 64"
    and "k div 64 = s div 64 \<and> s mod 64 \<le> k mod 64 \<and> k mod 64 < s mod 64 + m
      \<longleftrightarrow> s \<le> k \<and> k < s + m"
proof -
  define q where "q = s div 64"
  define r where "r = s mod 64"
  have s: "s = 64 * q + r" "r < 64" by (auto simp: q_def r_def)
  have "s + m - 1 < 64 * q + 64"
    using assms by (simp add: q_def)
  with s assms(1) have rm: "r + m \<le> 64" by simp
  then show "m \<le> 64" by simp
  define k1 where "k1 = k div 64"
  define k2 where "k2 = k mod 64"
  have k: "k = 64 * k1 + k2" "k2 < 64" by (auto simp: k1_def k2_def)
  have "k1 = q \<and> r \<le> k2 \<and> k2 < r + m \<longleftrightarrow> s \<le> k \<and> k < s + m"
    using s k rm by (cases "k1 = q") auto
  then show "k div 64 = s div 64 \<and> s mod 64 \<le> k mod 64 \<and> k mod 64 < s mod 64 + m
      \<longleftrightarrow> s \<le> k \<and> k < s + m"
    by (simp add: q_def r_def k1_def k2_def)
qed

lemma split_span:
  fixes s e k :: nat
  assumes "s < e" "s div 64 \<noteq> (e - 1) div 64"
  shows "s \<le> k \<and> k < e \<longleftrightarrow>
    k div 64 = s div 64 \<and> s mod 64 \<le> k mod 64 \<or>
    k div 64 = (e - 1) div 64 \<and> (e mod 64 = 0 \<or> k mod 64 < e mod 64) \<or>
    s div 64 < k div 64 \<and> k div 64 < (e - 1) div 64"
proof -
  define q where "q = s div 64"
  define r where "r = s mod 64"
  define q' where "q' = (e - 1) div 64"
  define r' where "r' = (e - 1) mod 64"
  have s: "s = 64 * q + r" "r < 64" and e: "e = 64 * q' + r' + 1" "r' < 64"
    using assms(1) by (auto simp: q_def r_def q'_def r'_def)
  have lt: "q < q'" using assms by (simp add: q_def q'_def)
  have em: "e mod 64 = (if r' = 63 then 0 else r' + 1)"
    using e by (simp add: mod_Suc)
  define k1 where "k1 = k div 64"
  define k2 where "k2 = k mod 64"
  have k: "k = 64 * k1 + k2" "k2 < 64" by (auto simp: k1_def k2_def)
  have "s \<le> k \<and> k < e \<longleftrightarrow> k1 = q \<and> r \<le> k2 \<or> k1 = q' \<and> k2 \<le> r' \<or> q < k1 \<and> k1 < q'"
    using s e lt k by auto
  moreover have "e mod 64 = 0 \<or> k2 < e mod 64 \<longleftrightarrow> k2 \<le> r'"
    using em e k by auto
  ultimately show ?thesis
    by (simp add: q_def q'_def r_def k1_def k2_def)
qed

lemma span_steps:
  fixes a b kd km r t :: nat
  assumes "a < b"
  shows "kd = a \<and> r \<le> km \<or> kd = b \<and> (t = 0 \<or> km < t) \<or> a < kd \<and> kd < b
    \<longleftrightarrow> (r \<noteq> 0 \<and> kd = a \<and> r \<le> km) \<or> (t \<noteq> 0 \<and> kd = b \<and> km < t)
      \<or> ((if r \<noteq> 0 then a + 1 else a) \<le> kd \<and> kd \<le> (if t \<noteq> 0 then b - 1 else b))"
  using assms by (cases "r = 0"; cases "t = 0") auto

lemma length_clearSpan [simp]: "length (clearSpan ms start n) = length ms"
  by (simp add: clearSpan_def Let_def)

lemma mbit_clearSpan:
  assumes n: "n \<noteq> 0" and fit: "unat start + unat n \<le> 64 * length ms"
    and small: "unat start + unat n < 2 ^ 32" and k: "k < 64 * length ms"
  shows "mbit (clearSpan ms start n) k
    \<longleftrightarrow> mbit ms k \<and> \<not> (unat start \<le> k \<and> k < unat start + unat n)"
proof -
  define s m e where "s = unat start" and "m = unat n" and "e = s + m"
  have m: "0 < m" using n by (simp add: m_def unat_gt_0)
  have ue: "unat (start + n) = e"
    using small by (simp add: unat_plus_le s_def m_def e_def)
  have pos: "1 \<le> start + n"
    using ue m by (simp add: word_le_nat_alt e_def)
  have ul: "unat ((start + n - 1) div 64) = (e - 1) div 64"
    by (simp add: unat_div_word unat_minus_le [OF pos] ue)
  have uf: "unat (start div 64) = s div 64"
    by (simp add: unat_div_word s_def)
  have li: "s div 64 < length ms" "(e - 1) div 64 < length ms"
    using fit m by (auto simp: s_def m_def e_def less_mult_imp_div_less mult.commute)
  have km: "k mod 64 < 64" by simp
  show ?thesis
  proof (cases "start div 64 = (start + n - 1) div 64")
    case True
    then have eq: "s div 64 = (s + m - 1) div 64" using uf ul by (simp add: e_def)
    note sp = same_word_span [OF m eq]
    have "unat (64 - n) = 64 - m"
      using sp(1) by (simp add: unat_minus_le word_le_nat_alt m_def)
    then have b: "bit (push_bit (unat (start mod 64)) (drop_bit (unat (64 - n)) (NOT 0)) :: u64) (k mod 64)
        \<longleftrightarrow> s mod 64 \<le> k mod 64 \<and> k mod 64 < s mod 64 + m"
      using bit_span [OF km m sp(1)] by (simp add: unat_mod_word s_def)
    have "mbit (clearSpan ms start n) k \<longleftrightarrow>
        mbit ms k \<and> \<not> (k div 64 = s div 64 \<and> s mod 64 \<le> k mod 64 \<and> k mod 64 < s mod 64 + m)"
      using True n li uf b by (simp add: clearSpan_def Let_def mbit_and_not_at)
    then show ?thesis using sp(2) [of k] unfolding s_def m_def by blast
  next
    case False
    then have ne: "s div 64 \<noteq> (e - 1) div 64" using uf ul by (simp add: word_unat_eq_iff)
    have lt: "s div 64 < (e - 1) div 64"
      using ne m by (simp add: e_def div_le_mono le_neq_implies_less)
    define ms1 where "ms1 = (if start mod 64 \<noteq> 0
        then and_not_at ms (start div 64) (push_bit (unat (start mod 64)) (NOT 0)) else ms)"
    define first1 where "first1 = (if start mod 64 \<noteq> 0 then start div 64 + 1 else start div 64)"
    define lst where "lst = (start + n - 1) div 64"
    define ms2 where "ms2 = (if (start + n) mod 64 \<noteq> 0
        then and_not_at ms1 lst (drop_bit (unat (64 - (start + n) mod 64)) (NOT 0)) else ms1)"
    define last2 where "last2 = (if (start + n) mod 64 \<noteq> 0 then lst - 1 else lst)"
    have res: "clearSpan ms start n = (if first1 \<le> last2 then clear_words ms2 first1 last2 else ms2)"
      using False n by (simp add: clearSpan_def Let_def ms1_def ms2_def first1_def last2_def lst_def)
    have len: "length ms1 = length ms" "length ms2 = length ms"
      by (simp_all add: ms1_def ms2_def)
    have sm: "start mod 64 = 0 \<longleftrightarrow> s mod 64 = 0" "unat (start mod 64) = s mod 64"
      by (simp_all add: s_def unat_mod_word unat_eq_0 [symmetric])
    have em: "(start + n) mod 64 = 0 \<longleftrightarrow> e mod 64 = 0" "unat ((start + n) mod 64) = e mod 64"
      using ue by (simp_all add: unat_mod_word unat_eq_0 [symmetric])
    have et: "unat (64 - (start + n) mod 64) = 64 - e mod 64"
      using em(2) by (simp add: unat_minus_le word_le_nat_alt)
    have b1: "mbit ms1 k \<longleftrightarrow> mbit ms k \<and> \<not> (s mod 64 \<noteq> 0 \<and> k div 64 = s div 64 \<and> s mod 64 \<le> k mod 64)"
      using li by (auto simp: ms1_def sm mbit_and_not_at uf bit_simps)
    have b2: "mbit ms2 k \<longleftrightarrow> mbit ms1 k \<and> \<not> (e mod 64 \<noteq> 0 \<and> k div 64 = (e - 1) div 64 \<and> k mod 64 < e mod 64)"
      using li by (auto simp: ms2_def em et mbit_and_not_at ul len lst_def bit_simps)
    have sm32: "s div 64 + 1 < 2 ^ 32" "(e - 1) div 64 + 1 < 2 ^ 32"
      using small by (simp_all add: s_def m_def e_def)
    have f1: "unat first1 = (if s mod 64 \<noteq> 0 then s div 64 + 1 else s div 64)"
      using sm32 uf by (simp add: first1_def sm unat_plus_le)
    have l2: "unat last2 = (if e mod 64 \<noteq> 0 then (e - 1) div 64 - 1 else (e - 1) div 64)"
      using lt ul by (simp add: last2_def em lst_def unat_minus_le word_le_nat_alt)
    have "unat last2 \<le> (e - 1) div 64" using l2 by auto
    then have l2': "unat (last2 + 1) = unat last2 + 1"
      using sm32 by (simp add: unat_plus_le)
    have fin: "mbit (clearSpan ms start n) k \<longleftrightarrow>
        mbit ms2 k \<and> \<not> (unat first1 \<le> k div 64 \<and> k div 64 \<le> unat last2)"
      using k by (auto simp: res mbit_clear_words len l2' word_le_nat_alt)
    have "s < e" using m by (simp add: e_def)
    have "mbit (clearSpan ms start n) k \<longleftrightarrow> mbit ms k \<and> \<not> (s \<le> k \<and> k < e)"
      unfolding fin b2 b1 f1 l2 split_span [OF \<open>s < e\<close> ne] span_steps [OF lt] by blast
    then show ?thesis by (simp add: e_def s_def m_def)
  qed
qed

section \<open>Residues\<close>

lemma mod_neq:
  fixes a b W :: nat
  assumes "a < b" "b - a < W"
  shows "a mod W \<noteq> b mod W"
proof
  assume "a mod W = b mod W"
  then have "W dvd b - a" using assms(1) mod_eq_dvd_iff_nat [of a b W] by (metis less_imp_le_nat mod_eq_dvd_iff_nat)
  with assms show False by (auto dest: dvd_imp_le)
qed

lemma mod_eq_near:
  fixes a b W :: nat
  assumes "a < b + W" "b < a + W"
  shows "a mod W = b mod W \<longleftrightarrow> a = b"
proof (cases a b rule: linorder_cases)
  case less
  then show ?thesis using mod_neq [of a b W] assms by linarith
next
  case greater
  then show ?thesis using mod_neq [of b a W] assms by linarith
qed simp

section \<open>The window as a set of accepted sequence numbers\<close>

text \<open>
  \<open>window_rep W L B H\<close>: a window of \<open>W\<close> positions, highest accepted number \<open>L\<close> (0 for none) and
  bitmap \<open>B\<close> represent the set \<open>H\<close> of accepted numbers: inside the window the bit of a number is
  set exactly when the number is in \<open>H\<close>.
\<close>

definition window_rep :: "nat \<Rightarrow> nat \<Rightarrow> (nat \<Rightarrow> bool) \<Rightarrow> nat set \<Rightarrow> bool" where
  "window_rep W L B H \<longleftrightarrow>
     (\<forall>h\<in>H. 0 < h \<and> h \<le> L) \<and>
     (if L = 0 then \<forall>p<W. \<not> B p else L \<in> H) \<and>
     (\<forall>k. 0 < k \<and> k \<le> L \<and> L < k + W \<longrightarrow> B ((k - 1) mod W) = (k \<in> H))"

lemma window_rep_bit:
  "window_rep W L B H \<Longrightarrow> 0 < k \<Longrightarrow> k \<le> L \<Longrightarrow> L < k + W \<Longrightarrow> B ((k - 1) mod W) \<longleftrightarrow> k \<in> H"
  by (simp add: window_rep_def)

lemma window_rep_cong:
  "0 < W \<Longrightarrow> (\<And>p. p < W \<Longrightarrow> B p = B' p) \<Longrightarrow> window_rep W L B H = window_rep W L B' H"
  by (simp add: window_rep_def)

lemma window_rep_clear:
  assumes "0 < W" "0 < s" "\<forall>h\<in>H. 0 < h \<and> h + W \<le> s"
  shows "window_rep W s (\<lambda>p. p = (s - 1) mod W) (insert s H)"
proof -
  have "(k - 1) mod W = (s - 1) mod W \<longleftrightarrow> k \<in> insert s H" if "0 < k" "k \<le> s" "s < k + W" for k
    using that assms mod_eq_near [of "k - 1" "s - 1" W] by fastforce
  then show ?thesis using assms by (force simp: window_rep_def)
qed

lemma window_rep_first:
  assumes "window_rep W 0 B H" "0 < W" "0 < s"
  shows "window_rep W s (\<lambda>p. p = (s - 1) mod W \<or> B p) (insert s H)"
proof -
  have "H = {}" using assms(1) by (auto simp: window_rep_def)
  moreover have "\<forall>p<W. \<not> B p" using assms(1) by (simp add: window_rep_def)
  ultimately show ?thesis
    using window_rep_clear [of W s H] assms(2,3)
    by (subst window_rep_cong [where B' = "\<lambda>p. p = (s - 1) mod W"]) auto
qed

lemma window_rep_slide:
  assumes rep: "window_rep W L B H" and W: "0 < W" and L: "0 < L" "L < s" "s - L < W"
  shows "window_rep W s
    (\<lambda>p. p = (s - 1) mod W \<or> (B p \<and> \<not> (\<exists>i < s - L - 1. p = (L + i) mod W))) (insert s H)"
    (is "window_rep W s ?B _")
proof -
  have "?B ((k - 1) mod W) \<longleftrightarrow> k \<in> insert s H" if k: "0 < k" "k \<le> s" "s < k + W" for k
  proof -
    have new: "(k - 1) mod W = (s - 1) mod W \<longleftrightarrow> k = s"
      using k mod_eq_near [of "k - 1" "s - 1" W] by auto
    show ?thesis
    proof (cases "k \<le> L")
      case True
      have "(k - 1) mod W \<noteq> (L + i) mod W" if "i < s - L - 1" for i
        using mod_neq [of "k - 1" "L + i" W] that k True by linarith
      moreover have "B ((k - 1) mod W) \<longleftrightarrow> k \<in> H"
        using window_rep_bit [OF rep] k True L by simp
      ultimately show ?thesis using new L True by auto
    next
      case False
      then have "k \<notin> H" using rep by (auto simp: window_rep_def)
      moreover have "\<exists>i < s - L - 1. (k - 1) mod W = (L + i) mod W" if "k \<noteq> s"
        using that k False by (intro exI [of _ "k - 1 - L"]) auto
      ultimately show ?thesis using new by auto
    qed
  qed
  moreover have "\<forall>h \<in> insert s H. 0 < h \<and> h \<le> s"
    using rep L by (force simp: window_rep_def)
  ultimately show ?thesis using L by (auto simp: window_rep_def)
qed

lemma window_rep_back:
  assumes rep: "window_rep W L B H" and W: "0 < W" and s: "0 < s" "s \<le> L" "L < s + W"
  shows "window_rep W L (\<lambda>p. p = (s - 1) mod W \<or> B p) (insert s H)"
proof -
  have "(k - 1) mod W = (s - 1) mod W \<or> B ((k - 1) mod W) \<longleftrightarrow> k \<in> insert s H"
    if "0 < k" "k \<le> L" "L < k + W" for k
    using that s mod_eq_near [of "k - 1" "s - 1" W] window_rep_bit [OF rep that] by fastforce
  then show ?thesis using rep s by (auto simp: window_rep_def)
qed

section \<open>The operations on represented windows\<close>

definition rw_ok :: "replayWindow \<Rightarrow> bool" where
  "rw_ok w \<longleftrightarrow> 0 < unat (rw_window w) \<and> unat (rw_window w) \<le> 2 ^ 31 \<and>
     length (rw_mask w) = (unat (rw_window w) + 63) div 64"

definition rw_rep :: "replayWindow \<Rightarrow> nat set \<Rightarrow> bool" where
  "rw_rep w H \<longleftrightarrow> rw_ok w \<and>
     window_rep (unat (rw_window w)) (unat (rw_last w)) (mbit (rw_mask w)) H"

lemma rw_ok_fit: "rw_ok w \<Longrightarrow> unat (rw_window w) \<le> 64 * length (rw_mask w)"
  by (simp add: rw_ok_def)

lemma unat_rw_bit:
  assumes ok: "rw_ok w" and s: "0 < seq" "seq \<le> lst" "lst - seq < rw_window w"
  shows "unat (rw_bit w lst (lst - seq)) = (unat seq - 1) mod unat (rw_window w)"
proof -
  define W L S where "W = unat (rw_window w)" and "L = unat lst" and "S = unat seq"
  have W: "0 < W" "W \<le> 2 ^ 31" using ok by (auto simp: rw_ok_def W_def)
  have S: "0 < S" "S \<le> L" using s by (auto simp: S_def L_def word_le_nat_alt word_less_nat_alt)
  have d: "unat (lst - seq) = L - S" using s by (simp add: unat_minus_le L_def S_def)
  then have dW: "L - S < W" using s by (simp add: word_less_nat_alt W_def)
  have p: "unat ((lst - 1) mod rw_window w) = (L - 1) mod W"
    using S by (simp add: unat_mod_word unat_minus_le word_le_nat_alt L_def W_def)
  have "(L - 1) mod W < W" using W by simp
  then have pw: "unat ((lst - 1) mod rw_window w + rw_window w) = (L - 1) mod W + W"
    using W p by (subst unat_plus_le) (auto simp: W_def)
  have "unat ((lst - 1) mod rw_window w + rw_window w - (lst - seq)) = (L - 1) mod W + W - (L - S)"
    using dW pw d by (subst unat_minus_le) (auto simp: word_le_nat_alt)
  then have "unat (rw_bit w lst (lst - seq)) = ((L - 1) mod W + (W - (L - S))) mod W"
    using dW by (simp add: rw_bit_def Let_def unat_mod_word W_def)
  also have "\<dots> = (L - 1 + (W - (L - S))) mod W" by (simp add: mod_add_left_eq)
  also have "L - 1 + (W - (L - S)) = S - 1 + W" using S dW by simp
  finally show ?thesis by (simp add: S_def W_def)
qed

lemma length_clearRange [simp]: "length (rw_mask (clearRange w start n)) = length (rw_mask w)"
  by (simp add: clearRange_def Let_def)

lemma clearRange_fields [simp]:
  "rw_window (clearRange w start n) = rw_window w" "rw_last (clearRange w start n) = rw_last w"
  by (simp_all add: clearRange_def Let_def)

lemma mod_run:
  fixes W s n k :: nat
  assumes "n < W" "k < W" "s < W"
  shows "(\<exists>i<n. k = (s + i) mod W) \<longleftrightarrow>
    (if W < s + n then s \<le> k \<or> k < n - (W - s) else s \<le> k \<and> k < s + n)" (is "?l \<longleftrightarrow> ?r")
proof
  assume ?l
  then obtain i where i: "i < n" "k = (s + i) mod W" by blast
  show ?r
  proof (cases "s + i < W")
    case True
    with i show ?thesis by simp
  next
    case False
    with i assms have "k = s + i - W" by (simp add: le_mod_geq)
    with i(1) False assms(3) have "W < s + n" "k < n - (W - s)" by linarith+
    then show ?thesis by simp
  qed
next
  assume r: ?r
  show ?l
  proof (cases "s \<le> k")
    case True
    with r assms show ?thesis by (intro exI [of _ "k - s"]) (auto split: if_splits)
  next
    case False
    with r assms have "k + W - s < n" "(s + (k + W - s)) mod W = k" by (auto split: if_splits)
    then show ?thesis by metis
  qed
qed

lemma mbit_clearRange:
  assumes ok: "rw_ok w" and n: "unat n < unat (rw_window w)" and k: "k < unat (rw_window w)"
  shows "mbit (rw_mask (clearRange w start n)) k \<longleftrightarrow>
    mbit (rw_mask w) k \<and> \<not> (\<exists>i<unat n. k = (unat start + i) mod unat (rw_window w))"
proof (cases "n = 0")
  case True
  then show ?thesis by (simp add: clearRange_def)
next
  case False
  define W where "W = unat (rw_window w)"
  define st where "st = start mod rw_window w"
  have W: "0 < W" "W \<le> 2 ^ 31" and fit: "W \<le> 64 * length (rw_mask w)"
    using ok rw_ok_fit [OF ok] by (auto simp: rw_ok_def W_def)
  have st: "unat st = unat start mod W" by (simp add: st_def unat_mod_word W_def)
  then have stW: "unat st < W" using W by simp
  have kl: "k < 64 * length (rw_mask w)" using k fit by (simp add: W_def)
  have sum: "unat (st + n) = unat st + unat n"
    using W stW n by (intro unat_plus_le) (simp add: W_def)
  have mr: "(\<exists>i<unat n. k = (unat start + i) mod W) \<longleftrightarrow> (\<exists>i<unat n. k = (unat st + i) mod W)"
    by (simp add: st mod_add_left_eq)
  show ?thesis
  proof (cases "rw_window w < st + n")
    case True
    then have big: "W < unat st + unat n" by (simp add: word_less_nat_alt sum W_def)
    have hd: "unat (rw_window w - st) = W - unat st"
      using stW by (simp add: unat_minus_le word_le_nat_alt W_def)
    have tl: "unat (n - (rw_window w - st)) = unat n - (W - unat st)"
      using big hd by (subst unat_minus_le) (auto simp: word_le_nat_alt)
    have nz: "rw_window w - st \<noteq> 0" "n - (rw_window w - st) \<noteq> 0"
      using hd tl stW big by (auto simp: unat_eq_0 [symmetric])
    have "mbit (rw_mask (clearRange w start n)) k \<longleftrightarrow> mbit (rw_mask w) k
        \<and> \<not> (unat st \<le> k \<and> k < W) \<and> \<not> k < unat n - (W - unat st)"
      using False True nz fit W stW n kl
      by (simp add: clearRange_def Let_def st_def [symmetric] mbit_clearSpan hd tl W_def [symmetric])
    then show ?thesis
      using mod_run [of "unat n" W k "unat st"] n k stW big mr by (auto simp: W_def)
  next
    case le: False
    then have small: "\<not> W < unat st + unat n" by (simp add: word_less_nat_alt sum W_def)
    have "mbit (rw_mask (clearRange w start n)) k \<longleftrightarrow> mbit (rw_mask w) k
        \<and> \<not> (unat st \<le> k \<and> k < unat st + unat n)"
      using False le small fit W kl
      by (simp add: clearRange_def Let_def st_def [symmetric] mbit_clearSpan)
    then show ?thesis
      using mod_run [of "unat n" W k "unat st"] n k stW small mr by (auto simp: W_def)
  qed
qed

lemma mbit_zeros: "k < 64 * n \<Longrightarrow> \<not> mbit (replicate n 0) k"
  by (simp add: mbit_def less_mult_imp_div_less mult.commute)

lemma rw_rep_new:
  assumes "0 < window" "window \<le> 2 ^ 31"
  shows "rw_rep (newReplayWindow window) {}"
proof -
  have w: "unat window \<le> 2 ^ 31" using assms(2) by (simp add: word_le_nat_alt)
  then have u: "unat (ucast window + 63 :: u64) = unat window + 63"
    by (subst unat_plus_le) (auto simp: unsigned_ucast_eq take_bit_nat_eq_self)
  show ?thesis
    using assms(1) u w mbit_zeros
    by (auto simp: rw_rep_def rw_ok_def newReplayWindow_def window_rep_def unat_div_word
        word_less_nat_alt)
qed

lemma rw_check_iff:
  assumes "rw_rep w H"
  shows "rw_check w seq = None \<longleftrightarrow>
    seq \<noteq> 0 \<and> unat seq \<notin> H \<and> (\<forall>h\<in>H. h < unat seq + unat (rw_window w))"
proof -
  define W L where "W = unat (rw_window w)" and "L = unat (rw_last w)"
  have ok: "rw_ok w" and rep: "window_rep W L (mbit (rw_mask w)) H"
    using assms by (auto simp: rw_rep_def W_def L_def)
  have W: "rw_window w \<noteq> 0" using ok by (auto simp: rw_ok_def)
  have old: "(\<forall>h\<in>H. h < unat seq + W) \<longleftrightarrow> L < unat seq + W" if "seq \<le> rw_last w" "rw_last w \<noteq> 0"
    using rep that by (auto simp: window_rep_def L_def unat_eq_0 split: if_splits)
  show ?thesis
  proof (cases "seq = 0 \<or> rw_last w = 0 \<or> seq > rw_last w")
    case True
    then show ?thesis
      using rep W by (auto simp: rw_check_def window_rep_def L_def word_less_nat_alt)
  next
    case False
    then have s: "0 < seq" "seq \<le> rw_last w" by (auto simp: word_neq_0_conv)
    have d: "rw_last w - seq < rw_window w \<longleftrightarrow> L < unat seq + W"
      using s by (auto simp: word_less_nat_alt unat_minus_le L_def W_def word_le_nat_alt)
    have "mbit (rw_mask w) (unat (rw_bit w (rw_last w) (rw_last w - seq))) \<longleftrightarrow> unat seq \<in> H"
      if "rw_last w - seq < rw_window w"
      using window_rep_bit [OF rep, of "unat seq"] unat_rw_bit [OF ok s that] s d that
      by (simp add: L_def W_def word_le_nat_alt word_less_nat_alt)
    then show ?thesis
      using False W d old s by (auto simp: rw_check_def Let_def rw_set_mbit not_le W_def)
  qed
qed

lemma rw_mark_fields [simp]:
  "rw_window (rw_mark w b) = rw_window w" "rw_last (rw_mark w b) = rw_last w"
  "length (rw_mask (rw_mark w b)) = length (rw_mask w)"
  by (simp_all add: rw_mark_def)

lemma rw_ok_cong:
  "rw_window w' = rw_window w \<Longrightarrow> length (rw_mask w') = length (rw_mask w) \<Longrightarrow> rw_ok w' = rw_ok w"
  by (simp add: rw_ok_def)

text \<open>Marking the position of \<open>s\<close> after the other bits have been brought to \<open>B\<close>.\<close>

lemma rw_rep_mark:
  assumes ok: "rw_ok w" and b: "unat b = (s - 1) mod unat (rw_window w)"
    and rep: "window_rep (unat (rw_window w)) (unat (rw_last w))
      (\<lambda>p. p = (s - 1) mod unat (rw_window w) \<or> mbit (rw_mask w) p) H"
  shows "rw_rep (rw_mark w b) H"
proof -
  have W: "0 < unat (rw_window w)" using ok by (simp add: rw_ok_def)
  have "unat b < 64 * length (rw_mask w)"
    using b W rw_ok_fit [OF ok] by (metis mod_less_divisor order_less_le_trans)
  then have "mbit (rw_mask (rw_mark w b))
      = (\<lambda>p. p = (s - 1) mod unat (rw_window w) \<or> mbit (rw_mask w) p)"
    using mbit_mark b by (intro ext) simp
  moreover have "rw_ok (rw_mark w b)" using ok rw_ok_cong [of "rw_mark w b" w] by simp
  ultimately show ?thesis using rep by (simp add: rw_rep_def)
qed

text \<open>The four branches of \<open>commit\<close>: first packet, jump past the window, slide, fill in behind.\<close>

lemma commit_pos:
  "seq \<noteq> 0 \<Longrightarrow> unat ((seq - 1) mod rw_window w) = (unat seq - 1) mod unat (rw_window w)"
  by (simp add: unat_mod_word unat_minus_le word_le_nat_alt)
    (metis One_nat_def Suc_leI unat_gt_0 unat_1 unat_minus_le word_le_nat_alt)

lemma rw_rep_first:
  assumes "rw_rep w H" "seq \<noteq> 0" "rw_last w = 0"
  shows "rw_rep (rw_commit w seq) (insert (unat seq) H)"
proof -
  have ok: "rw_ok w" and W: "0 < unat (rw_window w)" using assms(1) by (auto simp: rw_rep_def rw_ok_def)
  have "rw_commit w seq = rw_mark (w\<lparr>rw_last := seq\<rparr>) ((seq - 1) mod rw_window w)"
    using W assms(3) by (auto simp: rw_commit_def)
  moreover have "rw_rep (rw_mark (w\<lparr>rw_last := seq\<rparr>) ((seq - 1) mod rw_window w)) (insert (unat seq) H)"
    using assms W window_rep_first [of "unat (rw_window w)" "mbit (rw_mask w)" H "unat seq"]
      commit_pos [OF assms(2)]
    by (intro rw_rep_mark) (auto simp: rw_rep_def rw_ok_def unat_gt_0)
  ultimately show ?thesis by simp
qed

lemma rw_rep_jump:
  assumes H: "rw_rep w H" and s: "rw_last w \<noteq> 0" "rw_last w < seq" "rw_window w \<le> seq - rw_last w"
  shows "rw_rep (rw_commit w seq) (insert (unat seq) H)"
proof -
  define W where "W = unat (rw_window w)"
  define w1 where "w1 = w\<lparr>rw_mask := replicate (length (rw_mask w)) 0, rw_last := seq\<rparr>"
  have ok: "rw_ok w" "rw_ok w1" and W: "rw_window w \<noteq> 0" "0 < W" and fit: "W \<le> 64 * length (rw_mask w)"
    using H rw_ok_fit [of w] by (auto simp: rw_rep_def rw_ok_def w1_def W_def)
  have seq: "seq \<noteq> 0" "0 < unat seq" using s by (auto simp: word_less_nat_alt)
  have "unat (rw_last w) + W \<le> unat seq"
    using s by (auto simp: word_le_nat_alt word_less_nat_alt unat_minus_le W_def)
  then have far: "\<forall>h\<in>H. 0 < h \<and> h + W \<le> unat seq"
    using H by (force simp: rw_rep_def window_rep_def)
  have "window_rep W (unat seq) (\<lambda>p. p = (unat seq - 1) mod W \<or> mbit (rw_mask w1) p) (insert (unat seq) H)"
    using window_rep_clear [OF W(2) seq(2) far] W fit mbit_zeros
    by (subst window_rep_cong [where B' = "\<lambda>p. p = (unat seq - 1) mod W"]) (auto simp: w1_def)
  moreover have "rw_commit w seq = rw_mark w1 ((seq - 1) mod rw_window w)"
    using s W by (simp add: rw_commit_def Let_def w1_def)
  ultimately show ?thesis
    using rw_rep_mark [of w1 "(seq - 1) mod rw_window w" "unat seq"] commit_pos [OF seq(1), of w] ok
    by (simp add: w1_def W_def)
qed

lemma mbit_slide:
  assumes ok: "rw_ok w" and s: "rw_last w \<noteq> 0" "rw_last w < seq" "seq - rw_last w < rw_window w"
    and p: "p < unat (rw_window w)"
  shows "mbit (rw_mask (clearRange w ((rw_last w - 1) mod rw_window w + 1) (seq - rw_last w - 1))) p
    \<longleftrightarrow> mbit (rw_mask w) p
      \<and> \<not> (\<exists>i < unat seq - unat (rw_last w) - 1. p = (unat (rw_last w) + i) mod unat (rw_window w))"
proof -
  define W L where "W = unat (rw_window w)" and "L = unat (rw_last w)"
  have L: "0 < L" "L < unat seq" using s by (auto simp: L_def word_less_nat_alt unat_gt_0)
  have W: "0 < W" "W \<le> 2 ^ 31" using ok by (auto simp: rw_ok_def W_def)
  have d: "unat (seq - rw_last w) = unat seq - L" "unat seq - L < W"
    using s unat_minus_le [OF order_less_imp_le [OF s(2)]] by (auto simp: word_less_nat_alt L_def W_def)
  then have n: "unat (seq - rw_last w - 1) = unat seq - L - 1"
    using L by (subst unat_minus_le) (auto simp: word_le_nat_alt)
  have "(L - 1) mod W < 2 ^ 31" using W mod_less_divisor [of W "L - 1"] by linarith
  moreover have "unat ((rw_last w - 1) mod rw_window w) = (L - 1) mod W"
    using commit_pos [OF s(1), of w] by (simp add: L_def W_def)
  ultimately have st: "unat ((rw_last w - 1) mod rw_window w + 1) = (L - 1) mod W + 1"
    using W by (subst unat_plus_le) auto
  have stm: "((L - 1) mod W + 1 + i) mod W = (L + i) mod W" for i
  proof -
    have "((L - 1) mod W + (1 + i)) mod W = (L - 1 + (1 + i)) mod W" by (rule mod_add_left_eq)
    then show ?thesis using L by (simp add: add.assoc)
  qed
  show ?thesis
    using mbit_clearRange [OF ok, of "seq - rw_last w - 1" p "(rw_last w - 1) mod rw_window w + 1"]
      p n d st stm by (simp add: W_def L_def)
qed

lemma rw_rep_slide:
  assumes H: "rw_rep w H" and s: "rw_last w \<noteq> 0" "rw_last w < seq" "seq - rw_last w < rw_window w"
  shows "rw_rep (rw_commit w seq) (insert (unat seq) H)"
proof -
  define W L where "W = unat (rw_window w)" and "L = unat (rw_last w)"
  define w1 where "w1 = (clearRange w ((rw_last w - 1) mod rw_window w + 1) (seq - rw_last w - 1))
    \<lparr>rw_last := seq\<rparr>"
  have ok: "rw_ok w" "rw_ok w1" and W: "rw_window w \<noteq> 0" "0 < W"
    and rep: "window_rep W L (mbit (rw_mask w)) H"
    using H by (auto simp: rw_rep_def rw_ok_def w1_def W_def L_def)
  have L: "0 < L" "L < unat seq" "unat seq - L < W" and seq: "seq \<noteq> 0"
    using s unat_minus_le [OF order_less_imp_le [OF s(2)]]
    by (auto simp: L_def W_def word_less_nat_alt unat_gt_0)
  have "window_rep W (unat seq) (\<lambda>p. p = (unat seq - 1) mod W \<or> mbit (rw_mask w1) p) (insert (unat seq) H)"
    using window_rep_slide [OF rep W(2) L] W mbit_slide [OF ok(1) s]
    by (subst window_rep_cong [where B' = "\<lambda>p. p = (unat seq - 1) mod W \<or>
        (mbit (rw_mask w) p \<and> \<not> (\<exists>i < unat seq - L - 1. p = (L + i) mod W))"])
      (auto simp: w1_def W_def L_def)
  moreover have "rw_commit w seq = rw_mark w1 ((seq - 1) mod rw_window w)"
    using s W by (simp add: rw_commit_def Let_def w1_def not_le)
  ultimately show ?thesis
    using rw_rep_mark [of w1 "(seq - 1) mod rw_window w" "unat seq"] commit_pos [OF seq, of w] ok
    by (simp add: w1_def W_def)
qed

lemma rw_rep_back:
  assumes H: "rw_rep w H" and s: "seq \<noteq> 0" "rw_last w \<noteq> 0" "seq \<le> rw_last w"
    and near: "\<forall>h\<in>H. h < unat seq + unat (rw_window w)"
  shows "rw_rep (rw_commit w seq) (insert (unat seq) H)"
proof -
  define W L where "W = unat (rw_window w)" and "L = unat (rw_last w)"
  have ok: "rw_ok w" and W: "rw_window w \<noteq> 0" "0 < W"
    and rep: "window_rep W L (mbit (rw_mask w)) H"
    using H by (auto simp: rw_rep_def rw_ok_def W_def L_def)
  have "L \<in> H" using rep s by (auto simp: window_rep_def L_def unat_eq_0 split: if_splits)
  with near have LW: "L < unat seq + W" by (simp add: W_def)
  have sl: "0 < unat seq" "unat seq \<le> L" using s by (auto simp: word_le_nat_alt L_def unat_gt_0)
  have "rw_last w - seq < rw_window w"
    using s LW sl by (auto simp: word_less_nat_alt unat_minus_le L_def W_def)
  then have b: "unat (rw_bit w (rw_last w) (rw_last w - seq)) = (unat seq - 1) mod W"
    using unat_rw_bit [OF ok _ s(3)] sl by (simp add: W_def word_less_nat_alt)
  have "rw_commit w seq = rw_mark w (rw_bit w (rw_last w) (rw_last w - seq))"
    using s W by (simp add: rw_commit_def not_less)
  then show ?thesis
    using rw_rep_mark [OF ok b [unfolded W_def]] window_rep_back [OF rep W(2) sl LW]
    by (simp add: W_def L_def)
qed

lemma rw_rep_commit:
  assumes H: "rw_rep w H" and acc: "rw_check w seq = None"
  shows "rw_rep (rw_commit w seq) (insert (unat seq) H)"
proof -
  have s: "seq \<noteq> 0" and near: "\<forall>h\<in>H. h < unat seq + unat (rw_window w)"
    using acc rw_check_iff [OF H] by auto
  show ?thesis
    using rw_rep_first [OF H s] rw_rep_jump [OF H] rw_rep_slide [OF H] rw_rep_back [OF H s _ _ near]
    by (meson not_le)
qed

section \<open>The interface the inbound SA relies on\<close>

text \<open>
  A replay filter decides a sequence number with \<open>accepts\<close>, records an accepted one with
  \<open>note\<close>, and represents the set of the numbers recorded so far. The client below runs one
  over a stream of numbers, as the commit path of an inbound SA does.
\<close>

locale replay_filter =
  fixes accepts :: "'w \<Rightarrow> 's \<Rightarrow> bool"
    and note_seq :: "'w \<Rightarrow> 's \<Rightarrow> 'w"
    and rep :: "'w \<Rightarrow> 's set \<Rightarrow> bool"
  assumes accepts_fresh: "rep w H \<Longrightarrow> accepts w s \<Longrightarrow> s \<notin> H"
    and rep_note: "rep w H \<Longrightarrow> accepts w s \<Longrightarrow> rep (note_seq w s) (insert s H)"
begin

fun deliver :: "'w \<Rightarrow> 's list \<Rightarrow> 's list" where
  "deliver w [] = []"
| "deliver w (s # ss) = (if accepts w s then s # deliver (note_seq w s) ss else deliver w ss)"

lemma deliver_disjoint: "rep w H \<Longrightarrow> set (deliver w ss) \<inter> H = {}"
  by (induction w ss arbitrary: H rule: deliver.induct)
    (auto dest: accepts_fresh rep_note)

lemma deliver_distinct: "rep w H \<Longrightarrow> distinct (deliver w ss)"
proof (induction w ss arbitrary: H rule: deliver.induct)
  case (2 w s ss)
  then show ?case using deliver_disjoint [OF rep_note [of w H s], of ss] rep_note [of w H s] by auto
qed simp

end

interpretation rw: replay_filter "\<lambda>w s. rw_check w s = None" rw_commit "\<lambda>w H. rw_rep w (unat ` H)"
proof
  fix w :: replayWindow and H :: "u32 set" and s
  assume rep: "rw_rep w (unat ` H)" and acc: "rw_check w s = None"
  show "s \<notin> H" using rw_check_iff [OF rep] acc by blast
  show "rw_rep (rw_commit w s) (unat ` insert s H)" using rw_rep_commit [OF rep acc] by simp
qed

section \<open>Streams of sequence numbers\<close>

text \<open>
  \<open>rw_stream\<close> is the order of calls the commit path makes for each packet: \<open>check\<close>, and
  \<open>commit\<close> when it returns nil. \<open>spec_stream\<close> is the reference: it keeps every accepted number
  in a set and refuses zero, a number already in the set, and a number \<open>W\<close> or more behind any
  of them.
\<close>

fun rw_stream :: "replayWindow \<Rightarrow> u32 list \<Rightarrow> u32 list" where
  "rw_stream w [] = []"
| "rw_stream w (s # ss) =
     (if rw_check w s = None then s # rw_stream (rw_commit w s) ss else rw_stream w ss)"

fun spec_stream :: "nat \<Rightarrow> u32 set \<Rightarrow> u32 list \<Rightarrow> u32 list" where
  "spec_stream W H [] = []"
| "spec_stream W H (s # ss) =
     (if s \<noteq> 0 \<and> s \<notin> H \<and> (\<forall>h\<in>H. unat h < unat s + W)
      then s # spec_stream W (insert s H) ss else spec_stream W H ss)"

lemma rw_stream_deliver: "rw_stream w ss = rw.deliver w ss"
  by (induction w ss rule: rw_stream.induct) auto

lemma rw_commit_window [simp]: "rw_window (rw_commit w s) = rw_window w"
  by (simp add: rw_commit_def Let_def)

lemma rw_stream_spec:
  "rw_rep w (unat ` H) \<Longrightarrow> rw_stream w ss = spec_stream (unat (rw_window w)) H ss"
proof (induction w ss arbitrary: H rule: rw_stream.induct)
  case (2 w s ss)
  have "unat s \<in> unat ` H \<longleftrightarrow> s \<in> H" by (auto simp flip: word_unat_eq_iff)
  then have "rw_check w s = None \<longleftrightarrow> s \<noteq> 0 \<and> s \<notin> H \<and> (\<forall>h\<in>H. unat h < unat s + unat (rw_window w))"
    using rw_check_iff [OF "2.prems"] by simp
  then show ?case
    using "2.IH" "2.prems" rw.rep_note [OF "2.prems"] by auto
qed simp

text \<open>
  C1. The circular bitmap of \<open>replayWindow\<close> accepts exactly the sequence numbers the reference
  filter over the full history accepts: nonzero, never accepted before, and less than a window
  behind everything accepted so far; for every window up to half the sequence space and every
  stream, including streams that jump, reorder and repeat.
\<close>

theorem replay_stream_exact:
  assumes "0 < window" "window \<le> 2 ^ 31"
  shows "rw_stream (newReplayWindow window) ss = spec_stream (unat window) {} ss"
  using rw_stream_spec [of "newReplayWindow window" "{}"] rw_rep_new [OF assms]
  by (simp add: newReplayWindow_def)

theorem replay_stream_exact_witness:
  "rw_stream (newReplayWindow 4) [3, 1, 3, 9, 5, 6, 9, 0, 7] = [3, 1, 9, 6, 7]"
  using replay_stream_exact [of 4 "[3, 1, 3, 9, 5, 6, 9, 0, 7]"] by simp

text \<open>
  No sequence number is accepted twice, whatever order packets arrive in and however far a
  peer jumps: the numbers that pass \<open>check\<close> and are committed are pairwise distinct.
\<close>

theorem replay_no_duplicates:
  assumes "0 < window" "window \<le> 2 ^ 31"
  shows "distinct (rw_stream (newReplayWindow window) ss)"
  using rw.deliver_distinct [of "newReplayWindow window" "{}"] rw_rep_new [OF assms]
  by (simp add: rw_stream_deliver)

theorem replay_no_duplicates_witness:
  "distinct (rw_stream (newReplayWindow 64) [7, 7, 70, 7, 71, 70, 6, 72])"
  by (rule replay_no_duplicates) simp_all

text \<open>
  \<open>clearRange\<close>, which clears whole mask words and two partial ones, clears exactly the \<open>n\<close>
  circular positions from \<open>start\<close> and no other bit.
\<close>

theorem clearRange_exact:
  assumes "rw_ok w" "unat n < unat (rw_window w)" "k < unat (rw_window w)"
  shows "mbit (rw_mask (clearRange w start n)) k \<longleftrightarrow>
    mbit (rw_mask w) k \<and> \<not> (\<exists>i<unat n. k = (unat start + i) mod unat (rw_window w))"
  using mbit_clearRange [OF assms] .

theorem clearRange_exact_witness:
  "let w = \<lparr>rw_window = 130, rw_last = 9, rw_mask = [NOT 0, NOT 0, NOT 0]\<rparr>
   in rw_ok w \<and> mbit (rw_mask (clearRange w 120 90)) 119 \<and> \<not> mbit (rw_mask (clearRange w 120 90)) 5"
proof -
  let ?w = "\<lparr>rw_window = 130, rw_last = 9, rw_mask = [NOT 0, NOT 0, NOT 0]\<rparr>"
  have ok: "rw_ok ?w" by (simp add: rw_ok_def)
  have "mbit (rw_mask ?w) 119" by (simp add: mbit_def bit_simps)
  moreover have "\<not> (\<exists>i<unat (90::u32). (119::nat) = (unat (120::u32) + i) mod unat (130::u32))"
    using mod_run [of 90 130 119 120] by simp
  moreover have "\<exists>i<unat (90::u32). (5::nat) = (unat (120::u32) + i) mod unat (130::u32)"
    using mod_run [of 90 130 5 120] by simp
  ultimately show ?thesis
    using clearRange_exact [OF ok, of 90 119 120] clearRange_exact [OF ok, of 90 5 120] ok by simp
qed

end
