(* ===== verification/Esp_SA.thy ===== *)
theory Esp_SA
  imports Esp_Replay
begin

unbundle bit_operations_syntax

text \<open>
  The ESP security associations of \<open>esp/sa.go\<close>, \<open>esp/esp.go\<close> and \<open>esp/inbound.go\<close>: sequence
  number reservation and sealing on the outbound side; header check, authentication, replay
  commit and trailer parsing on the inbound side.

  The AEAD constructions (AES-GCM of \<open>crypto/cipher\<close>, ChaCha20-Poly1305 of \<open>x/crypto\<close>) are
  parameters: a record of the three operations the code calls. \<open>aead_ok\<close> states what their
  documentation promises and the code relies on. Pointers to an \<open>InboundSA\<close> are addresses into a
  store; mutexes have no counterpart, each critical section being one step.
\<close>

section \<open>Model\<close>

record aead =
  a_NonceSize :: nat
  a_Seal :: "bytes \<Rightarrow> bytes \<Rightarrow> bytes \<Rightarrow> bytes"
  a_Open :: "bytes \<Rightarrow> bytes \<Rightarrow> bytes \<Rightarrow> bytes option"

record ChildSA =
  EncrID :: u16
  EncrKeyBits :: u16
  LocalSPI :: u32
  RemoteSPI :: u32
  InboundKey :: bytes
  OutboundKey :: bytes

record aeadParams =
  keyLen :: nat
  saltLen :: nat
  IVLen :: nat
  ICVLen :: nat

datatype esp_error =
    BadKeyBits | BadKeyLength | CipherError | UnsupportedTransform
  | EmptyReservation | SequenceExhausted | RangeExhausted | InvalidBatch | BatchCountMismatch
  | PacketTooShort | SPIMismatch | ReplayError replay_error | AuthenticationFailed
  | PlaintextTooShort | PlaintextMisaligned | InvalidPadding | InvalidPaddingContents
  | Unauthenticated | Uncommitted | AlreadyCommitted

definition ENCRAESGCM16 :: u16 where "ENCRAESGCM16 = 20"
definition ENCRChaCha20Poly1305 :: u16 where "ENCRChaCha20Poly1305 = 28"

definition headerLen :: nat where "headerLen = 8"

definition ProactiveRekeySequence :: u64 where
  "ProactiveRekeySequence = 0xffffffff - push_bit 28 1"

definition MaxReplayWindow :: u32 where "MaxReplayWindow = push_bit 20 1"

text \<open>
  \<open>gcm\<close> stands for \<open>aes.NewCipher\<close> followed by \<open>cipher.NewGCM\<close>, \<open>chacha\<close> for
  \<open>chacha20poly1305.New\<close>; both may return an error.
\<close>

definition newESPAEAD ::
  "(bytes \<Rightarrow> aead option) \<Rightarrow> (bytes \<Rightarrow> aead option) \<Rightarrow> u16 \<Rightarrow> u16 \<Rightarrow> bytes
     \<Rightarrow> (esp_error, aead \<times> aeadParams) result" where
  "newESPAEAD gcm chacha encr bits key =
     (let p = \<lparr>keyLen = 0, saltLen = 4, IVLen = 8, ICVLen = 16\<rparr>
      in if encr = ENCRAESGCM16 then
           (let p = p\<lparr>keyLen := unat bits div 8\<rparr>
            in if keyLen p \<noteq> 16 \<and> keyLen p \<noteq> 24 \<and> keyLen p \<noteq> 32 then Inl BadKeyBits
               else if length key \<noteq> keyLen p + saltLen p then Inl BadKeyLength
               else case gcm (take (keyLen p) key) of
                      None \<Rightarrow> Inl CipherError | Some a \<Rightarrow> Inr (a, p))
         else if encr = ENCRChaCha20Poly1305 then
           (let p = p\<lparr>keyLen := 32\<rparr>
            in if bits \<noteq> 0 \<and> bits \<noteq> 256 then Inl BadKeyBits
               else if length key \<noteq> keyLen p + saltLen p then Inl BadKeyLength
               else case chacha (take (keyLen p) key) of
                      None \<Rightarrow> Inl CipherError | Some a \<Rightarrow> Inr (a, p))
         else Inl UnsupportedTransform)"

subsection \<open>Outbound\<close>

text \<open>\<open>o_onRekey\<close> says whether a callback is installed; \<open>o_asks\<close> counts its invocations.\<close>

record OutboundSA =
  o_aead :: aead
  o_params :: aeadParams
  o_salt :: bytes
  o_spi :: u32
  o_seq :: u64
  o_onRekey :: bool
  o_asks :: nat

definition NewOutbound ::
  "(bytes \<Rightarrow> aead option) \<Rightarrow> (bytes \<Rightarrow> aead option) \<Rightarrow> ChildSA \<Rightarrow> (esp_error, OutboundSA) result" where
  "NewOutbound gcm chacha child =
     (case newESPAEAD gcm chacha (EncrID child) (EncrKeyBits child) (OutboundKey child) of
        Inl e \<Rightarrow> Inl e
      | Inr (a, params) \<Rightarrow>
          Inr \<lparr>o_aead = a, o_params = params, o_salt = drop (keyLen params) (OutboundKey child),
               o_spi = RemoteSPI child, o_seq = 0, o_onRekey = False, o_asks = 0\<rparr>)"

definition SetRekeyCallback :: "OutboundSA \<Rightarrow> bool \<Rightarrow> OutboundSA" where
  "SetRekeyCallback sa installed = sa\<lparr>o_onRekey := installed\<rparr>"

definition reserveSequenceNumbers ::
  "OutboundSA \<Rightarrow> int \<Rightarrow> (esp_error, u64 \<times> u64) result \<times> OutboundSA" where
  "reserveSequenceNumbers sa count =
     (if count \<le> 0 then (Inl EmptyReservation, sa)
      else let n = word_of_int count;
               sa1 = sa\<lparr>o_seq := o_seq sa + n\<rparr>;
               end = o_seq sa1;
               first = end - n + 1;
               sa2 = (if end \<ge> ProactiveRekeySequence \<and> o_onRekey sa1
                      then sa1\<lparr>o_asks := o_asks sa1 + 1\<rparr> else sa1)
        in if end > 0xffffffff then (Inl SequenceExhausted, sa2)
           else (Inr (first, end), sa2))"

definition sealedLen :: "OutboundSA \<Rightarrow> nat \<Rightarrow> nat" where
  "sealedLen sa innerLen =
     (let padLen = (4 - (innerLen + 2) mod 4) mod 4
      in headerLen + IVLen (o_params sa) + innerLen + padLen + 2 + ICVLen (o_params sa))"

text \<open>
  The bytes \<open>appendSealed\<close> writes: \<open>hdr\<close> is \<open>out[:headerLen]\<close>, \<open>iv\<close> is
  \<open>out[headerLen:framingLen]\<close>, \<open>plain\<close> the padded plaintext; \<open>aead.Seal\<close> replaces the plaintext
  by ciphertext and tag in place.
\<close>

definition espPlain :: "bytes \<Rightarrow> byte \<Rightarrow> bytes" where
  "espPlain inner nextHeader =
     (let padLen = (4 - (length inner + 2) mod 4) mod 4
      in inner @ map of_nat [1..<padLen + 1] @ [of_nat padLen, nextHeader])"

definition appendSealed ::
  "OutboundSA \<Rightarrow> bytes \<Rightarrow> bytes \<Rightarrow> bytes \<Rightarrow> byte \<Rightarrow> u64 \<Rightarrow> bytes" where
  "appendSealed sa dst nonce inner nextHeader seq =
     (let hdr = put32 (o_spi sa) @ put32 (ucast seq);
          iv = put64 seq;
          plain = espPlain inner nextHeader;
          nonce1 = go_copy nonce (o_salt sa);
          nonce2 = take (length (o_salt sa)) nonce1 @ go_copy (drop (length (o_salt sa)) nonce1) iv
      in dst @ hdr @ iv @ a_Seal (o_aead sa) nonce2 plain hdr)"

definition Seal :: "OutboundSA \<Rightarrow> bytes \<Rightarrow> byte \<Rightarrow> (esp_error, bytes) result \<times> OutboundSA" where
  "Seal sa inner nextHeader =
     (case reserveSequenceNumbers sa 1 of
        (Inl e, sa1) \<Rightarrow> (Inl e, sa1)
      | (Inr (seq, _), sa1) \<Rightarrow>
          let nonceLen = a_NonceSize (o_aead sa1);
              storage = appendSealed sa1 (replicate nonceLen 0) (replicate nonceLen 0) inner nextHeader seq
          in (Inr (drop nonceLen storage), sa1))"

record SequenceRange =
  sr_sa :: "OutboundSA option"
  sr_next :: u64
  sr_end :: u64

definition ReserveSequenceRange ::
  "OutboundSA \<Rightarrow> int \<Rightarrow> (esp_error, SequenceRange) result \<times> OutboundSA" where
  "ReserveSequenceRange sa count =
     (case reserveSequenceNumbers sa count of
        (Inl e, sa1) \<Rightarrow> (Inl e, sa1)
      | (Inr (first, end), sa1) \<Rightarrow> (Inr \<lparr>sr_sa = Some sa1, sr_next = first, sr_end = end\<rparr>, sa1))"

text \<open>\<open>SequenceRange.Seal\<close>; a nil receiver is \<open>None\<close>.\<close>

definition SequenceRange_Seal ::
  "SequenceRange option \<Rightarrow> bytes \<Rightarrow> byte \<Rightarrow> (esp_error, bytes) result \<times> SequenceRange option" where
  "SequenceRange_Seal ro inner nextHeader =
     (case ro of
        None \<Rightarrow> (Inl RangeExhausted, ro)
      | Some r \<Rightarrow>
          (case sr_sa r of
             None \<Rightarrow> (Inl RangeExhausted, ro)
           | Some sa \<Rightarrow>
               if sr_next r > sr_end r then (Inl RangeExhausted, ro)
               else let seq = sr_next r;
                        nonceLen = a_NonceSize (o_aead sa);
                        storage = appendSealed sa (replicate nonceLen 0) (replicate nonceLen 0)
                                    inner nextHeader seq
                    in (Inr (drop nonceLen storage), Some (r\<lparr>sr_next := sr_next r + 1\<rparr>))))"

text \<open>The loop of \<open>SealBatchInto\<close>; each packet is the part of the storage appended for it.\<close>

fun sealLoop :: "OutboundSA \<Rightarrow> bytes \<Rightarrow> u64 \<Rightarrow> (bytes \<times> byte) list \<Rightarrow> bytes list \<times> u64" where
  "sealLoop sa nonce next [] = ([], next)"
| "sealLoop sa nonce next ((packet, nextHeader) # rest) =
     (let (sealed, next') = sealLoop sa nonce (next + 1) rest
      in (appendSealed sa [] nonce packet nextHeader next # sealed, next'))"

definition SealBatch ::
  "SequenceRange option \<Rightarrow> bytes list \<Rightarrow> byte list
     \<Rightarrow> (esp_error, bytes list) result \<times> SequenceRange option" where
  "SealBatch ro inners nextHeaders =
     (case ro of
        None \<Rightarrow> (Inl InvalidBatch, ro)
      | Some r \<Rightarrow>
          (case sr_sa r of
             None \<Rightarrow> (Inl InvalidBatch, ro)
           | Some sa \<Rightarrow>
               if length inners \<noteq> length nextHeaders then (Inl InvalidBatch, ro)
               else if sr_next r > sr_end r \<or> of_nat (length inners) \<noteq> sr_end r - sr_next r + 1
               then (Inl BatchCountMismatch, ro)
               else let nonce = replicate (a_NonceSize (o_aead sa)) 0;
                        (sealed, next) = sealLoop sa nonce (sr_next r) (zip inners nextHeaders)
                    in (Inr sealed, Some (r\<lparr>sr_next := next\<rparr>))))"

subsection \<open>Inbound\<close>

record InboundSA =
  i_aead :: aead
  i_params :: aeadParams
  i_salt :: bytes
  i_spi :: u32
  i_window :: replayWindow

definition WithReplayWindow :: "u32 \<Rightarrow> InboundSA \<Rightarrow> InboundSA" where
  "WithReplayWindow window sa = sa\<lparr>i_window := newReplayWindow (min window MaxReplayWindow)\<rparr>"

definition NewInbound ::
  "(bytes \<Rightarrow> aead option) \<Rightarrow> (bytes \<Rightarrow> aead option) \<Rightarrow> ChildSA \<Rightarrow> (InboundSA \<Rightarrow> InboundSA) list
     \<Rightarrow> (esp_error, InboundSA) result" where
  "NewInbound gcm chacha child options =
     (case newESPAEAD gcm chacha (EncrID child) (EncrKeyBits child) (InboundKey child) of
        Inl e \<Rightarrow> Inl e
      | Inr (a, params) \<Rightarrow>
          Inr (foldl (\<lambda>sa option. option sa)
            \<lparr>i_aead = a, i_params = params, i_salt = drop (keyLen params) (InboundKey child),
             i_spi = LocalSPI child, i_window = newReplayWindow DefaultReplayWindow\<rparr> options))"

record AuthenticatedPacket =
  ap_sa :: "nat option"
  ap_seq :: u32
  ap_committed :: bool
  ap_nextHeader :: byte
  ap_plain :: bytes
  ap_Err :: "esp_error option"

definition checkHeader :: "InboundSA \<Rightarrow> bytes \<Rightarrow> (esp_error, u32) result" where
  "checkHeader sa pkt =
     (if length pkt < headerLen + IVLen (i_params sa) + ICVLen (i_params sa) then Inl PacketTooShort
      else if rd32 (take 4 pkt) \<noteq> i_spi sa then Inl SPIMismatch
      else Inr (rd32 (slice 4 8 pkt)))"

definition decrypt :: "InboundSA \<Rightarrow> bytes \<Rightarrow> bytes \<Rightarrow> (esp_error, bytes) result" where
  "decrypt sa pkt nonce =
     (let iv = slice headerLen (headerLen + IVLen (i_params sa)) pkt;
          ciphertext = drop (headerLen + IVLen (i_params sa)) pkt;
          nonce1 = go_copy nonce (i_salt sa);
          nonce2 = take (length (i_salt sa)) nonce1 @ go_copy (drop (length (i_salt sa)) nonce1) iv
      in case a_Open (i_aead sa) nonce2 ciphertext (take headerLen pkt) of
           None \<Rightarrow> Inl AuthenticationFailed
         | Some plain \<Rightarrow> Inr plain)"

text \<open>\<open>authenticate\<close> of the SA at address \<open>a\<close>; it reads the window and writes nothing.\<close>

definition authenticate ::
  "(nat \<Rightarrow> InboundSA) \<Rightarrow> nat \<Rightarrow> bytes \<Rightarrow> (esp_error, AuthenticatedPacket) result" where
  "authenticate h a pkt =
     (case checkHeader (h a) pkt of
        Inl e \<Rightarrow> Inl e
      | Inr seq \<Rightarrow>
          (case rw_check (i_window (h a)) seq of
             Some e \<Rightarrow> Inl (ReplayError e)
           | None \<Rightarrow>
               (case decrypt (h a) pkt (replicate 12 0) of
                  Inl e \<Rightarrow> Inl e
                | Inr plain \<Rightarrow>
                    Inr \<lparr>ap_sa = Some a, ap_seq = seq, ap_committed = False, ap_nextHeader = 0,
                         ap_plain = plain, ap_Err = None\<rparr>)))"

text \<open>
  The two loops of \<open>AuthenticateBatchInPlace\<close>. The first records the header and replay verdict of
  every packet under the lock, the second decrypts those with no error.
\<close>

definition batchHeader :: "(nat \<Rightarrow> InboundSA) \<Rightarrow> nat \<Rightarrow> bytes \<Rightarrow> AuthenticatedPacket" where
  "batchHeader h a pkt =
     (let (seq, err) =
        (case checkHeader (h a) pkt of
           Inl e \<Rightarrow> (0, Some e)
         | Inr seq \<Rightarrow> (seq, map_option ReplayError (rw_check (i_window (h a)) seq)))
      in \<lparr>ap_sa = Some a, ap_seq = seq, ap_committed = False, ap_nextHeader = 0,
          ap_plain = [], ap_Err = err\<rparr>)"

definition batchDecrypt ::
  "(nat \<Rightarrow> InboundSA) \<Rightarrow> nat \<Rightarrow> bytes \<Rightarrow> AuthenticatedPacket \<Rightarrow> AuthenticatedPacket" where
  "batchDecrypt h a pkt p =
     (if ap_Err p = None
      then case decrypt (h a) pkt (replicate 12 0) of
             Inl e \<Rightarrow> p\<lparr>ap_plain := [], ap_Err := Some e\<rparr>
           | Inr plain \<Rightarrow> p\<lparr>ap_plain := plain\<rparr>
      else p)"

definition AuthenticateBatchInPlace ::
  "(nat \<Rightarrow> InboundSA) \<Rightarrow> nat \<Rightarrow> bytes list \<Rightarrow> AuthenticatedPacket list \<Rightarrow> AuthenticatedPacket list" where
  "AuthenticateBatchInPlace h a packets results =
     results @ map2 (batchDecrypt h a) packets (map (batchHeader h a) packets)"

definition parseTrailer :: "bytes \<Rightarrow> (esp_error, bytes \<times> byte) result" where
  "parseTrailer plain =
     (if length plain < 2 then Inl PlaintextTooShort
      else if length plain mod 4 \<noteq> 0 then Inl PlaintextMisaligned
      else let padLen = unat (plain ! (length plain - 2));
               nextHeader = plain ! (length plain - 1)
        in if padLen + 2 > length plain then Inl InvalidPadding
           else let pad = slice (length plain - 2 - padLen) (length plain - 2) plain
             in if (\<exists>i<length pad. pad ! i \<noteq> of_nat (i + 1)) then Inl InvalidPaddingContents
                else Inr (take (length plain - 2 - padLen) plain, nextHeader))"

definition commitLocked ::
  "(nat \<Rightarrow> InboundSA) \<Rightarrow> AuthenticatedPacket \<Rightarrow> (nat \<Rightarrow> InboundSA) \<times> AuthenticatedPacket" where
  "commitLocked h p =
     (if ap_committed p then (h, p\<lparr>ap_Err := Some AlreadyCommitted\<rparr>)
      else let p = p\<lparr>ap_committed := True\<rparr>
        in if ap_Err p \<noteq> None then (h, p)
           else case ap_sa p of
             None \<Rightarrow> (h, p\<lparr>ap_Err := Some Unauthenticated\<rparr>)
           | Some a \<Rightarrow>
               (case rw_check (i_window (h a)) (ap_seq p) of
                  Some e \<Rightarrow> (h, p\<lparr>ap_Err := Some (ReplayError e)\<rparr>)
                | None \<Rightarrow>
                    let h' = h(a := (h a)\<lparr>i_window := rw_commit (i_window (h a)) (ap_seq p)\<rparr>)
                    in case parseTrailer (ap_plain p) of
                         Inl e \<Rightarrow> (h', p\<lparr>ap_plain := [], ap_nextHeader := 0, ap_Err := Some e\<rparr>)
                       | Inr (plain, nh) \<Rightarrow>
                           (h', p\<lparr>ap_plain := plain, ap_nextHeader := nh, ap_Err := None\<rparr>)))"

text \<open>The inner loop of \<open>CommitBatch\<close>, and the outer one over runs of packets of one SA.\<close>

fun commitRun ::
  "(nat \<Rightarrow> InboundSA) \<Rightarrow> AuthenticatedPacket list \<Rightarrow> (nat \<Rightarrow> InboundSA) \<times> AuthenticatedPacket list" where
  "commitRun h [] = (h, [])"
| "commitRun h (p # ps) =
     (let (h1, p1) = commitLocked h p; (h2, ps2) = commitRun h1 ps in (h2, p1 # ps2))"

function CommitBatch ::
  "(nat \<Rightarrow> InboundSA) \<Rightarrow> AuthenticatedPacket list \<Rightarrow> (nat \<Rightarrow> InboundSA) \<times> AuthenticatedPacket list" where
  "CommitBatch h [] = (h, [])"
| "CommitBatch h (p # ps) =
     (let end = 1 + length (takeWhile (\<lambda>q. ap_sa q = ap_sa p) ps);
          (h1, done) = commitRun h (take end (p # ps));
          (h2, rest) = CommitBatch h1 (drop end (p # ps))
      in (h2, done @ rest))"
  by pat_completeness auto
termination
  by (relation "measure (\<lambda>(h, ps). length ps)") auto

definition Plaintext :: "AuthenticatedPacket option \<Rightarrow> (esp_error, bytes \<times> byte) result" where
  "Plaintext po =
     (case po of
        None \<Rightarrow> Inl Uncommitted
      | Some p \<Rightarrow>
          if \<not> ap_committed p then Inl Uncommitted
          else case ap_Err p of
                 Some e \<Rightarrow> Inl e
               | None \<Rightarrow> Inr (ap_plain p, ap_nextHeader p))"

definition Commit ::
  "(nat \<Rightarrow> InboundSA) \<Rightarrow> AuthenticatedPacket option
     \<Rightarrow> (esp_error, bytes \<times> byte) result \<times> (nat \<Rightarrow> InboundSA)" where
  "Commit h po =
     (case po of
        None \<Rightarrow> (Inl Unauthenticated, h)
      | Some p \<Rightarrow> let (h', p') = commitLocked h p in (Plaintext (Some p'), h'))"

definition InboundSA_Open ::
  "(nat \<Rightarrow> InboundSA) \<Rightarrow> nat \<Rightarrow> bytes \<Rightarrow> (esp_error, bytes \<times> byte) result \<times> (nat \<Rightarrow> InboundSA)" where
  "InboundSA_Open h a pkt =
     (case authenticate h a pkt of
        Inl e \<Rightarrow> (Inl e, h)
      | Inr p \<Rightarrow> Commit h (Some p))"

section \<open>Trailers\<close>

definition padLen4 :: "nat \<Rightarrow> nat" where
  "padLen4 n = (4 - (n + 2) mod 4) mod 4"

lemma padLen4_align: "(n + padLen4 n + 2) mod 4 = 0"
proof -
  have m: "(m + (4 - m mod 4) mod 4) mod 4 = 0" for m :: nat
  proof -
    have "(m + (4 - m mod 4) mod 4) mod 4 = (m mod 4 + (4 - m mod 4)) mod 4"
      by (simp only: mod_add_left_eq mod_add_right_eq)
    also have "m mod 4 + (4 - m mod 4) = 4" by simp
    finally show ?thesis by simp
  qed
  have "n + padLen4 n + 2 = (n + 2) + (4 - (n + 2) mod 4) mod 4"
    by (simp add: padLen4_def)
  then show ?thesis using m [of "n + 2"] by (simp only:)
qed

lemma padLen4_less: "padLen4 n < 4"
  by (simp add: padLen4_def)

lemma of_nat_pad: "i < 4 \<Longrightarrow> unat (of_nat i :: byte) = i"
  by (simp add: unat_of_nat take_bit_nat_eq_self)

lemma pad_contents:
  "(\<exists>i<length pad. pad ! i \<noteq> of_nat (i + 1)) \<longleftrightarrow> pad \<noteq> map of_nat [1..<length pad + 1]"
proof -
  have l: "length (map of_nat [1..<length pad + 1]) = length pad" by (simp del: upt_Suc)
  have "map of_nat [1..<length pad + 1] ! i = of_nat (i + 1)" if "i < length pad" for i
    using that by (simp del: upt_Suc)
  then have "pad = map of_nat [1..<length pad + 1] \<longleftrightarrow> (\<forall>i<length pad. pad ! i = of_nat (i + 1))"
    by (metis l nth_equalityI)
  then show ?thesis by blast
qed

lemma parseTrailer_snoc:
  "parseTrailer (xs @ [a, b]) =
     (if (length xs + 2) mod 4 \<noteq> 0 then Inl PlaintextMisaligned
      else if length xs < unat a then Inl InvalidPadding
      else if drop (length xs - unat a) xs \<noteq> map of_nat [1..<unat a + 1] then Inl InvalidPaddingContents
      else Inr (take (length xs - unat a) xs, b))"
proof -
  have sl: "slice (length xs - unat a) (length xs) (xs @ [a, b]) = drop (length xs - unat a) xs"
    by (simp add: slice_def)
  show ?thesis
  proof (cases "unat a \<le> length xs")
    case True
    then have len: "length (drop (length xs - unat a) xs) = unat a" by simp
    have n2: "length xs + 2 - 2 = length xs" "(xs @ [a, b]) ! length xs = a"
      "(xs @ [a, b]) ! (length xs + 1) = b" "length (xs @ [a, b]) = length xs + 2"
      "length xs + 2 - 1 = length xs + 1"
      by (simp_all add: nth_append)
    have tk: "take (length xs - unat a) (xs @ [a, b]) = take (length xs - unat a) xs" by simp
    have le: "\<not> length xs + 2 < 2" "\<not> length xs + 2 < unat a + 2" "\<not> length xs < unat a" using True by simp_all
    show ?thesis
      unfolding parseTrailer_def Let_def n2 sl pad_contents len tk by (simp only: le if_False)
  next
    case False
    then have "unat a + 2 > length (xs @ [a, b])" "length xs < unat a" by simp_all
    moreover have "(xs @ [a, b]) ! (length (xs @ [a, b]) - 2) = a" "\<not> length (xs @ [a, b]) < 2"
      "length (xs @ [a, b]) = length xs + 2" by simp_all
    ultimately show ?thesis by (simp only: parseTrailer_def Let_def if_True if_False)
  qed
qed

lemma two_at_end:
  assumes "2 \<le> length xs"
  shows "\<exists>ys a b. xs = ys @ [a, b]"
proof (cases xs rule: rev_cases)
  case Nil
  then show ?thesis using assms by simp
next
  case (snoc zs b)
  then have "zs \<noteq> []" using assms by auto
  then have "zs = butlast zs @ [last zs]" by simp
  then show ?thesis using snoc by (metis append.assoc append_Cons append_Nil)
qed

lemma drop_take_end:
  assumes "length m = n"
  shows "(n \<le> length xs \<and> drop (length xs - n) xs = m \<and> take (length xs - n) xs = q) \<longleftrightarrow> xs = q @ m"
proof
  assume "n \<le> length xs \<and> drop (length xs - n) xs = m \<and> take (length xs - n) xs = q"
  then show "xs = q @ m" using append_take_drop_id [of "length xs - n" xs] by metis
qed (use assms in auto)

lemma split_at_end:
  "(C \<and> unat (a::byte) \<le> length (xs::bytes) \<and> drop (length xs - unat a) xs = map of_nat [1..<unat a + 1] \<and>
      take (length xs - unat a) xs = q \<and> D) \<longleftrightarrow> C \<and> xs = q @ map of_nat [1..<unat a + 1] \<and> D"
proof -
  have "length (map of_nat [1..<unat a + 1] :: bytes) = unat a" by simp
  then have "(unat a \<le> length xs \<and> drop (length xs - unat a) xs = map of_nat [1..<unat a + 1] \<and>
      take (length xs - unat a) xs = q) \<longleftrightarrow> xs = q @ (map of_nat [1..<unat a + 1] :: bytes)"
    by (rule drop_take_end)
  then show ?thesis by blast
qed

lemma append_eq_append_conv2_2: "xs @ [a, b] = ys @ [c, d] \<longleftrightarrow> xs = ys \<and> a = c \<and> b = d"
  using append_eq_append_conv [of xs ys "[a, b]" "[c, d]"] by (auto)

text \<open>A trailer is accepted exactly when the plaintext is payload, canonical padding, two octets.\<close>

lemma parseTrailer_iff:
  "parseTrailer plain = Inr (q, nh) \<longleftrightarrow>
     (\<exists>pad. plain = q @ map of_nat [1..<unat pad + 1] @ [pad, nh] \<and> length plain mod 4 = 0)"
proof (cases "2 \<le> length plain")
  case True
  then obtain xs a b where p: "plain = xs @ [a, b]" using two_at_end by blast
  have eq: "xs @ [a, b] = q @ map of_nat [1..<unat pad + 1] @ [pad, nh] \<longleftrightarrow>
      xs = q @ map of_nat [1..<unat pad + 1] \<and> a = pad \<and> b = nh" for pad :: byte
    by (simp only: append_assoc [symmetric] append_eq_append_conv2_2)
  have "parseTrailer plain = Inr (q, nh) \<longleftrightarrow> (length xs + 2) mod 4 = 0 \<and> unat a \<le> length xs \<and>
      drop (length xs - unat a) xs = map of_nat [1..<unat a + 1] \<and> take (length xs - unat a) xs = q \<and> b = nh"
    unfolding p parseTrailer_snoc by (simp del: upt_Suc add: not_less)
  also have "\<dots> \<longleftrightarrow> (length xs + 2) mod 4 = 0 \<and> xs = q @ map of_nat [1..<unat a + 1] \<and> b = nh"
    by (rule split_at_end)
  also have "\<dots> \<longleftrightarrow> (\<exists>pad. plain = q @ map of_nat [1..<unat pad + 1] @ [pad, nh] \<and> length plain mod 4 = 0)"
    unfolding p by (simp only: eq) (auto simp del: upt_Suc)
  finally show ?thesis .
next
  case False
  then have "plain \<noteq> q @ m @ [a, b]" for m a b by auto
  moreover have "parseTrailer plain = Inl PlaintextTooShort" using False by (simp add: parseTrailer_def)
  ultimately show ?thesis by simp
qed

section \<open>Sealing and opening\<close>

text \<open>
  What \<open>cipher.AEAD\<close> documents of the two suites: a 12-byte nonce, a 16-byte tag, and that \<open>Open\<close>
  inverts \<open>Seal\<close> under the same nonce and additional data.
\<close>

definition aead_ok :: "aead \<Rightarrow> bool" where
  "aead_ok a \<longleftrightarrow> a_NonceSize a = 12 \<and>
     (\<forall>n p d. length n = 12 \<longrightarrow> a_Open a n (a_Seal a n p d) d = Some p \<and>
        length (a_Seal a n p d) = length p + 16)"

definition suite_ok :: "(bytes \<Rightarrow> aead option) \<Rightarrow> bool" where
  "suite_ok new \<longleftrightarrow> (\<forall>key a. new key = Some a \<longrightarrow> aead_ok a)"

lemma aead_okD:
  assumes "aead_ok a"
  shows "a_NonceSize a = 12"
    "length n = 12 \<Longrightarrow> a_Open a n (a_Seal a n p d) d = Some p"
    "length n = 12 \<Longrightarrow> length (a_Seal a n p d) = length p + 16"
  using assms by (simp_all add: aead_ok_def)

definition out_ok :: "OutboundSA \<Rightarrow> bool" where
  "out_ok sa \<longleftrightarrow> aead_ok (o_aead sa) \<and> length (o_salt sa) = 4 \<and>
     IVLen (o_params sa) = 8 \<and> ICVLen (o_params sa) = 16"

definition mirrors :: "OutboundSA \<Rightarrow> InboundSA \<Rightarrow> bool" where
  "mirrors out sa \<longleftrightarrow> i_aead sa = o_aead out \<and> i_salt sa = o_salt out \<and>
     i_params sa = o_params out \<and> i_spi sa = o_spi out"

lemma newESPAEAD_ok:
  assumes "newESPAEAD gcm chacha encr bits key = Inr (a, p)" "suite_ok gcm" "suite_ok chacha"
  shows "aead_ok a \<and> length key = keyLen p + 4 \<and> IVLen p = 8 \<and> ICVLen p = 16"
  using assms
  by (auto simp: newESPAEAD_def Let_def suite_ok_def split: if_splits option.splits)

lemma NewOutbound_ok:
  assumes "NewOutbound gcm chacha child = Inr out" "suite_ok gcm" "suite_ok chacha"
  shows "out_ok out \<and> o_seq out = 0"
  using assms by (auto simp: NewOutbound_def out_ok_def split: sum.splits dest!: newESPAEAD_ok)

lemma nonce_full:
  "length nonce = 12 \<Longrightarrow> length salt = 4 \<Longrightarrow> length iv = 8 \<Longrightarrow>
     take 4 (go_copy nonce salt) @ go_copy (drop 4 (go_copy nonce salt)) iv = salt @ iv"
  by (simp add: go_copy_def)

definition espPacket :: "OutboundSA \<Rightarrow> bytes \<Rightarrow> byte \<Rightarrow> u64 \<Rightarrow> bytes" where
  "espPacket sa inner nh seq =
     put32 (o_spi sa) @ put32 (ucast seq) @ put64 seq @
       a_Seal (o_aead sa) (o_salt sa @ put64 seq) (espPlain inner nh) (put32 (o_spi sa) @ put32 (ucast seq))"

lemma appendSealed_eq:
  "out_ok sa \<Longrightarrow> length nonce = 12 \<Longrightarrow>
     appendSealed sa dst nonce inner nh seq = dst @ espPacket sa inner nh seq"
  by (simp add: appendSealed_def espPacket_def Let_def out_ok_def nonce_full)

lemma espPlain_eq: "espPlain inner nh =
    inner @ map of_nat [1..<padLen4 (length inner) + 1] @ [of_nat (padLen4 (length inner)), nh]"
  by (simp only: espPlain_def padLen4_def Let_def)

lemma length_espPlain [simp]: "length (espPlain inner nh) = length inner + padLen4 (length inner) + 2"
  by (simp add: espPlain_eq del: upt_Suc)

lemma parseTrailer_espPlain: "parseTrailer (espPlain inner nh) = Inr (inner, nh)"
proof -
  have "unat (of_nat (padLen4 (length inner)) :: byte) = padLen4 (length inner)"
    by (rule of_nat_pad [OF padLen4_less])
  then show ?thesis
    unfolding parseTrailer_iff length_espPlain
    using padLen4_align espPlain_eq by metis
qed

lemma length_espPacket:
  "out_ok sa \<Longrightarrow> length (espPacket sa inner nh seq) = sealedLen sa (length inner)"
  by (simp add: espPacket_def out_ok_def aead_okD sealedLen_def headerLen_def padLen4_def Let_def)

lemma out_ok_seq [simp]: "out_ok (sa\<lparr>o_seq := s\<rparr>) = out_ok sa" "out_ok (sa\<lparr>o_asks := n\<rparr>) = out_ok sa"
  by (simp_all add: out_ok_def)

lemma espPacket_seq [simp]: "espPacket (sa\<lparr>o_seq := s\<rparr>) = espPacket sa" "espPacket (sa\<lparr>o_asks := n\<rparr>) = espPacket sa"
  by (auto simp: espPacket_def fun_eq_iff)

lemma checkHeader_packet:
  "out_ok out \<Longrightarrow> mirrors out sa \<Longrightarrow> checkHeader sa (espPacket out inner nh seq) = Inr (ucast seq)"
  by (simp add: checkHeader_def length_espPacket mirrors_def out_ok_def sealedLen_def Let_def headerLen_def)
    (simp add: espPacket_def slice_def)

lemma decrypt_packet:
  assumes "out_ok out" "mirrors out sa"
  shows "decrypt sa (espPacket out inner nh seq) (replicate 12 0) = Inr (espPlain inner nh)"
proof -
  let ?pkt = "espPacket out inner nh seq" and ?hdr = "put32 (o_spi out) @ put32 (ucast seq)"
  let ?ct = "a_Seal (o_aead out) (o_salt out @ put64 seq) (espPlain inner nh) ?hdr"
  have p: "?pkt = ?hdr @ put64 seq @ ?ct" by (simp add: espPacket_def)
  have "slice 8 16 ?pkt = put64 seq" "drop 16 ?pkt = ?ct" "take 8 ?pkt = ?hdr"
    unfolding p slice_def by simp_all
  moreover have "length (o_salt out @ put64 seq) = 12" using assms(1) by (simp add: out_ok_def)
  ultimately show ?thesis
    using assms by (simp add: decrypt_def Let_def mirrors_def out_ok_def headerLen_def nonce_full aead_okD)
qed

text \<open>Opening a packet of the mirrored association: the replay window alone decides.\<close>

lemma open_packet:
  assumes "out_ok out" "mirrors out (h a)"
  shows "InboundSA_Open h a (espPacket out inner nh seq) =
    (case rw_check (i_window (h a)) (ucast seq) of
       Some e \<Rightarrow> (Inl (ReplayError e), h)
     | None \<Rightarrow> (Inr (inner, nh), h(a := (h a)\<lparr>i_window := rw_commit (i_window (h a)) (ucast seq)\<rparr>)))"
  using checkHeader_packet [OF assms] decrypt_packet [OF assms]
  by (auto simp: InboundSA_Open_def authenticate_def Commit_def commitLocked_def Plaintext_def
      parseTrailer_espPlain Let_def split: option.splits)

subsection \<open>A run of packets over a network that loses, repeats and reorders\<close>

fun sealAll :: "OutboundSA \<Rightarrow> (bytes \<times> byte) list \<Rightarrow> (esp_error, bytes) result list \<times> OutboundSA" where
  "sealAll sa [] = ([], sa)"
| "sealAll sa ((inner, nh) # ps) =
     (let (r, sa1) = Seal sa inner nh; (rs, sa2) = sealAll sa1 ps in (r # rs, sa2))"

fun openAll ::
  "(nat \<Rightarrow> InboundSA) \<Rightarrow> nat \<Rightarrow> bytes list \<Rightarrow> (esp_error, bytes \<times> byte) result list \<times> (nat \<Rightarrow> InboundSA)" where
  "openAll h a [] = ([], h)"
| "openAll h a (pkt # pkts) =
     (let (r, h1) = InboundSA_Open h a pkt; (rs, h2) = openAll h1 a pkts in (r # rs, h2))"

fun delivered :: "('e, 'a) result list \<Rightarrow> 'a list" where
  "delivered [] = []"
| "delivered (Inl e # rs) = delivered rs"
| "delivered (Inr x # rs) = x # delivered rs"

lemma Seal_eq:
  assumes ok: "out_ok sa" and s: "unat (o_seq sa) + 1 < 2 ^ 32"
  shows "fst (Seal sa inner nh) = Inr (espPacket sa inner nh (o_seq sa + 1))"
    "out_ok (snd (Seal sa inner nh))" "o_seq (snd (Seal sa inner nh)) = o_seq sa + 1"
    "espPacket (snd (Seal sa inner nh)) = espPacket sa"
proof -
  have "unat (o_seq sa + 1) = unat (o_seq sa) + 1" using s by (simp add: unat_plus_le)
  then have "\<not> o_seq sa + 1 > 0xffffffff" using s by (simp add: word_less_nat_alt)
  then show "fst (Seal sa inner nh) = Inr (espPacket sa inner nh (o_seq sa + 1))"
    "out_ok (snd (Seal sa inner nh))" "o_seq (snd (Seal sa inner nh)) = o_seq sa + 1"
    "espPacket (snd (Seal sa inner nh)) = espPacket sa"
    using ok by (simp_all add: Seal_def reserveSequenceNumbers_def Let_def appendSealed_eq
        aead_okD(1) out_ok_def [THEN iffD1, OF ok])
qed

lemma sealAll_eq:
  assumes "out_ok sa" "unat (o_seq sa) + length ps < 2 ^ 32"
  shows "fst (sealAll sa ps) =
    map (\<lambda>i. Inr (espPacket sa (fst (ps ! i)) (snd (ps ! i)) (o_seq sa + of_nat (Suc i)))) [0..<length ps]"
  using assms
proof (induction ps arbitrary: sa)
  case (Cons q ps)
  obtain inner nh where q: "q = (inner, nh)" by force
  let ?sa = "snd (Seal sa inner nh)"
  have s1: "unat (o_seq sa) + 1 < 2 ^ 32" using Cons.prems(2) by simp
  note e = Seal_eq [OF Cons.prems(1) s1, of inner nh]
  have "unat (o_seq ?sa) + length ps < 2 ^ 32"
    using Cons.prems(2) s1 by (simp add: e(3) unat_plus_le)
  note IH = Cons.IH [OF e(2) this]
  have "fst (sealAll sa (q # ps)) = fst (Seal sa inner nh) # fst (sealAll ?sa ps)"
    by (simp add: q split: prod.split)
  also have "\<dots> = Inr (espPacket sa inner nh (o_seq sa + of_nat (Suc 0))) #
      map (\<lambda>i. Inr (espPacket sa (fst (ps ! i)) (snd (ps ! i)) (o_seq sa + of_nat (Suc (Suc i))))) [0..<length ps]"
    by (simp add: IH e ac_simps)
  finally show ?case
    by (simp only: q list.size add_Suc_right add_0_right upt_conv_Cons map_Suc_upt [symmetric]
        list.map map_map o_def nth_Cons_0 nth_Cons_Suc fst_conv snd_conv zero_less_Suc)
qed simp

lemma ucast_u64_u32 [simp]: "(ucast (ucast (s :: u32) :: u64) :: u32) = s"
  by (rule bit_word_eqI) (simp add: bit_simps)

lemma openAll_eq:
  assumes "out_ok out" "mirrors out (h a)"
  shows "delivered (fst (openAll h a (map (\<lambda>s. espPacket out (fst (f s)) (snd (f s)) (ucast s)) ss))) =
    map f (rw_stream (i_window (h a)) ss)"
  using assms(2)
proof (induction ss arbitrary: h)
  case (Cons s ss)
  show ?case
  proof (cases "rw_check (i_window (h a)) s")
    case None
    let ?h = "h(a := (h a)\<lparr>i_window := rw_commit (i_window (h a)) s\<rparr>)"
    have "mirrors out (?h a)" using Cons.prems by (simp add: mirrors_def)
    from Cons.IH [of ?h, OF this] show ?thesis
      using open_packet [where h = h, OF assms(1) Cons.prems, of "fst (f s)" "snd (f s)" "ucast s"] None
      by (simp add: case_prod_beta fun_upd_def)
  next
    case (Some e)
    then show ?thesis
      using open_packet [where h = h, OF assms(1) Cons.prems, of "fst (f s)" "snd (f s)" "ucast s"] Cons.IH [of h, OF Cons.prems]
      by (simp add: case_prod_beta)
  qed
qed simp

definition paired :: "ChildSA \<Rightarrow> ChildSA \<Rightarrow> bool" where
  "paired co ci \<longleftrightarrow> EncrID ci = EncrID co \<and> EncrKeyBits ci = EncrKeyBits co \<and>
     LocalSPI ci = RemoteSPI co \<and> InboundKey ci = OutboundKey co"

lemma NewInbound_mirrors:
  assumes "NewOutbound gcm chacha co = Inr out" "NewInbound gcm chacha ci [WithReplayWindow window] = Inr sa"
    "paired co ci"
  shows "mirrors out sa \<and> i_window sa = newReplayWindow (min window MaxReplayWindow)"
  using assms by (auto simp: NewOutbound_def NewInbound_def paired_def mirrors_def WithReplayWindow_def
      split: sum.splits)

lemma MaxReplayWindow_eq: "MaxReplayWindow = 2 ^ 20"
  by (simp add: MaxReplayWindow_def push_bit_eq_mult)

text \<open>
  C2. Two ends with mirrored Child SA parameters, any window option above zero: the sender seals a
  run of packets, the network hands the receiver any selection of them in any order with any
  repetition. The receiver delivers each inner packet unchanged, with its next header, exactly for
  the arrivals the reference replay filter accepts.
\<close>

theorem esp_delivery_exact:
  assumes suites: "suite_ok gcm" "suite_ok chacha"
    and out: "NewOutbound gcm chacha co = Inr out"
    and inb: "NewInbound gcm chacha ci [WithReplayWindow window] = Inr (h a)"
    and pair: "paired co ci" and w: "0 < window" and len: "length ps < 2 ^ 32"
    and sel: "\<forall>i\<in>set ixs. i < length ps"
  shows "\<exists>pkts. fst (sealAll out ps) = map Inr pkts \<and>
    delivered (fst (openAll h a (map (\<lambda>i. pkts ! i) ixs))) =
      map (\<lambda>s. ps ! (unat s - 1))
        (spec_stream (unat (min window MaxReplayWindow)) {} (map (\<lambda>i. of_nat (Suc i)) ixs))"
proof -
  let ?f = "\<lambda>s::u32. ps ! (unat s - 1)"
  let ?pkt = "\<lambda>s. espPacket out (fst (?f s)) (snd (?f s)) (ucast s)"
  let ?pkts = "map (\<lambda>i. ?pkt (of_nat (Suc i))) [0..<length ps]"
  have ok: "out_ok out" "o_seq out = 0" using NewOutbound_ok [OF out suites] by simp_all
  have mir: "mirrors out (h a)" "i_window (h a) = newReplayWindow (min window MaxReplayWindow)"
    using NewInbound_mirrors [OF out inb pair] by simp_all
  have n: "unat (of_nat (Suc i) :: u32) = Suc i" "(ucast (of_nat (Suc i) :: u32) :: u64) = of_nat (Suc i)"
    if "i < length ps" for i
    using that len by (simp_all add: unat_of_nat take_bit_nat_eq_self word_unat_eq_iff unsigned_ucast_eq del: of_nat_Suc)
  have s1: "fst (sealAll out ps) = map Inr ?pkts"
    using sealAll_eq [OF ok(1)] len by (simp add: ok(2) n del: of_nat_Suc)
  have s2: "map (\<lambda>i. ?pkts ! i) ixs = map ?pkt (map (\<lambda>i. of_nat (Suc i)) ixs)"
    using sel by (simp del: of_nat_Suc)
  have s3: "rw_stream (newReplayWindow (min window MaxReplayWindow)) ss =
      spec_stream (unat (min window MaxReplayWindow)) {} ss" for ss
  proof -
    have "0 < min window MaxReplayWindow" "min window MaxReplayWindow \<le> 2 ^ 31"
      using w by (simp_all add: MaxReplayWindow_eq min.coboundedI2)
    from rw_rep_new [OF this] show ?thesis
      using rw_stream_spec [of _ "{}"] by (simp add: newReplayWindow_def)
  qed
  note d = openAll_eq [where h = h and a = a, OF ok(1) mir(1), of ?f "map (\<lambda>i. of_nat (Suc i)) ixs",
      unfolded mir(2) s3, folded s2]
  show ?thesis by (rule exI [of _ ?pkts]) (rule conjI [OF s1 d])
qed

text \<open>A concrete AEAD with a constant tag, and a pair of associations on it.\<close>

definition tagAEAD :: aead where
  "tagAEAD = \<lparr>a_NonceSize = 12, a_Seal = (\<lambda>n p d. p @ replicate 16 0),
     a_Open = (\<lambda>n c d. if 16 \<le> length c \<and> drop (length c - 16) c = replicate 16 0
                        then Some (take (length c - 16) c) else None)\<rparr>"

definition childA :: ChildSA where
  "childA = \<lparr>EncrID = 28, EncrKeyBits = 256, LocalSPI = 5, RemoteSPI = 6,
     InboundKey = replicate 36 1, OutboundKey = replicate 36 2\<rparr>"

definition childB :: ChildSA where
  "childB = \<lparr>EncrID = 28, EncrKeyBits = 256, LocalSPI = 6, RemoteSPI = 5,
     InboundKey = replicate 36 2, OutboundKey = replicate 36 1\<rparr>"

definition outA :: OutboundSA where
  "outA = projr (NewOutbound (\<lambda>_. None) (\<lambda>_. Some tagAEAD) childA)"

definition inB :: InboundSA where
  "inB = projr (NewInbound (\<lambda>_. None) (\<lambda>_. Some tagAEAD) childB [WithReplayWindow 64])"

lemma tag_suites: "suite_ok (\<lambda>_. None)" "suite_ok (\<lambda>_. Some tagAEAD)"
  by (simp_all add: suite_ok_def aead_ok_def tagAEAD_def)

lemma outA_new: "NewOutbound (\<lambda>_. None) (\<lambda>_. Some tagAEAD) childA = Inr outA"
  by (simp add: outA_def NewOutbound_def newESPAEAD_def childA_def ENCRAESGCM16_def ENCRChaCha20Poly1305_def Let_def)

lemma inB_new: "NewInbound (\<lambda>_. None) (\<lambda>_. Some tagAEAD) childB [WithReplayWindow 64] = Inr inB"
  by (simp add: inB_def NewInbound_def newESPAEAD_def childB_def ENCRAESGCM16_def ENCRChaCha20Poly1305_def Let_def)

lemma paired_AB: "paired childA childB"
  by (simp add: paired_def childA_def childB_def)

theorem esp_delivery_exact_witness:
  "\<exists>pkts. fst (sealAll outA [([1, 2, 3], 4), ([5], 41)]) = map Inr pkts \<and>
     delivered (fst (openAll (\<lambda>_. inB) 0 (map (\<lambda>i. pkts ! i) [1, 0, 1, 0]))) = [([5], 41), ([1, 2, 3], 4)]"
  using esp_delivery_exact [where h = "\<lambda>_. inB" and a = 0 and ps = "[([1, 2, 3], 4), ([5], 41)]"
      and ixs = "[1, 0, 1, 0]", OF tag_suites outA_new inB_new paired_AB]
  by (simp add: MaxReplayWindow_eq)

section \<open>Sequence numbers and nonces\<close>

fun reserveAll :: "OutboundSA \<Rightarrow> int list \<Rightarrow> (u64 \<times> u64) list" where
  "reserveAll sa [] = []"
| "reserveAll sa (c # cs) =
     (case reserveSequenceNumbers sa c of
        (Inl e, sa1) \<Rightarrow> reserveAll sa1 cs
      | (Inr r, sa1) \<Rightarrow> r # reserveAll sa1 cs)"

definition rangeSeqs :: "(u64 \<times> u64) list \<Rightarrow> nat list" where
  "rangeSeqs rs = concat (map (\<lambda>(f, e). [unat f..<unat e + 1]) rs)"

lemma rangeSeqs_simps [simp]:
  "rangeSeqs [] = []" "rangeSeqs ((f, e) # rs) = [unat f..<unat e + 1] @ rangeSeqs rs"
  by (simp_all add: rangeSeqs_def)

lemma reserve_refused: "c \<le> 0 \<Longrightarrow> reserveSequenceNumbers sa c = (Inl EmptyReservation, sa)"
  by (simp add: reserveSequenceNumbers_def)

lemma reserve_step:
  assumes c: "0 < c" and s: "unat (o_seq sa) + nat c < 2 ^ 64"
  shows "unat (o_seq (snd (reserveSequenceNumbers sa c))) = unat (o_seq sa) + nat c"
    "fst (reserveSequenceNumbers sa c) =
       (if unat (o_seq sa) + nat c \<le> 0xffffffff then Inr (o_seq sa + 1, o_seq sa + word_of_int c)
        else Inl SequenceExhausted)"
    "unat (o_seq sa + word_of_int c) = unat (o_seq sa) + nat c"
proof -
  have n: "unat (word_of_int c :: u64) = nat c"
  proof -
    have "nat c < 2 ^ 64" using s by (metis add.commute add_lessD1)
    then have "c < 2 ^ 64" using c by (simp add: nat_less_iff)
    then have "take_bit LENGTH(64) c = c" using c by (intro take_bit_int_eq_self) simp_all
    then show ?thesis by (simp only: unat_eq_nat_uint uint_word_of_int_eq)
  qed
  have e: "unat (o_seq sa + word_of_int c) = unat (o_seq sa) + nat c"
    using s n by (subst unat_plus_le) simp_all
  then show "unat (o_seq (snd (reserveSequenceNumbers sa c))) = unat (o_seq sa) + nat c"
    using c by (simp add: reserveSequenceNumbers_def Let_def)
  show "fst (reserveSequenceNumbers sa c) =
       (if unat (o_seq sa) + nat c \<le> 0xffffffff then Inr (o_seq sa + 1, o_seq sa + word_of_int c)
        else Inl SequenceExhausted)"
    using c e by (simp add: reserveSequenceNumbers_def Let_def word_less_nat_alt)
  show "unat (o_seq sa + word_of_int c) = unat (o_seq sa) + nat c" by (rule e)
qed

lemma reserveAll_seqs:
  assumes "unat (o_seq sa) + sum_list (map nat cs) < 2 ^ 64"
  shows "sorted_wrt (<) (rangeSeqs (reserveAll sa cs)) \<and>
    (\<forall>q\<in>set (rangeSeqs (reserveAll sa cs)). unat (o_seq sa) < q \<and> q \<le> 0xffffffff)"
  using assms
proof (induction cs arbitrary: sa)
  case (Cons c cs)
  show ?case
  proof (cases "0 < c")
    case True
    let ?sa = "snd (reserveSequenceNumbers sa c)" and ?s = "unat (o_seq sa)"
    have b: "?s + nat c < 2 ^ 64" using Cons.prems by simp
    note st = reserve_step [OF True b]
    have IH: "sorted_wrt (<) (rangeSeqs (reserveAll ?sa cs))"
      "\<forall>q\<in>set (rangeSeqs (reserveAll ?sa cs)). ?s + nat c < q \<and> q \<le> 0xffffffff"
      using Cons.IH [of ?sa] Cons.prems by (simp_all add: st(1))
    show ?thesis
    proof (cases "?s + nat c \<le> 0xffffffff")
      case True
      have f: "unat (o_seq sa + 1) = ?s + 1" "unat (o_seq sa + word_of_int c) = ?s + nat c"
        using True st(3) \<open>0 < c\<close> by (simp_all add: unat_plus_le)
      have r: "reserveAll sa (c # cs) = (o_seq sa + 1, o_seq sa + word_of_int c) # reserveAll ?sa cs"
        using st(2) True by (simp add: case_prod_beta split: sum.split)
      show ?thesis
        unfolding r using IH True f by (auto simp: sorted_wrt_append)
    next
      case False
      then have "reserveAll sa (c # cs) = reserveAll ?sa cs"
        using st(2) by (simp add: case_prod_beta split: sum.split)
      then show ?thesis using IH by auto
    qed
  next
    case False
    then show ?thesis using Cons by (simp add: reserve_refused)
  qed
qed simp

text \<open>The nonces \<open>appendSealed\<close> builds for the numbers of the granted ranges.\<close>

definition rangeNonces :: "bytes \<Rightarrow> (u64 \<times> u64) list \<Rightarrow> bytes list" where
  "rangeNonces salt rs = map (\<lambda>q. salt @ put64 (of_nat q)) (rangeSeqs rs)"



section \<open>Authentication and commit in batches\<close>

lemma commitRun_append:
  "commitRun h (ps @ qs) =
     (let (h1, ps1) = commitRun h ps; (h2, qs2) = commitRun h1 qs in (h2, ps1 @ qs2))"
  by (induction ps arbitrary: h) (auto simp: Let_def split: prod.split)

lemma CommitBatch_eq: "CommitBatch h ps = commitRun h ps"
proof (induction h ps rule: CommitBatch.induct)
  case (2 h p ps)
  let ?n = "1 + length (takeWhile (\<lambda>q. ap_sa q = ap_sa p) ps)"
  obtain h1 out where r: "commitRun h (take ?n (p # ps)) = (h1, out)" by force
  have "commitRun h (p # ps) = commitRun h (take ?n (p # ps) @ drop ?n (p # ps))"
    by (simp only: append_take_drop_id)
  also have "\<dots> = (let (h2, rest) = commitRun h1 (drop ?n (p # ps)) in (h2, out @ rest))"
    by (simp only: commitRun_append r Let_def prod.case)
  finally show ?case
    by (simp only: CommitBatch.simps r Let_def prod.case "2.IH" [OF refl r [symmetric] refl])
qed simp

text \<open>
  Holding the lock once per run of packets of one association changes nothing: \<open>CommitBatch\<close>
  is the packet-by-packet commit in slice order, whatever associations are mixed in the slice.
\<close>

theorem CommitBatch_sequential:
  "CommitBatch h ps = foldl (\<lambda>(h, done) p. let (h1, p1) = commitLocked h p in (h1, done @ [p1])) (h, []) ps"
proof -
  have "foldl (\<lambda>(h, done) p. let (h1, p1) = commitLocked h p in (h1, done @ [p1])) (h, ds) ps =
      (fst (commitRun h ps), ds @ snd (commitRun h ps))" for ds
    by (induction ps arbitrary: h ds) (auto simp: Let_def split: prod.split)
  from this [of "[]"] show ?thesis by (simp add: CommitBatch_eq)
qed

fun commitBatches ::
  "(nat \<Rightarrow> InboundSA) \<Rightarrow> AuthenticatedPacket list list \<Rightarrow> (nat \<Rightarrow> InboundSA) \<times> AuthenticatedPacket list" where
  "commitBatches h [] = (h, [])"
| "commitBatches h (b # bs) =
     (let (h1, done) = CommitBatch h b; (h2, rest) = commitBatches h1 bs in (h2, done @ rest))"

lemma commitBatches_eq: "commitBatches h bs = commitRun h (concat bs)"
  by (induction bs arbitrary: h) (auto simp: CommitBatch_eq commitRun_append Let_def split: prod.split)

text \<open>The sequence numbers association \<open>a\<close> hands out as plaintext.\<close>

definition plaintextSeqs :: "nat \<Rightarrow> AuthenticatedPacket list \<Rightarrow> u32 list" where
  "plaintextSeqs a ps = map ap_seq (filter (\<lambda>p. ap_sa p = Some a \<and> (\<exists>x. Plaintext (Some p) = Inr x)) ps)"

lemma plaintextSeqs_Cons:
  "plaintextSeqs a (p # ps) =
     (if ap_sa p = Some a \<and> ap_committed p \<and> ap_Err p = None then ap_seq p # plaintextSeqs a ps
      else plaintextSeqs a ps)"
  by (auto simp: plaintextSeqs_def Plaintext_def split: option.splits)

lemma commitLocked_cases:
  obtains (refused) e where "fst (commitLocked h p) = h" "ap_Err (snd (commitLocked h p)) = Some e"
  | (passed) a where "ap_sa p = Some a" "rw_check (i_window (h a)) (ap_seq p) = None"
      "fst (commitLocked h p) = h(a := (h a)\<lparr>i_window := rw_commit (i_window (h a)) (ap_seq p)\<rparr>)"
      "ap_sa (snd (commitLocked h p)) = Some a" "ap_seq (snd (commitLocked h p)) = ap_seq p"
  by (cases "ap_committed p"; cases "ap_Err p"; cases "ap_sa p")
    (force simp: commitLocked_def Let_def split: option.splits sum.splits)+

lemma commitRun_fresh:
  assumes "rw_rep (i_window (h a)) (unat ` H)"
  shows "distinct (plaintextSeqs a (snd (commitRun h ps))) \<and>
    set (plaintextSeqs a (snd (commitRun h ps))) \<inter> H = {}"
  using assms
proof (induction ps arbitrary: h H)
  case Nil
  then show ?case by (simp add: plaintextSeqs_def)
next
  case (Cons p ps)
  let ?h = "fst (commitLocked h p)" and ?p = "snd (commitLocked h p)"
  have run: "snd (commitRun h (p # ps)) = ?p # snd (commitRun ?h ps)"
    by (simp add: Let_def split: prod.split)
  show ?case
  proof (cases rule: commitLocked_cases [of h p])
    case (refused e)
    then show ?thesis using Cons unfolding run by (simp add: plaintextSeqs_Cons)
  next
    case (passed b)
    show ?thesis
    proof (cases "b = a")
      case True
      let ?H = "insert (ap_seq p) H"
      have fresh: "ap_seq p \<notin> H"
        using rw.accepts_fresh [OF Cons.prems] passed(2) True by simp
      have "rw_rep (i_window (?h a)) (unat ` ?H)"
        using rw.rep_note [OF Cons.prems] passed(2,3) True by simp
      from Cons.IH [of ?h ?H, OF this] fresh show ?thesis
        unfolding run by (auto simp: plaintextSeqs_Cons passed(5))
    next
      case False
      then have "rw_rep (i_window (?h a)) (unat ` H)" using passed(3) Cons.prems by simp
      from Cons.IH [of ?h H, OF this] False show ?thesis
        unfolding run by (simp add: plaintextSeqs_Cons passed(4))
    qed
  qed
qed

lemma NewInbound_window:
  "NewInbound gcm chacha child [WithReplayWindow window] = Inr sa \<Longrightarrow>
     i_window sa = newReplayWindow (min window MaxReplayWindow)"
  by (auto simp: NewInbound_def WithReplayWindow_def split: sum.splits)



text \<open>The pipeline of one batch against the packet-by-packet \<open>Open\<close>.\<close>

lemma batch_is_authenticate:
  "batchDecrypt h a pkt (batchHeader h a pkt) =
     (case authenticate h a pkt of
        Inr p \<Rightarrow> p
      | Inl e \<Rightarrow> \<lparr>ap_sa = Some a, ap_seq = (case checkHeader (h a) pkt of Inl _ \<Rightarrow> 0 | Inr s \<Rightarrow> s),
                  ap_committed = False, ap_nextHeader = 0, ap_plain = [], ap_Err = Some e\<rparr>)"
  by (auto simp: batchDecrypt_def batchHeader_def authenticate_def Let_def split: sum.splits option.splits)

lemma AuthenticateBatchInPlace_eq:
  "AuthenticateBatchInPlace h a pkts rs = rs @ map (\<lambda>pkt. batchDecrypt h a pkt (batchHeader h a pkt)) pkts"
  by (simp add: AuthenticateBatchInPlace_def zip_map2 zip_same_conv_map)

lemma rw_check_mono:
  assumes "rw_rep w H" "rw_rep w' H'" "H \<subseteq> H'" "rw_window w' = rw_window w" "rw_check w' s = None"
  shows "rw_check w s = None"
  using assms rw_check_iff [OF assms(1)] rw_check_iff [OF assms(2)] by auto

definition same_sa :: "InboundSA \<Rightarrow> InboundSA \<Rightarrow> bool" where
  "same_sa sa sb \<longleftrightarrow> i_aead sb = i_aead sa \<and> i_params sb = i_params sa \<and> i_salt sb = i_salt sa \<and>
     i_spi sb = i_spi sa \<and> rw_window (i_window sb) = rw_window (i_window sa)"

lemma same_sa_parse:
  "same_sa sa sb \<Longrightarrow> checkHeader sb = checkHeader sa" "same_sa sa sb \<Longrightarrow> decrypt sb = decrypt sa"
  by (auto simp: same_sa_def checkHeader_def decrypt_def fun_eq_iff)

lemmas open_defs = InboundSA_Open_def authenticate_def Commit_def commitLocked_def Plaintext_def
  batchDecrypt_def batchHeader_def Let_def

lemma batch_open_step:
  fixes pkt :: bytes and H H0 :: "u32 set"
  assumes same: "same_sa (h0 a) (h a)"
    and reps: "rw_rep (i_window (h0 a)) (unat ` H0)" "rw_rep (i_window (h a)) (unat ` H)" "H0 \<subseteq> H"
  defines "p \<equiv> batchDecrypt h0 a pkt (batchHeader h0 a pkt)"
  shows "fst (commitLocked h p) = snd (InboundSA_Open h a pkt) \<and>
    delivered [Plaintext (Some (snd (commitLocked h p)))] = delivered [fst (InboundSA_Open h a pkt)]"
proof (cases "checkHeader (h0 a) pkt")
  case (Inl e)
  then show ?thesis using same_sa_parse [OF same] by (simp add: p_def open_defs)
next
  case (Inr s)
  note parse = same_sa_parse [OF same]
  show ?thesis
  proof (cases "rw_check (i_window (h a)) s")
    case None
    have "rw_check (i_window (h0 a)) s = None"
      using rw_check_mono [OF reps(1,2) image_mono [OF reps(3)] _ None] same by (simp add: same_sa_def)
    then show ?thesis
      using Inr None parse by (auto simp: p_def open_defs split: sum.splits)
  next
    case (Some e)
    then show ?thesis
      using Inr parse by (auto simp: p_def open_defs split: sum.splits option.splits)
  qed
qed

lemma Open_store:
  "snd (InboundSA_Open h a pkt) = h \<or>
   (\<exists>s. rw_check (i_window (h a)) s = None \<and>
      snd (InboundSA_Open h a pkt) = h(a := (h a)\<lparr>i_window := rw_commit (i_window (h a)) s\<rparr>))"
proof (cases "authenticate h a pkt")
  case (Inl e)
  then show ?thesis by (simp add: InboundSA_Open_def)
next
  case (Inr p)
  show ?thesis
  proof (cases rule: commitLocked_cases [of h p])
    case (refused e)
    then show ?thesis using Inr by (simp add: InboundSA_Open_def Commit_def Let_def case_prod_beta)
  next
    case (passed b)
    moreover have "ap_sa p = Some a"
      using Inr by (auto simp: authenticate_def split: sum.splits option.splits)
    ultimately show ?thesis using Inr by (auto simp: InboundSA_Open_def Commit_def Let_def case_prod_beta)
  qed
qed

lemma Open_keeps:
  fixes H :: "u32 set"
  assumes "rw_rep (i_window (h a)) (unat ` H)"
  shows "same_sa (h a) (snd (InboundSA_Open h a pkt) a) \<and>
    (\<exists>H'. H \<subseteq> H' \<and> rw_rep (i_window (snd (InboundSA_Open h a pkt) a)) (unat ` H'))"
  using Open_store [of h a pkt]
proof (elim disjE exE conjE)
  assume "snd (InboundSA_Open h a pkt) = h"
  then show ?thesis using assms by (auto simp: same_sa_def)
next
  fix s
  assume s: "rw_check (i_window (h a)) s = None"
    "snd (InboundSA_Open h a pkt) = h(a := (h a)\<lparr>i_window := rw_commit (i_window (h a)) s\<rparr>)"
  have "rw_rep (rw_commit (i_window (h a)) s) (unat ` insert s H)" by (rule rw.rep_note [OF assms s(1)])
  moreover have "H \<subseteq> insert s H" by blast
  ultimately show ?thesis unfolding s(2) by (intro conjI exI [of _ "insert s H"]) (simp_all add: same_sa_def)
qed

lemma delivered_Cons: "delivered (r # rs) = delivered [r] @ delivered rs"
  by (cases r) auto

lemma batch_open_run:
  fixes H H0 :: "u32 set"
  assumes "same_sa (h0 a) (h a)" "rw_rep (i_window (h0 a)) (unat ` H0)" "rw_rep (i_window (h a)) (unat ` H)"
    "H0 \<subseteq> H"
  shows "(let (h', ps) = commitRun h (map (\<lambda>pkt. batchDecrypt h0 a pkt (batchHeader h0 a pkt)) pkts);
              (rs, h'') = openAll h a pkts
          in h' = h'' \<and> delivered (map (\<lambda>p. Plaintext (Some p)) ps) = delivered rs)"
  using assms(1,3,4)
proof (induction pkts arbitrary: h H)
  case (Cons pkt pkts)
  let ?p = "batchDecrypt h0 a pkt (batchHeader h0 a pkt)" and ?h = "snd (InboundSA_Open h a pkt)"
  note st = batch_open_step [where ?h0.0 = h0 and h = h and a = a, OF Cons.prems(1) assms(2) Cons.prems(2,3), of pkt]
  obtain H' where H': "H \<subseteq> H'" "rw_rep (i_window (?h a)) (unat ` H')" and k: "same_sa (h a) (?h a)"
    using Open_keeps [where h = h and a = a, OF Cons.prems(2), of pkt] by blast
  have "same_sa (h0 a) (?h a)" "H0 \<subseteq> H'"
    using k Cons.prems(1,3) H'(1) by (auto simp: same_sa_def)
  note IH = Cons.IH [of ?h H', OF this(1) H'(2) this(2)]
  let ?ps = "snd (commitRun ?h (map (\<lambda>pkt. batchDecrypt h0 a pkt (batchHeader h0 a pkt)) pkts))"
  let ?pl = "\<lambda>p. Plaintext (Some p)" and ?q = "snd (commitLocked h ?p)"
  have "delivered (map ?pl (?q # ?ps)) = delivered [?pl ?q] @ delivered (map ?pl ?ps)"
    by (simp only: list.map delivered_Cons [of "?pl ?q" "map ?pl ?ps"])
  also have "\<dots> = delivered (fst (InboundSA_Open h a pkt) # fst (openAll ?h a pkts))"
    using IH st by (simp only: Let_def case_prod_beta delivered_Cons [of "fst (InboundSA_Open h a pkt)" "fst (openAll ?h a pkts)"])
  finally show ?case
    using IH st by (simp add: Let_def case_prod_beta)
qed simp

text \<open>
  C5. Authenticating a batch against one snapshot of the window and committing it afterwards
  delivers the same plaintexts, in the same order, as opening the packets one at a time, and leaves
  the same window; in particular a replay inside one batch is caught by the second check.
\<close>

theorem batch_is_sequential_open:
  fixes H :: "u32 set"
  assumes "rw_rep (i_window (h a)) (unat ` H)"
  shows "(let (h', ps) = CommitBatch h (AuthenticateBatchInPlace h a pkts []); (rs, h'') = openAll h a pkts
          in h' = h'' \<and> delivered (map (\<lambda>p. Plaintext (Some p)) ps) = delivered rs)"
  using batch_open_run [where h = h and ?h0.0 = h and a = a and H = H and ?H0.0 = H, of pkts] assms
  by (simp add: CommitBatch_eq AuthenticateBatchInPlace_eq same_sa_def)

theorem batch_is_sequential_open_witness:
  "(let p = espPacket outA [7, 7] 4 1; q = espPacket outA [8] 41 2;
        (h', ps) = CommitBatch (\<lambda>_. inB) (AuthenticateBatchInPlace (\<lambda>_. inB) 0 [q, p, q, []] []);
        (rs, h'') = openAll (\<lambda>_. inB) 0 [q, p, q, []]
    in h' = h'' \<and> delivered (map (\<lambda>p. Plaintext (Some p)) ps) = delivered rs)"
  unfolding Let_def [of "espPacket _ _ _ _"]
proof (rule batch_is_sequential_open)
  show "rw_rep (i_window inB) (unat ` {})"
    using rw_rep_new [of 64] NewInbound_window [OF inB_new] by (simp add: MaxReplayWindow_eq)
qed

text \<open>
  The trailer of RFC 4303: a plaintext is accepted exactly when it is four-byte aligned and is
  a payload followed by the padding 1, 2, 3, ..., its length and the next header; the parts are
  then what is returned.
\<close>

theorem parseTrailer_exact:
  "parseTrailer plain = Inr (payload, nh) \<longleftrightarrow>
     (\<exists>pad. plain = payload @ map of_nat [1..<unat pad + 1] @ [pad, nh] \<and> length plain mod 4 = 0)"
  by (rule parseTrailer_iff)

text \<open>
  A packet that fails the header check, the window or authentication, or that was altered so
  that the AEAD refuses it, is reported and changes no state; what is delivered was opened by the
  AEAD under the packet's own header and IV.
\<close>

theorem open_outcomes:
  "case InboundSA_Open h a pkt of
     (Inr (inner, nh), h') \<Rightarrow> \<exists>s plain.
        checkHeader (h a) pkt = Inr s \<and> rw_check (i_window (h a)) s = None \<and>
        decrypt (h a) pkt (replicate 12 0) = Inr plain \<and> parseTrailer plain = Inr (inner, nh) \<and>
        h' = h(a := (h a)\<lparr>i_window := rw_commit (i_window (h a)) s\<rparr>)
   | (Inl e, h') \<Rightarrow> h' = h \<and> (checkHeader (h a) pkt = Inl e \<or> e = AuthenticationFailed \<or>
         (\<exists>r. e = ReplayError r)) \<or>
       (\<exists>s plain. checkHeader (h a) pkt = Inr s \<and> decrypt (h a) pkt (replicate 12 0) = Inr plain \<and>
         parseTrailer plain = Inl e \<and>
         h' = h(a := (h a)\<lparr>i_window := rw_commit (i_window (h a)) s\<rparr>))"
  by (auto simp: open_defs decrypt_def split: sum.splits option.splits)

end
