(* ===== verification/Net_Addr.thy ===== *)
theory Net_Addr
  imports Prelude
begin

unbundle bit_operations_syntax

text \<open>
  The part of Go's \<open>net/netip\<close> the sources use: addresses of the two families (the zero
  \<open>Addr\<close> included; zones do not occur), prefixes stored as address and length plus one, masking,
  containment and the byte forms. An IPv4-mapped IPv6 address is an \<open>Addr6\<close>, as in Go.
\<close>

section \<open>Model\<close>

type_synonym u128 = "128 word"

datatype addr = AddrZ | Addr4 u32 | Addr6 u128

datatype prefix = Prefix (p_ip: addr) (bitsPlusOne: nat)

fun a_IsValid :: "addr \<Rightarrow> bool" where
  "a_IsValid AddrZ = False" | "a_IsValid _ = True"

fun Is4 :: "addr \<Rightarrow> bool" where
  "Is4 (Addr4 _) = True" | "Is4 _ = False"

fun BitLen :: "addr \<Rightarrow> nat" where
  "BitLen AddrZ = 0" | "BitLen (Addr4 _) = 32" | "BitLen (Addr6 _) = 128"

definition v4mapped :: u128 where "v4mapped = 0xffff00000000"

fun As16 :: "addr \<Rightarrow> u128" where
  "As16 AddrZ = 0"
| "As16 (Addr4 v) = v4mapped OR ucast v"
| "As16 (Addr6 v) = v"

definition Is4In6 :: "addr \<Rightarrow> bool" where
  "Is4In6 a = (case a of Addr6 v \<Rightarrow> drop_bit 32 v = 0xffff | _ \<Rightarrow> False)"

definition Unmap :: "addr \<Rightarrow> addr" where
  "Unmap a = (case a of Addr6 v \<Rightarrow> if drop_bit 32 v = 0xffff then Addr4 (ucast v) else a | _ \<Rightarrow> a)"

definition mask6 :: "nat \<Rightarrow> u128" where "mask6 n = NOT (mask (128 - n))"

definition p_IsValid :: "prefix \<Rightarrow> bool" where "p_IsValid p = (bitsPlusOne p > 0)"

definition p_Bits :: "prefix \<Rightarrow> int" where "p_Bits p = int (bitsPlusOne p) - 1"

definition PrefixFrom :: "addr \<Rightarrow> int \<Rightarrow> prefix" where
  "PrefixFrom ip bits =
     Prefix ip (if a_IsValid ip \<and> 0 \<le> bits \<and> bits \<le> int (BitLen ip) then nat bits + 1 else 0)"

definition noPrefix :: prefix where "noPrefix = Prefix AddrZ 0"

definition a_Prefix :: "addr \<Rightarrow> int \<Rightarrow> prefix option" where
  "a_Prefix ip b =
     (if b < 0 then None
      else case ip of
        AddrZ \<Rightarrow> Some noPrefix
      | Addr4 v \<Rightarrow> if b > 32 then None
                   else Some (PrefixFrom (Addr4 (v AND ucast (mask6 (nat b + 96)))) b)
      | Addr6 v \<Rightarrow> if b > 128 then None
                   else Some (PrefixFrom (Addr6 (v AND mask6 (nat b))) b))"

definition Masked :: "prefix \<Rightarrow> prefix" where
  "Masked p = (case a_Prefix (p_ip p) (p_Bits p) of Some m \<Rightarrow> m | None \<Rightarrow> noPrefix)"

definition Contains :: "prefix \<Rightarrow> addr \<Rightarrow> bool" where
  "Contains p ip =
     (p_IsValid p \<and>
      (case (p_ip p, ip) of
         (Addr4 a, Addr4 b) \<Rightarrow> drop_bit (32 - nat (p_Bits p)) (a XOR b) = 0
       | (Addr6 a, Addr6 b) \<Rightarrow> (a XOR b) AND mask6 (nat (p_Bits p)) = 0
       | _ \<Rightarrow> False))"

text \<open>\<open>AddrFromSlice\<close> and \<open>AsSlice\<close>; \<open>AsSlice\<close> of the zero address is nil.\<close>

definition AddrFromSlice :: "bytes \<Rightarrow> addr option" where
  "AddrFromSlice b =
     (if length b = 4 then Some (Addr4 (be_acc 0 b))
      else if length b = 16 then Some (Addr6 (be_acc 0 b)) else None)"

fun AsSlice :: "addr \<Rightarrow> bytes" where
  "AsSlice AddrZ = []"
| "AsSlice (Addr4 v) = be_bytes 4 v"
| "AsSlice (Addr6 v) = be_bytes 16 v"

definition AddrFrom16 :: "bytes \<Rightarrow> addr" where "AddrFrom16 b = Addr6 (be_acc 0 b)"

definition IsUnspecified :: "addr \<Rightarrow> bool" where
  "IsUnspecified a = (a = Addr4 0 \<or> a = Addr6 0)"

definition IsMulticast :: "addr \<Rightarrow> bool" where
  "IsMulticast a = (case Unmap a of
     Addr4 v \<Rightarrow> drop_bit 28 v = 0xe | Addr6 v \<Rightarrow> drop_bit 120 v = 0xff | AddrZ \<Rightarrow> False)"

definition IsLinkLocalUnicast :: "addr \<Rightarrow> bool" where
  "IsLinkLocalUnicast a = (case Unmap a of
     Addr4 v \<Rightarrow> drop_bit 16 v = 0xa9fe
   | Addr6 v \<Rightarrow> drop_bit 112 v AND 0xffc0 = 0xfe80 | AddrZ \<Rightarrow> False)"

definition Is6 :: "addr \<Rightarrow> bool" where
  "Is6 a = (case a of Addr6 _ \<Rightarrow> True | _ \<Rightarrow> False)"

section \<open>Well-formed prefixes\<close>

text \<open>What every prefix built by \<open>PrefixFrom\<close> satisfies: at most one more than the width of its address.\<close>

definition prefix_ok :: "prefix \<Rightarrow> bool" where
  "prefix_ok p \<longleftrightarrow> (p_IsValid p \<longrightarrow> bitsPlusOne p \<le> BitLen (p_ip p) + 1 \<and> a_IsValid (p_ip p))"

lemma prefix_ok_PrefixFrom [simp]: "prefix_ok (PrefixFrom ip b)"
  by (auto simp: prefix_ok_def PrefixFrom_def p_IsValid_def split: if_splits)

lemma AddrFromSlice_AsSlice [simp]:
  "a_IsValid a \<Longrightarrow> AddrFromSlice (AsSlice a) = Some a"
  by (cases a) (simp_all add: AddrFromSlice_def)

lemma length_AsSlice [simp]: "length (AsSlice a) = BitLen a div 8"
  by (cases a) simp_all

lemma mask6_bit: "bit (mask6 n) i \<longleftrightarrow> i < 128 \<and> 128 - n \<le> i"
  by (auto simp: mask6_def bit_simps)

lemma word_zero_bits: "(x :: 'a::len word) = 0 \<longleftrightarrow> (\<forall>i. \<not> bit x i)"
  by (auto intro: bit_word_eqI)

lemma mask_and_eq6:
  fixes a b :: u128
  assumes "n \<le> 128"
  shows "(a XOR b) AND mask6 n = 0 \<longleftrightarrow> a AND mask6 n = b AND mask6 n"
  by (auto simp: bit_eq_iff bit_simps mask6_bit)

lemma mask_and_eq4:
  fixes a b :: u32
  assumes "n \<le> 32"
  shows "drop_bit (32 - n) (a XOR b) = 0 \<longleftrightarrow> a AND ucast (mask6 (n + 96)) = b AND ucast (mask6 (n + 96))"
proof -
  have "drop_bit (32 - n) (a XOR b) = 0 \<longleftrightarrow> (\<forall>i. \<not> bit (a XOR b) (32 - n + i))"
    by (simp only: word_zero_bits bit_drop_bit_eq comp_def)
  also have "\<dots> \<longleftrightarrow> (\<forall>i<32. 32 - n \<le> i \<longrightarrow> \<not> bit (a XOR b) i)"
  proof -
    have "\<not> bit (a XOR b) i" if "\<not> i < 32" for i
      using that bit_imp_le_length [of "a XOR b" i] by auto
    then show ?thesis by (metis le_Suc_ex le_add1)
  qed
  also have "\<dots> \<longleftrightarrow> a AND ucast (mask6 (n + 96)) = b AND ucast (mask6 (n + 96))"
    using assms by (auto simp: bit_eq_iff bit_simps mask6_bit)
  finally show ?thesis .
qed

lemma PrefixFrom_sel [simp]:
  "p_ip (PrefixFrom ip b) = ip"
  "a_IsValid ip \<Longrightarrow> 0 \<le> b \<Longrightarrow> b \<le> int (BitLen ip) \<Longrightarrow> p_Bits (PrefixFrom ip b) = b"
  "p_IsValid (PrefixFrom ip b) \<longleftrightarrow> a_IsValid ip \<and> 0 \<le> b \<and> b \<le> int (BitLen ip)"
  by (simp_all add: PrefixFrom_def p_Bits_def p_IsValid_def)

lemma PrefixFrom_eq:
  "a_IsValid ip \<Longrightarrow> a_IsValid ip' \<Longrightarrow> 0 \<le> b \<Longrightarrow> b \<le> int (BitLen ip) \<Longrightarrow> PrefixFrom ip b = PrefixFrom ip' b \<longleftrightarrow> ip = ip'"
  by (auto simp: PrefixFrom_def)

lemma Masked_4 [simp]:
  "0 \<le> b \<Longrightarrow> b \<le> 32 \<Longrightarrow> Masked (PrefixFrom (Addr4 v) b) = PrefixFrom (Addr4 (v AND ucast (mask6 (nat b + 96)))) b"
  by (simp add: Masked_def a_Prefix_def)

lemma Masked_6 [simp]:
  "0 \<le> b \<Longrightarrow> b \<le> 128 \<Longrightarrow> Masked (PrefixFrom (Addr6 v) b) = PrefixFrom (Addr6 (v AND mask6 (nat b))) b"
  by (simp add: Masked_def a_Prefix_def)

text \<open>A valid prefix is one \<open>PrefixFrom\<close> builds.\<close>

lemma prefix_cases:
  assumes "prefix_ok p" "p_IsValid p"
  obtains (v4) v b where "p = PrefixFrom (Addr4 v) b" "0 \<le> b" "b \<le> 32"
  | (v6) v b where "p = PrefixFrom (Addr6 v) b" "0 \<le> b" "b \<le> 128"
proof -
  have "p = PrefixFrom (p_ip p) (p_Bits p)" "0 \<le> p_Bits p" "p_Bits p \<le> int (BitLen (p_ip p))"
    using assms by (cases p; auto simp: PrefixFrom_def p_Bits_def prefix_ok_def p_IsValid_def)+
  moreover have "a_IsValid (p_ip p)" using assms by (simp add: prefix_ok_def)
  ultimately show thesis using v4 v6 by (cases "p_ip p") auto
qed

text \<open>An address is in a prefix exactly when cutting it to the prefix length gives the prefix.\<close>

lemma Contains_iff:
  assumes "prefix_ok p"
  shows "Contains p ip \<longleftrightarrow> p_IsValid p \<and> BitLen ip = BitLen (p_ip p) \<and> Masked (PrefixFrom ip (p_Bits p)) = Masked p"
proof (cases "p_IsValid p")
  case True
  from assms True show ?thesis
  proof (cases rule: prefix_cases)
    case (v4 v b)
    then show ?thesis
      by (cases ip) (auto simp: Contains_def mask_and_eq4 PrefixFrom_eq simp del: drop_bit_xor)
  next
    case (v6 v b)
    then show ?thesis
      by (cases ip) (auto simp: Contains_def mask_and_eq6 PrefixFrom_eq)
  qed
qed (simp add: Contains_def)

lemma Masked_invalid: "\<not> p_IsValid p \<Longrightarrow> Masked p = noPrefix"
  by (simp add: Masked_def a_Prefix_def p_IsValid_def p_Bits_def)

lemma noPrefix_sel [simp]: "\<not> p_IsValid noPrefix" "p_Bits noPrefix = -1" "prefix_ok noPrefix" "Masked noPrefix = noPrefix"
  by (simp_all add: noPrefix_def p_IsValid_def p_Bits_def prefix_ok_def Masked_invalid)

lemma Masked_props:
  assumes "prefix_ok p"
  shows "prefix_ok (Masked p)" "p_IsValid (Masked p) = p_IsValid p" "Masked (Masked p) = Masked p"
    "p_IsValid p \<Longrightarrow> p_Bits (Masked p) = p_Bits p"
    "p_IsValid p \<Longrightarrow> BitLen (p_ip (Masked p)) = BitLen (p_ip p)"
proof -
  have "prefix_ok (Masked p) \<and> p_IsValid (Masked p) = p_IsValid p \<and> Masked (Masked p) = Masked p \<and>
    (p_IsValid p \<longrightarrow> p_Bits (Masked p) = p_Bits p \<and> BitLen (p_ip (Masked p)) = BitLen (p_ip p))"
  proof (cases "p_IsValid p")
    case True
    from assms True show ?thesis by (cases rule: prefix_cases) (simp_all add: and.assoc)
  qed (simp add: Masked_invalid)
  then show "prefix_ok (Masked p)" "p_IsValid (Masked p) = p_IsValid p" "Masked (Masked p) = Masked p"
    "p_IsValid p \<Longrightarrow> p_Bits (Masked p) = p_Bits p"
    "p_IsValid p \<Longrightarrow> BitLen (p_ip (Masked p)) = BitLen (p_ip p)" by simp_all
qed

end
