(* ===== verification/Ip_Packet.thy ===== *)
theory Ip_Packet
  imports Net_Addr
begin

unbundle bit_operations_syntax

text \<open>
  The IP envelope checks of \<open>internal/packet/ip.go\<close>: \<open>Payload\<close> trims a buffer to the packet its
  header declares, \<open>Version\<close> accepts exactly one packet, \<open>Addrs\<close> reads the addresses of one. A nil
  result is the empty list with version zero.
\<close>

section \<open>Model\<close>

definition Payload :: "bytes \<Rightarrow> bytes \<times> byte" where
  "Payload raw =
     (if length raw = 0 then ([], 0)
      else if drop_bit 4 (raw ! 0) = 4 then
        (if length raw < 20 then ([], 0)
         else let hdrLen = unat (raw ! 0 AND 0xf) * 4;
                  total = unat (rd16 (slice 2 4 raw))
              in if hdrLen < 20 \<or> total < hdrLen \<or> total > length raw then ([], 0)
                 else (take total raw, 4))
      else if drop_bit 4 (raw ! 0) = 6 then
        (if length raw < 40 then ([], 0)
         else let len = unat (rd16 (slice 4 6 raw))
              in if len = 0 \<and> length raw > 40 \<or> 40 + len > length raw then ([], 0)
                 else (take (40 + len) raw, 6))
      else ([], 0))"

definition Version :: "bytes \<Rightarrow> byte" where
  "Version raw =
     (let (payload, version) = Payload raw
      in if length payload \<noteq> length raw then 0 else version)"

definition Addrs :: "bytes \<Rightarrow> addr \<times> addr \<times> byte" where
  "Addrs raw =
     (let version = Version raw
      in if version = 4 then
           (Addr4 (be_acc 0 (slice 12 16 raw)), Addr4 (be_acc 0 (slice 16 20 raw)), version)
         else if version = 6 then
           (Addr6 (be_acc 0 (slice 8 24 raw)), Addr6 (be_acc 0 (slice 24 40 raw)), version)
         else (AddrZ, AddrZ, version))"

section \<open>Properties\<close>

lemma slice_append_le: "hi \<le> length p \<Longrightarrow> slice lo hi (p @ t) = slice lo hi p"
  by (simp add: slice_def)

definition is_ipv4 :: "bytes \<Rightarrow> bool" where
  "is_ipv4 p \<longleftrightarrow> 20 \<le> length p \<and> drop_bit 4 (p ! 0) = 4 \<and> 20 \<le> 4 * unat (p ! 0 AND 0xf) \<and>
     4 * unat (p ! 0 AND 0xf) \<le> length p \<and> unat (rd16 (slice 2 4 p)) = length p"

definition is_ipv6 :: "bytes \<Rightarrow> bool" where
  "is_ipv6 p \<longleftrightarrow> drop_bit 4 (p ! 0) = 6 \<and> 40 \<le> length p \<and> 40 + unat (rd16 (slice 4 6 p)) = length p"

lemma Version_eq: "Version p = (if is_ipv4 p then 4 else if is_ipv6 p then 6 else 0)"
  by (auto simp: Version_def Payload_def Let_def is_ipv4_def is_ipv6_def)

lemma Payload_append_4: "is_ipv4 p \<Longrightarrow> Payload (p @ pad) = (p, 4)"
  by (auto simp: Payload_def Let_def is_ipv4_def nth_append slice_append_le)

lemma Payload_append_6:
  "is_ipv6 p \<Longrightarrow> Payload (p @ pad) = (if length p = 40 \<and> pad \<noteq> [] then ([], 0) else (p, 6))"
  by (auto simp: Payload_def Let_def is_ipv6_def nth_append slice_append_le)

text \<open>
  Traffic flow confidentiality padding after a tunnelled packet is discarded: for a complete IP
  packet \<open>p\<close> and any bytes after it \<open>Payload\<close> gives back \<open>p\<close> with its version, except an IPv6 packet
  of payload length zero, which with bytes after it is refused as a possible jumbogram.
\<close>

theorem Payload_drops_padding:
  assumes "Version p \<noteq> 0"
  shows "Payload (p @ pad) =
    (if Version p = 6 \<and> length p = 40 \<and> pad \<noteq> [] then ([], 0) else (p, Version p))"
  using assms Payload_append_4 [of p pad] Payload_append_6 [of p pad]
  by (simp add: Version_eq split: if_splits)

theorem Payload_drops_padding_witness:
  "let p = [0x45, 0, 0, 21, 0, 0, 0, 0, 64, 17, 0, 0, 10, 0, 0, 1, 10, 0, 0, 2, 9]
   in Version p \<noteq> 0 \<and> Payload (p @ [0, 0, 0]) = (p, 4)"
proof -
  let ?p = "[0x45, 0, 0, 21, 0, 0, 0, 0, 64, 17, 0, 0, 10, 0, 0, 1, 10, 0, 0, 2, 9] :: bytes"
  have v: "Version ?p = 4" by code_simp
  then show ?thesis using Payload_drops_padding [of ?p "[0, 0, 0]"] by (simp only: Let_def) simp
qed

text \<open>
  \<open>Addrs\<close> accepts exactly the buffers that are one complete IP packet, and then returns the
  addresses at the header's offsets: read back as bytes they are the header's bytes.
\<close>

theorem Addrs_exact:
  "case Addrs raw of (src, dst, version) \<Rightarrow>
     version = (if is_ipv4 raw then 4 else if is_ipv6 raw then 6 else 0) \<and>
     AsSlice src @ AsSlice dst =
       (if is_ipv4 raw then slice 12 20 raw else if is_ipv6 raw then slice 8 40 raw else [])"
proof -
  have split: "slice a b raw @ slice b c raw = slice a c raw" if "a \<le> b" "b \<le> c" for a b c
    using that take_add [of "b - a" "c - b" "drop a raw"] by (simp add: slice_def drop_take)
  have b: "be_bytes 4 (be_acc 0 bs :: u32) = bs" if "length bs = 4" for bs
    using be_bytes_be_acc [where bs = bs and acc = "0 :: u32"] that by simp
  have c: "be_bytes 16 (be_acc 0 bs :: u128) = bs" if "length bs = 16" for bs
    using be_bytes_be_acc [where bs = bs and acc = "0 :: u128"] that by simp
  have l4: "20 \<le> length raw" if "is_ipv4 raw" using that by (simp add: is_ipv4_def)
  have l6: "40 \<le> length raw" if "is_ipv6 raw" using that by (simp add: is_ipv6_def)
  show ?thesis
    using l4 l6 by (auto simp: Addrs_def Let_def Version_eq b c split)
qed

end
