(* ===== verification/Sadr_Table.thy ===== *)
theory Sadr_Table
  imports Net_Addr
begin

unbundle bit_operations_syntax

text \<open>
  The source-address-dependent routing table of \<open>sadr/table.go\<close>: a path-compressed binary trie per
  address family keyed by destination prefix, each node holding its source prefixes longest first,
  with the per-length source index where it pays. The abstraction \<open>table_map\<close> is the map from
  (source, destination) pairs to values; every operation is shown to act on it as on a map, and
  \<open>Lookup\<close> to be the longest match, destination first.
\<close>

section \<open>Model\<close>

text \<open>
  A \<open>[16]byte\<close> address is the 128-bit word it encodes; \<open>byte_at\<close> indexes it. \<open>byLen\<close> and its
  \<open>sync.Once\<close> are not stored: the index is a function of \<open>srcs\<close>, computed where it is read.
\<close>

definition byte_at :: "u128 \<Rightarrow> nat \<Rightarrow> byte" where
  "byte_at a i = ucast (drop_bit (8 * (15 - i)) a)"

definition hi64 :: "u128 \<Rightarrow> u64" where "hi64 a = ucast (drop_bit 64 a)"
definition lo64 :: "u128 \<Rightarrow> u64" where "lo64 a = ucast a"

definition LeadingZeros64 :: "u64 \<Rightarrow> nat" where
  "LeadingZeros64 x = length (takeWhile (\<lambda>i. \<not> bit x (63 - i)) [0..<64])"

type_synonym 'v srcEntry = "prefix \<times> 'v"

datatype 'v trieNode =
    Nil_node
  | trieNode (address: u128) (prefixLen: nat) (byteIndex: nat) (bitShift: nat)
      (srcs: "'v srcEntry list") (anySrc: "'v option") (child0: "'v trieNode") (child1: "'v trieNode")

record 'v roots =
  ipv4 :: "'v trieNode"
  ipv6 :: "'v trieNode"

text \<open>The atomic pointer of \<open>Table\<close>: nil before the first change.\<close>

type_synonym 'v Table = "'v roots option"

record 'v srcIndex =
  si_bits :: nat
  si_m :: "prefix \<rightharpoonup> 'v"

definition indexThreshold :: nat where "indexThreshold = 4"

text \<open>The counting loop and the grouping loop of \<open>indexSrcs\<close>.\<close>

fun countRuns :: "int option \<Rightarrow> 'v srcEntry list \<Rightarrow> nat \<times> nat" where
  "countRuns prev [] = (0, 0)"
| "countRuns prev ((src, value) # rest) =
     (let (specific, runs) = countRuns (Some (p_Bits src)) rest
      in if \<not> p_IsValid src then (specific, runs)
         else (specific + 1, if prev \<noteq> Some (p_Bits src) then runs + 1 else runs))"

definition groupMap :: "'v srcEntry list \<Rightarrow> prefix \<rightharpoonup> 'v" where
  "groupMap es = foldl (\<lambda>m (src, value). m(src \<mapsto> value)) Map.empty es"

function groupSrcs :: "'v srcEntry list \<Rightarrow> 'v srcIndex list" where
  "groupSrcs [] = []"
| "groupSrcs ((src, value) # rest) =
     (if \<not> p_IsValid src then groupSrcs rest
      else let same = (\<lambda>(s, v). p_IsValid s \<and> p_Bits s = p_Bits src);
               run = (src, value) # takeWhile same rest
           in \<lparr>si_bits = nat (p_Bits src) mod 256, si_m = groupMap run\<rparr> # groupSrcs (dropWhile same rest))"
  by pat_completeness auto
termination
  by (relation "measure length") (auto simp: le_imp_less_Suc length_dropWhile_le)

definition indexSrcs :: "'v srcEntry list \<Rightarrow> 'v srcIndex list option" where
  "indexSrcs es =
     (let (specific, runs) = countRuns None es
      in if runs = 0 \<or> specific < runs * indexThreshold then None else Some (groupSrcs es))"

record 'v Route =
  Source :: prefix
  Destination :: prefix
  Value :: 'v

definition branch :: "u128 \<Rightarrow> nat \<Rightarrow> nat" where
  "branch a b = unat (drop_bit (7 - b mod 8) (byte_at a (b div 8)) AND 1)"

fun matchAllSource :: "'v srcEntry list \<Rightarrow> 'v option" where
  "matchAllSource [] = None"
| "matchAllSource ((src, value) # rest) =
     (if \<not> p_IsValid src then Some value else matchAllSource rest)"

definition newTrieNode :: "u128 \<Rightarrow> nat \<Rightarrow> 'v srcEntry list \<Rightarrow> 'v trieNode" where
  "newTrieNode a len es = trieNode a len (len div 8) (7 - len mod 8) es (matchAllSource es) Nil_node Nil_node"

fun setSrcs :: "'v srcEntry list \<Rightarrow> 'v trieNode \<Rightarrow> 'v trieNode" where
  "setSrcs es (trieNode a len bi bs _ _ c0 c1) = trieNode a len bi bs es (matchAllSource es) c0 c1"
| "setSrcs es Nil_node = Nil_node"

text \<open>Reading and assigning \<open>n.child[b]\<close>.\<close>

definition child :: "'v trieNode \<Rightarrow> nat \<Rightarrow> 'v trieNode" where
  "child n b = (if b = 0 then child0 n else child1 n)"

fun setChild :: "nat \<Rightarrow> 'v trieNode \<Rightarrow> 'v trieNode \<Rightarrow> 'v trieNode" where
  "setChild b c (trieNode a len bi bs es any c0 c1) =
     (if b = 0 then trieNode a len bi bs es any c c1 else trieNode a len bi bs es any c0 c)"
| "setChild b c Nil_node = Nil_node"

definition commonBits :: "u128 \<Rightarrow> u128 \<Rightarrow> nat" where
  "commonBits a b =
     (let common = LeadingZeros64 (hi64 a XOR hi64 b)
      in if common = 64 then common + LeadingZeros64 (lo64 a XOR lo64 b) else common)"

definition matches :: "u128 \<Rightarrow> nat \<Rightarrow> u64 \<Rightarrow> u64 \<Rightarrow> bool" where
  "matches a len hi lo =
     (let highDiff = hi64 a XOR hi
      in if len \<le> 64 then drop_bit (64 - len) highDiff = 0
         else highDiff = 0 \<and> drop_bit (128 - len) (lo64 a XOR lo) = 0)"

fun compact :: "'v trieNode \<Rightarrow> 'v trieNode" where
  "compact (trieNode a len bi bs es any c0 c1) =
     (if es = [] \<and> c0 = Nil_node then c1
      else if es = [] \<and> c1 = Nil_node then c0
      else trieNode a len bi bs es any c0 c1)"
| "compact Nil_node = Nil_node"

fun edit ::
  "'v trieNode \<Rightarrow> u128 \<Rightarrow> nat \<Rightarrow> ('v srcEntry list \<Rightarrow> 'v srcEntry list) \<Rightarrow> 'v trieNode" where
  "edit Nil_node a len change =
     (let es = change [] in if es = [] then Nil_node else newTrieNode a len es)"
| "edit (trieNode na nlen bi bs nes any c0 c1) a len change =
     (let n = trieNode na nlen bi bs nes any c0 c1;
          common = min (commonBits na a) (min nlen len)
      in if common < nlen then
           (let es = change []
            in if es = [] then n
               else let parent = setChild (branch na common) n (newTrieNode a common [])
                    in if common = len then setSrcs es parent
                       else setChild (branch a common) (newTrieNode a len es) parent)
         else compact
           (if nlen = len then setSrcs (change nes) n
            else let b = branch a nlen
                 in setChild b (if b = 0 then edit c0 a len change else edit c1 a len change) n))"

definition validPrefixes :: "prefix \<Rightarrow> prefix \<Rightarrow> bool" where
  "validPrefixes src dst =
     (p_IsValid dst \<and> (\<not> p_IsValid src \<or> BitLen (p_ip src) = BitLen (p_ip dst)))"

definition change ::
  "'v Table \<Rightarrow> prefix \<Rightarrow> prefix \<Rightarrow> ('v srcEntry list \<Rightarrow> 'v srcEntry list) \<Rightarrow> 'v Table" where
  "change t src dst fn =
     (if \<not> validPrefixes src dst then t
      else let nxt = (case t of None \<Rightarrow> \<lparr>ipv4 = Nil_node, ipv6 = Nil_node\<rparr> | Some current \<Rightarrow> current);
               len = nat (p_Bits dst)
        in if Is4 (p_ip dst)
           then Some (nxt\<lparr>ipv4 := edit (ipv4 nxt) (As16 (p_ip dst)) (len + 96) fn\<rparr>)
           else Some (nxt\<lparr>ipv6 := edit (ipv6 nxt) (As16 (p_ip dst)) len fn\<rparr>))"

text \<open>The update loop of \<open>Set\<close>; \<open>None\<close> when no entry has the source.\<close>

fun replaceSrc :: "prefix \<Rightarrow> 'v \<Rightarrow> 'v srcEntry list \<Rightarrow> 'v srcEntry list option" where
  "replaceSrc src v [] = None"
| "replaceSrc src v ((s, w) # rest) =
     (if s = src then Some ((s, v) # rest) else map_option (Cons (s, w)) (replaceSrc src v rest))"

text \<open>\<open>slices.BinarySearchFunc\<close>: the loop over \<open>i, j\<close>, \<open>lt h\<close> being \<open>cmp(x[h], target) < 0\<close>.\<close>

function BinarySearchFunc :: "(nat \<Rightarrow> bool) \<Rightarrow> nat \<Rightarrow> nat \<Rightarrow> nat" where
  "BinarySearchFunc lt i j =
     (if i < j then
        let h = (i + j) div 2
        in if lt h then BinarySearchFunc lt (h + 1) j else BinarySearchFunc lt i h
      else i)"
  by pat_completeness auto
termination
  by (relation "measure (\<lambda>(_, i, j). j - i)") auto

declare BinarySearchFunc.simps [simp del]

definition setEntry :: "prefix \<Rightarrow> 'v \<Rightarrow> 'v srcEntry list \<Rightarrow> 'v srcEntry list" where
  "setEntry src value entries =
     (case replaceSrc src value entries of
        Some nxt \<Rightarrow> nxt
      | None \<Rightarrow>
          let at = BinarySearchFunc (\<lambda>h. p_Bits src - p_Bits (fst (entries ! h)) < 0) 0 (length entries)
          in take at entries @ (src, value) # drop at entries)"

definition Table_Set :: "'v Table \<Rightarrow> prefix \<Rightarrow> prefix \<Rightarrow> 'v \<Rightarrow> 'v Table" where
  "Table_Set t src dst value = (let src = Masked src in change t src dst (setEntry src value))"

fun removeEntry :: "prefix \<Rightarrow> 'v srcEntry list \<Rightarrow> 'v srcEntry list" where
  "removeEntry src [] = []"
| "removeEntry src ((s, w) # rest) = (if s = src then rest else (s, w) # removeEntry src rest)"

definition Table_Remove :: "'v Table \<Rightarrow> prefix \<Rightarrow> prefix \<Rightarrow> 'v Table" where
  "Table_Remove t src dst = (let src = Masked src in change t src dst (removeEntry src))"

text \<open>
  A pointer comparison \<open>left == n.child[0]\<close> tells whether the subtree was rebuilt, which it is
  exactly when it lost an entry; on the immutable nodes it is equality.
\<close>

fun removeValue :: "'v trieNode \<Rightarrow> 'v \<Rightarrow> 'v trieNode" where
  "removeValue Nil_node value = Nil_node"
| "removeValue (trieNode a len bi bs es any c0 c1) value =
     (let left = removeValue c0 value; right = removeValue c1 value;
          mtch = list_ex (\<lambda>(s, v). v = value) es
      in if \<not> mtch \<and> left = c0 \<and> right = c1 then trieNode a len bi bs es any c0 c1
         else let cp = trieNode a len bi bs es any left right
              in compact (if mtch then setSrcs (filter (\<lambda>(s, v). v \<noteq> value) es) cp else cp))"

definition Table_RemoveValue :: "'v Table \<Rightarrow> 'v \<Rightarrow> 'v Table" where
  "Table_RemoveValue t value =
     (case t of None \<Rightarrow> None
      | Some current \<Rightarrow> Some \<lparr>ipv4 = removeValue (ipv4 current) value, ipv6 = removeValue (ipv6 current) value\<rparr>)"

text \<open>The two ways \<open>Lookup\<close> answers at one node.\<close>

fun lookupIndex :: "'v srcIndex list \<Rightarrow> addr \<Rightarrow> 'v option" where
  "lookupIndex [] src = None"
| "lookupIndex (grp # rest) src =
     (case si_m grp (Masked (PrefixFrom src (int (si_bits grp)))) of
        Some value \<Rightarrow> Some value
      | None \<Rightarrow> lookupIndex rest src)"

fun lookupScan :: "'v srcEntry list \<Rightarrow> addr \<Rightarrow> 'v option" where
  "lookupScan [] src = None"
| "lookupScan ((s, v) # rest) src =
     (if \<not> p_IsValid s then lookupScan rest src
      else if Contains s src then Some v else lookupScan rest src)"

definition lookupNode :: "'v srcEntry list \<Rightarrow> 'v option \<Rightarrow> addr \<Rightarrow> 'v option" where
  "lookupNode es any src =
     (case (case indexSrcs es of Some byLen \<Rightarrow> lookupIndex byLen src | None \<Rightarrow> lookupScan es src) of
        Some v \<Rightarrow> Some v
      | None \<Rightarrow> any)"

fun lookupLoop :: "'v trieNode \<Rightarrow> addr \<Rightarrow> u128 \<Rightarrow> 'v option \<Rightarrow> 'v option" where
  "lookupLoop Nil_node src a result = result"
| "lookupLoop (trieNode na nlen bi bs es any c0 c1) src a result =
     (if matches na nlen (hi64 a) (lo64 a) then
        let result' = (case lookupNode es any src of Some v \<Rightarrow> Some v | None \<Rightarrow> result)
        in if nlen = 128 then result'
           else if drop_bit bs (byte_at a bi) AND 1 = 0 then lookupLoop c0 src a result'
           else lookupLoop c1 src a result'
      else result)"

definition Table_Lookup :: "'v Table \<Rightarrow> addr \<Rightarrow> addr \<Rightarrow> 'v option" where
  "Table_Lookup t src dst =
     (case t of None \<Rightarrow> None
      | Some current \<Rightarrow>
          if \<not> a_IsValid dst then None
          else lookupLoop (if Is4 dst then ipv4 current else ipv6 current) src (As16 dst) None)"

fun walk :: "'v trieNode \<Rightarrow> bool \<Rightarrow> 'v Route list" where
  "walk Nil_node v4 = []"
| "walk (trieNode na nlen bi bs es any c0 c1) v4 =
     (let p = Masked (if v4 then PrefixFrom (Unmap (Addr6 na)) (int nlen - 96)
                      else PrefixFrom (Addr6 na) (int nlen))
      in map (\<lambda>(s, v). \<lparr>Source = s, Destination = p, Value = v\<rparr>) es @ walk c0 v4 @ walk c1 v4)"

definition Table_All :: "'v Table \<Rightarrow> 'v Route list" where
  "Table_All t = (case t of None \<Rightarrow> [] | Some snapshot \<Rightarrow> walk (ipv4 snapshot) True @ walk (ipv6 snapshot) False)"

section \<open>Leading bits\<close>

text \<open>\<open>agree k a b\<close>: the first \<open>k\<close> bits, most significant first, are the same.\<close>

definition agree :: "nat \<Rightarrow> u128 \<Rightarrow> u128 \<Rightarrow> bool" where
  "agree k a b \<longleftrightarrow> (\<forall>i<k. bit a (127 - i) = bit b (127 - i))"

lemma agree_refl [simp]: "agree k a a"
  by (simp add: agree_def)

lemma agree_sym: "agree k a b = agree k b a"
  by (auto simp: agree_def)

lemma agree_trans: "agree k a b \<Longrightarrow> agree k b c \<Longrightarrow> agree k a c"
  by (simp add: agree_def)

lemma agree_le: "agree k a b \<Longrightarrow> j \<le> k \<Longrightarrow> agree j a b"
  by (auto simp: agree_def)

lemma agree_Suc: "agree (Suc k) a b \<longleftrightarrow> agree k a b \<and> bit a (127 - k) = bit b (127 - k)"
  by (auto simp: agree_def less_Suc_eq)

lemma le_length_takeWhile:
  "k \<le> length xs \<Longrightarrow> k \<le> length (takeWhile P xs) \<longleftrightarrow> (\<forall>i<k. P (xs ! i))"
proof (induction xs arbitrary: k)
  case (Cons x xs)
  then show ?case by (cases k) (auto simp: less_Suc_eq_0_disj)
qed simp

lemma le_LeadingZeros64: "k \<le> 64 \<Longrightarrow> k \<le> LeadingZeros64 x \<longleftrightarrow> (\<forall>i<k. \<not> bit x (63 - i))"
  unfolding LeadingZeros64_def by (subst le_length_takeWhile) (auto simp del: upt_Suc)

lemma LeadingZeros64_le: "LeadingZeros64 x \<le> 64"
  unfolding LeadingZeros64_def using length_takeWhile_le [of _ "[0..<64]"] by (metis length_upt diff_zero)

lemma bit_hi64: "bit (hi64 a) j \<longleftrightarrow> j < 64 \<and> bit a (64 + j)"
  by (auto simp: hi64_def bit_simps)

lemma bit_lo64: "bit (lo64 a) j \<longleftrightarrow> j < 64 \<and> bit a j"
  by (auto simp: lo64_def bit_simps)

lemma agree_split: "64 \<le> k \<Longrightarrow> agree k a b \<longleftrightarrow> agree 64 a b \<and> (\<forall>i<k - 64. bit a (63 - i) = bit b (63 - i))"
proof -
  assume "64 \<le> k"
  then obtain j where k: "k = 64 + j" using le_Suc_ex by blast
  have "(\<forall>i<64 + j. P i) \<longleftrightarrow> (\<forall>i<64. P i) \<and> (\<forall>i<j. P (64 + i))" for P :: "nat \<Rightarrow> bool"
  proof (intro iffI conjI allI impI)
    fix i assume "(\<forall>i<64. P i) \<and> (\<forall>i<j. P (64 + i))" "i < 64 + j"
    then show "P i" by (cases "i < 64") (auto dest: spec [where x = "i - 64"])
  qed auto
  from this [of "\<lambda>i. bit a (127 - i) = bit b (127 - i)"] show ?thesis
    by (simp add: agree_def k)
qed

lemma le_lz_hi: "k \<le> 64 \<Longrightarrow> k \<le> LeadingZeros64 (hi64 a XOR hi64 b) \<longleftrightarrow> agree k a b"
  by (auto simp: le_LeadingZeros64 agree_def bit_simps bit_hi64 less_imp_diff_less)

lemma le_lz_lo: "k \<le> 64 \<Longrightarrow> k \<le> LeadingZeros64 (lo64 a XOR lo64 b) \<longleftrightarrow> (\<forall>i<k. bit a (63 - i) = bit b (63 - i))"
  by (auto simp: le_LeadingZeros64 bit_simps bit_lo64 less_imp_diff_less)

lemma le_commonBits:
  assumes "k \<le> 128"
  shows "k \<le> commonBits a b \<longleftrightarrow> agree k a b"
proof (cases "LeadingZeros64 (hi64 a XOR hi64 b) = 64")
  case True
  then have hi: "agree 64 a b" using le_lz_hi [of 64 a b] by simp
  show ?thesis
  proof (cases "k \<le> 64")
    case True
    then show ?thesis using hi agree_le \<open>LeadingZeros64 _ = 64\<close> by (auto simp: commonBits_def)
  next
    case False
    have "k \<le> commonBits a b \<longleftrightarrow> k - 64 \<le> LeadingZeros64 (lo64 a XOR lo64 b)"
      using True False by (auto simp: commonBits_def Let_def)
    also have "\<dots> \<longleftrightarrow> agree k a b"
      using hi False assms agree_split [of k a b] by (simp only: le_lz_lo [of "k - 64"] diff_le_mono [of k 128 64, simplified]) simp
    finally show ?thesis .
  qed
next
  case False
  let ?lz = "LeadingZeros64 (hi64 a XOR hi64 b)"
  have lt: "?lz < 64" using False LeadingZeros64_le [of "hi64 a XOR hi64 b"] by simp
  then have "\<not> agree (Suc ?lz) a b" using le_lz_hi [of "Suc ?lz" a b] by simp
  then show ?thesis
    using False lt le_lz_hi [of k a b] agree_le [of k a b "Suc ?lz"] by (cases "k \<le> 64") (auto simp: commonBits_def)
qed

lemma drop_bit_zero_iff:
  fixes x :: u64
  assumes "len \<le> 64"
  shows "drop_bit (64 - len) x = 0 \<longleftrightarrow> len \<le> LeadingZeros64 x"
proof -
  have "drop_bit (64 - len) x = 0 \<longleftrightarrow> (\<forall>j. \<not> bit x (64 - len + j))"
    by (simp only: word_zero_bits bit_drop_bit_eq comp_def)
  also have "\<dots> \<longleftrightarrow> (\<forall>i<len. \<not> bit x (63 - i))"
  proof (intro iffI allI impI)
    fix i assume l: "\<forall>j. \<not> bit x (64 - len + j)" and "i < len"
    then show "\<not> bit x (63 - i)" using assms spec [OF l, of "len - 1 - i"] by simp
  next
    fix j assume r: "\<forall>i<len. \<not> bit x (63 - i)"
    show "\<not> bit x (64 - len + j)"
    proof (cases "j < len")
      case True
      then show ?thesis using assms spec [OF r, of "len - 1 - j"] by simp
    next
      case False
      then show ?thesis using assms bit_imp_le_length [of x "64 - len + j"] by auto
    qed
  qed
  finally show ?thesis using assms by (simp add: le_LeadingZeros64)
qed

lemma matches_iff:
  assumes "len \<le> 128"
  shows "matches a len (hi64 b) (lo64 b) \<longleftrightarrow> agree len a b"
proof (cases "len \<le> 64")
  case True
  then show ?thesis by (simp only: matches_def Let_def drop_bit_zero_iff le_lz_hi if_True)
next
  case False
  have "hi64 a XOR hi64 b = 0 \<longleftrightarrow> agree 64 a b"
    using drop_bit_zero_iff [of 64 "hi64 a XOR hi64 b"] by (simp add: le_lz_hi)
  moreover have "drop_bit (128 - len) (lo64 a XOR lo64 b) = 0 \<longleftrightarrow> (\<forall>i<len - 64. bit a (63 - i) = bit b (63 - i))"
  proof -
    have "128 - len = 64 - (len - 64)" "len - 64 \<le> 64" using False assms by simp_all
    then show ?thesis by (simp only: drop_bit_zero_iff le_lz_lo)
  qed
  ultimately show ?thesis using False agree_split [of len a b] by (simp only: matches_def Let_def if_False)
qed

lemma bit_byte_at: "i < 16 \<Longrightarrow> bit (byte_at a i) j \<longleftrightarrow> j < 8 \<and> bit a (8 * (15 - i) + j)"
  by (auto simp: byte_at_def bit_simps)

lemma word_and_1: "(w :: 'a::len word) AND 1 = of_bool (bit w 0)"
  by (simp only: and_one_eq mod_2_eq_odd bit_0)

lemma branch_shift:
  assumes "k < 128"
  shows "drop_bit (7 - k mod 8) (byte_at a (k div 8)) AND 1 = of_bool (bit a (127 - k))"
proof -
  have "8 * (15 - k div 8) + (7 - k mod 8) = 127 - k"
  proof -
    define q r where "q = k div 8" and "r = k mod 8"
    have "k = 8 * q + r" "r < 8" "q < 16" using assms by (auto simp: q_def r_def)
    then show ?thesis unfolding q_def [symmetric] r_def [symmetric] by simp
  qed
  moreover have "k div 8 < 16" "7 - k mod 8 < 8" using assms by (simp_all add: less_imp_diff_less)
  ultimately show ?thesis
    by (simp add: word_and_1 bit_drop_bit_eq bit_byte_at)
qed

lemma branch_bit: "k < 128 \<Longrightarrow> branch a k = of_bool (bit a (127 - k))"
  by (simp add: branch_def branch_shift)

section \<open>The trie\<close>

text \<open>
  \<open>under a k b n\<close>: the node \<open>n\<close>, if there is one, lies strictly below the first \<open>k\<close> bits of \<open>a\<close> on
  the branch \<open>b\<close>. \<open>trie_ok\<close> is the invariant of a published trie: cached fields consistent, children
  below their node, no node without sources that has fewer than two children.
\<close>

fun under :: "u128 \<Rightarrow> nat \<Rightarrow> bool \<Rightarrow> 'v trieNode \<Rightarrow> bool" where
  "under a k b Nil_node = True"
| "under a k b (trieNode na nlen bi bs es any c0 c1) \<longleftrightarrow> k < nlen \<and> agree k a na \<and> bit na (127 - k) = b"

fun trie_ok :: "('v srcEntry list \<Rightarrow> bool) \<Rightarrow> 'v trieNode \<Rightarrow> bool" where
  "trie_ok ok Nil_node = True"
| "trie_ok ok (trieNode a len bi bs es any c0 c1) \<longleftrightarrow>
     len \<le> 128 \<and> bi = len div 8 \<and> bs = 7 - len mod 8 \<and> any = matchAllSource es \<and> ok es \<and>
     (es = [] \<longrightarrow> c0 \<noteq> Nil_node \<and> c1 \<noteq> Nil_node) \<and>
     under a len False c0 \<and> under a len True c1 \<and> trie_ok ok c0 \<and> trie_ok ok c1"

text \<open>The sources held for the first \<open>k\<close> bits of \<open>a\<close>: the abstraction of a trie.\<close>

fun srcs_at :: "'v trieNode \<Rightarrow> u128 \<Rightarrow> nat \<Rightarrow> 'v srcEntry list" where
  "srcs_at Nil_node a k = []"
| "srcs_at (trieNode na nlen bi bs es any c0 c1) a k =
     (if k < nlen \<or> \<not> agree nlen na a then []
      else if k = nlen then es
      else srcs_at (if bit a (127 - nlen) then c1 else c0) a k)"

lemma srcs_at_cong: "agree k a a' \<Longrightarrow> srcs_at n a k = srcs_at n a' k"
proof (induction n)
  case (trieNode na nlen bi bs es any c0 c1)
  have "agree nlen na a = agree nlen na a'" if "nlen \<le> k"
    using trieNode.prems that by (auto simp: agree_def)
  moreover have "bit a (127 - nlen) = bit a' (127 - nlen)" if "nlen < k"
    using trieNode.prems that by (simp add: agree_def)
  ultimately show ?case using trieNode by auto
qed simp

lemma under_srcs_at:
  assumes "under na nlen b c" "\<not> (nlen < k \<and> agree nlen na a \<and> bit a (127 - nlen) = b)"
  shows "srcs_at c a k = []"
proof (cases c)
  case (trieNode ca clen bi bs es any c0 c1)
  then have c: "nlen < clen" "agree nlen na ca" "bit ca (127 - nlen) = b" using assms(1) by simp_all
  have "k < clen \<or> \<not> agree clen ca a"
  proof (rule ccontr)
    assume "\<not> (k < clen \<or> \<not> agree clen ca a)"
    then have g: "agree clen ca a" "nlen < k" using c(1) by auto
    have "agree (Suc nlen) ca a" using g(1) c(1) by (auto intro: agree_le)
    then have "agree nlen na a" "bit a (127 - nlen) = b"
      using c(2,3) by (auto simp: agree_Suc intro: agree_trans)
    then show False using assms(2) g(2) by simp
  qed
  then show ?thesis by (simp add: trieNode)
qed simp

lemma under_below:
  assumes "under a k b (trieNode na nlen bi bs es any c0 c1)" "under na nlen d c"
  shows "under a k b c"
proof (cases c)
  case (trieNode ca clen cbi cbs ces cany d0 d1)
  then have "k < nlen" "agree k a na" "bit na (127 - k) = b" "nlen < clen" "agree nlen na ca"
    using assms by simp_all
  then show ?thesis
    using agree_le [of nlen na ca "Suc k"] by (auto simp: trieNode agree_Suc intro: agree_trans)
qed simp

definition node_ok :: "('v srcEntry list \<Rightarrow> bool) \<Rightarrow> 'v trieNode \<Rightarrow> bool" where
  "node_ok ok n \<longleftrightarrow> (case n of Nil_node \<Rightarrow> True | trieNode a len bi bs es any c0 c1 \<Rightarrow>
     len \<le> 128 \<and> bi = len div 8 \<and> bs = 7 - len mod 8 \<and> any = matchAllSource es \<and> ok es \<and>
     under a len False c0 \<and> under a len True c1 \<and> trie_ok ok c0 \<and> trie_ok ok c1)"

lemma compact_ok:
  assumes "node_ok ok n"
  shows "trie_ok ok (compact n)" "srcs_at (compact n) a k = srcs_at n a k"
    "under a' k' b n \<Longrightarrow> under a' k' b (compact n)"
proof -
  show "trie_ok ok (compact n)" using assms by (cases n) (auto simp: node_ok_def)
  show "srcs_at (compact n) a k = srcs_at n a k"
  proof (cases n)
    case (trieNode na nlen bi bs es any c0 c1)
    then have u: "under na nlen False c0" "under na nlen True c1" using assms by (simp_all add: node_ok_def)
    show ?thesis
      using under_srcs_at [OF u(1), of k a] under_srcs_at [OF u(2), of k a] by (auto simp: trieNode)
  qed simp
  show "under a' k' b n \<Longrightarrow> under a' k' b (compact n)"
    using assms under_below by (cases n) (auto simp: node_ok_def simp del: under.simps)
qed

lemma common_split:
  assumes "nlen \<le> 128" "len \<le> 128"
    and common_def: "common = min (commonBits na a) (min nlen len)"
  shows "agree common na a" "common \<le> nlen" "common \<le> len"
    "common < nlen \<Longrightarrow> common < len \<Longrightarrow> bit na (127 - common) \<noteq> bit a (127 - common)"
    "common = nlen \<longleftrightarrow> nlen \<le> len \<and> agree nlen na a"
proof -
  have c: "common \<le> 128" using assms by simp
  show g: "agree common na a" using le_commonBits [OF c, of na a] by (simp add: common_def)
  show "common \<le> nlen" "common \<le> len" by (simp_all add: common_def)
  show "bit na (127 - common) \<noteq> bit a (127 - common)" if "common < nlen" "common < len"
  proof -
    have "commonBits na a < Suc common" "Suc common \<le> 128" using that assms by (auto simp: common_def)
    then have "\<not> agree (Suc common) na a" using le_commonBits [of "Suc common" na a] by simp
    then show ?thesis using g by (simp add: agree_Suc)
  qed
  show "common = nlen \<longleftrightarrow> nlen \<le> len \<and> agree nlen na a"
    using le_commonBits [OF assms(1), of na a] by (auto simp: common_def)
qed

text \<open>A new parent for a node that the edited prefix leaves, or stops above.\<close>

lemma edit_above:
  fixes n :: "'v trieNode"
  assumes n_def: "n = trieNode na nlen bi bs nes any c0 c1"
    and parent_def: "parent = setChild (branch na len) n (newTrieNode a len [])"
    and ok: "trie_ok ok n" and len: "len < nlen" and ag: "agree len na a" and es: "ok es" "es \<noteq> []"
  shows "trie_ok ok (setSrcs es parent)"
    "srcs_at (setSrcs es parent) a' k = (if k = len \<and> agree len a a' then es else srcs_at n a' k)"
    "k' < len \<Longrightarrow> agree k' a0 a \<Longrightarrow> bit a (127 - k') = b \<Longrightarrow> under a0 k' b (setSrcs es parent)"
proof -
  have l: "nlen \<le> 128" "len < 128" using ok len by (simp_all add: n_def)
  have br: "branch na len = of_bool (bit na (127 - len))" by (rule branch_bit [OF l(2)])
  have u: "under a len (bit na (127 - len)) n" using len ag by (simp add: n_def agree_sym)
  show "trie_ok ok (setSrcs es parent)"
    using ok es l u by (auto simp: parent_def newTrieNode_def br)
  show "srcs_at (setSrcs es parent) a' k = (if k = len \<and> agree len a a' then es else srcs_at n a' k)"
    using under_srcs_at [OF u, of k a'] by (auto simp: parent_def newTrieNode_def br)
  show "k' < len \<Longrightarrow> agree k' a0 a \<Longrightarrow> bit a (127 - k') = b \<Longrightarrow> under a0 k' b (setSrcs es parent)"
    by (simp add: parent_def newTrieNode_def)
qed

lemma edit_beside:
  fixes n :: "'v trieNode"
  assumes n_def: "n = trieNode na nlen bi bs nes any c0 c1"
    and parent_def: "parent = setChild (branch na common) n (newTrieNode a common [])"
    and ok: "trie_ok ok n" and c: "common < nlen" "common < len" "len \<le> 128" and ag: "agree common na a"
    and b: "bit na (127 - common) \<noteq> bit a (127 - common)" and es: "ok es" "es \<noteq> []" "ok []"
    and r_def: "r = setChild (branch a common) (newTrieNode a len es) parent"
  shows "trie_ok ok r"
    "srcs_at r a' k = (if k = len \<and> agree len a a' then es else srcs_at n a' k)"
    "under a0 k' d n \<Longrightarrow> k' < len \<Longrightarrow> agree k' a0 a \<Longrightarrow> bit a (127 - k') = d \<Longrightarrow> under a0 k' d r"
proof -
  let ?leaf = "newTrieNode a len es"
  have l: "common < 128" using c by simp
  have br: "branch na common = of_bool (bit na (127 - common))" "branch a common = of_bool (bit a (127 - common))"
    by (rule branch_bit [OF l])+
  have u: "under a common (bit na (127 - common)) n" "under a common (bit a (127 - common)) ?leaf"
    using c ag by (simp_all add: n_def newTrieNode_def agree_sym)
  have r: "r = trieNode a common (common div 8) (7 - common mod 8) [] None
      (if bit a (127 - common) then n else ?leaf) (if bit a (127 - common) then ?leaf else n)"
    using b by (simp add: r_def parent_def newTrieNode_def br)
  have leaf: "trie_ok ok ?leaf" "?leaf \<noteq> Nil_node" "n \<noteq> Nil_node"
    using c es by (auto simp: newTrieNode_def n_def)
  show "trie_ok ok r"
    unfolding r using ok es l u b leaf by auto
  have leaf_at: "srcs_at ?leaf a' k = (if k = len \<and> agree len a a' then es else [])"
    by (simp add: newTrieNode_def)
  have sub: "agree common a a'" "bit a' (127 - common) = bit a (127 - common)" if "agree len a a'"
    using agree_le [OF that, of "Suc common"] c by (auto simp: agree_Suc)
  show "srcs_at r a' k = (if k = len \<and> agree len a a' then es else srcs_at n a' k)"
    unfolding r using under_srcs_at [OF u(1), of k a'] under_srcs_at [OF u(2), of k a'] b sub leaf_at c
    by (cases "k = len \<and> agree len a a'") (auto simp: leaf_at)
  show "under a0 k' d r" if k: "under a0 k' d n" "k' < len" "agree k' a0 a" "bit a (127 - k') = d"
  proof -
    have "k' < common"
    proof (rule ccontr)
      assume "\<not> k' < common"
      then have "common \<le> k'" by simp
      show False
      proof (cases "common = k'")
        case True
        then show False using k(1,4) b by (simp add: n_def)
      next
        case False
        then have "Suc common \<le> k'" using \<open>common \<le> k'\<close> by simp
        then have "agree (Suc common) a0 na" "agree (Suc common) a0 a"
          using k by (auto simp: n_def intro: agree_le)
        then show False using b by (simp add: agree_Suc)
      qed
    qed
    then show ?thesis unfolding r using k by simp
  qed
qed

text \<open>Replacing the child on the path of the edited prefix.\<close>

lemma edit_down:
  fixes na nlen bi bs nes any c0 c1 a
  defines "n \<equiv> trieNode na nlen bi bs nes any c0 c1" and "c \<equiv> if bit a (127 - nlen) then c1 else c0"
  assumes ok: "trie_ok ok (trieNode na nlen bi bs nes any c0 c1)" and lt: "nlen < len" and ag: "agree nlen na a"
    and c': "trie_ok ok c'" "under na nlen (bit a (127 - nlen)) c'"
      "\<forall>a' k. srcs_at c' a' k = (if k = len \<and> agree len a a' then f (srcs_at c a len) else srcs_at c a' k)"
  shows "node_ok ok (setChild (of_bool (bit a (127 - nlen))) c' n) \<and>
    (\<forall>a' k. srcs_at (setChild (of_bool (bit a (127 - nlen))) c' n) a' k =
       (if k = len \<and> agree len a a' then f (srcs_at n a len) else srcs_at n a' k)) \<and>
    (\<forall>a0 k b. under a0 k b n \<longrightarrow> under a0 k b (setChild (of_bool (bit a (127 - nlen))) c' n))"
proof (intro conjI allI impI)
  let ?m = "setChild (of_bool (bit a (127 - nlen))) c' n"
  show "node_ok ok ?m" using ok c'(1,2) by (cases "bit a (127 - nlen)") (simp_all add: n_def node_ok_def)
  show "under a0 k b n \<Longrightarrow> under a0 k b ?m" for a0 k b by (simp add: n_def)
  fix a' k
  have sub: "agree nlen na a' \<and> bit a' (127 - nlen) = bit a (127 - nlen)" if "agree len a a'"
    using agree_le [OF that, of "Suc nlen"] lt ag by (auto simp: agree_Suc intro: agree_trans)
  have at: "srcs_at n a len = srcs_at c a len" using lt ag by (simp add: n_def c_def)
  show "srcs_at ?m a' k = (if k = len \<and> agree len a a' then f (srcs_at n a len) else srcs_at n a' k)"
  proof (cases "k \<le> nlen \<or> \<not> agree nlen na a' \<or> bit a' (127 - nlen) \<noteq> bit a (127 - nlen)")
    case True
    then have "srcs_at ?m a' k = srcs_at n a' k" by (auto simp: n_def)
    then show ?thesis using True sub lt by auto
  next
    case False
    then have "srcs_at ?m a' k = srcs_at c' a' k" "srcs_at n a' k = srcs_at c a' k"
      by (auto simp: n_def c_def)
    then show ?thesis using c'(3) at by simp
  qed
qed

lemma edit_node:
  fixes na nlen bi bs nes any c0 c1 a len f
  defines "n \<equiv> trieNode na nlen bi bs nes any c0 c1" and "common \<equiv> min (commonBits na a) (min nlen len)"
  shows "edit n a len f = (if common < nlen then if f [] = [] then n
      else if common = len then setSrcs (f []) (setChild (branch na common) n (newTrieNode a common []))
      else setChild (branch a common) (newTrieNode a len (f [])) (setChild (branch na common) n (newTrieNode a common []))
    else compact (if nlen = len then setSrcs (f nes) n else
      setChild (branch a nlen) (if branch a nlen = 0 then edit c0 a len f else edit c1 a len f) n))"
  by (simp only: n_def common_def edit.simps Let_def)

text \<open>What \<open>edit\<close> has to achieve at a node.\<close>

definition edited ::
  "('v srcEntry list \<Rightarrow> bool) \<Rightarrow> 'v trieNode \<Rightarrow> u128 \<Rightarrow> nat \<Rightarrow> ('v srcEntry list \<Rightarrow> 'v srcEntry list) \<Rightarrow> 'v trieNode \<Rightarrow> bool" where
  "edited ok n a len f r \<longleftrightarrow> trie_ok ok r \<and>
    (\<forall>a' k. srcs_at r a' k = (if k = len \<and> agree len a a' then f (srcs_at n a len) else srcs_at n a' k)) \<and>
    (\<forall>a0 k b. under a0 k b n \<longrightarrow> k < len \<longrightarrow> agree k a0 a \<longrightarrow> bit a (127 - k) = b \<longrightarrow> under a0 k b r)"

lemmas node_simps = under.simps srcs_at.simps trie_ok.simps edit.simps setChild.simps

lemma edit_leaves:
  assumes ok: "trie_ok ok (trieNode na nlen bi bs nes any c0 c1)" and len: "len \<le> 128" and nil: "ok []" "ok (f [])"
    and out: "min (commonBits na a) (min nlen len) < nlen"
  shows "edited ok (trieNode na nlen bi bs nes any c0 c1) a len f (edit (trieNode na nlen bi bs nes any c0 c1) a len f)"
proof -
  let ?n = "trieNode na nlen bi bs nes any c0 c1"
  define common where common_def: "common = min (commonBits na a) (min nlen len)"
  have nlen: "nlen \<le> 128" using ok by simp
  note cs = common_split [OF nlen len common_def]
  note e0 = edit_node [of na nlen bi bs nes any c0 c1 a len f, folded common_def]
  have lt: "common < nlen" using out by (simp add: common_def)
  then have "\<not> (nlen \<le> len \<and> agree nlen na a)" using cs(5) by simp
  then have none: "srcs_at ?n a' len = []" if "agree len a a'" for a'
    using srcs_at_cong [OF that, of ?n] by auto
  consider "f [] = []" | "f [] \<noteq> []" "common = len" | "f [] \<noteq> []" "common < len" using cs(3) by linarith
  then show ?thesis
  proof cases
    case 1
    then have "edit ?n a len f = ?n" using lt by (simp only: e0 simp_thms if_True)
    then show ?thesis using ok 1 none by (simp add: edited_def del: node_simps)
  next
    case 2
    then have e: "edit ?n a len f = setSrcs (f []) (setChild (branch na len) ?n (newTrieNode a len []))"
      using lt by (simp only: e0 simp_thms if_True if_False)
    have "len < nlen" "agree len na a" using lt 2 cs(1) by simp_all
    note ab = edit_above [OF refl refl ok this nil(2) 2(1)]
    show ?thesis unfolding e edited_def using ab none [of a] by (simp del: node_simps)
  next
    case 3
    then have e: "edit ?n a len f = setChild (branch a common) (newTrieNode a len (f []))
        (setChild (branch na common) ?n (newTrieNode a common []))"
      using lt by (simp only: e0 simp_thms if_True if_False less_imp_neq)
    note be = edit_beside [OF refl refl ok lt 3(2) len cs(1) cs(4) [OF lt 3(2)] nil(2) 3(1) nil(1) refl]
    show ?thesis unfolding e edited_def using be none [of a] by (simp del: node_simps)
  qed
qed

lemma edit_ok:
  assumes "trie_ok ok n" "len \<le> 128" "ok []" and keep: "\<And>es. ok es \<Longrightarrow> ok (f es)"
  shows "edited ok n a len f (edit n a len f)"
  using assms(1)
proof (induction n)
  case Nil_node
  then show ?case using assms(2,3) keep [of "[]"] by (auto simp: edited_def newTrieNode_def Let_def)
next
  case (trieNode na nlen bi bs nes any c0 c1)
  let ?n = "trieNode na nlen bi bs nes any c0 c1" and ?b = "bit a (127 - nlen)"
  note ok = trieNode.prems
  show ?case
  proof (cases "min (commonBits na a) (min nlen len) < nlen")
    case True
    show ?thesis by (rule edit_leaves [where f = f, OF ok assms(2,3) keep [OF assms(3)] True])
  next
    case False
    then have below: "nlen \<le> len" "agree nlen na a" using common_split(5) [OF _ assms(2) refl, of nlen na a] ok by auto
    define m where "m = (if nlen = len then setSrcs (f nes) ?n else
      setChild (branch a nlen) (if branch a nlen = 0 then edit c0 a len f else edit c1 a len f) ?n)"
    have e: "edit ?n a len f = compact m" using False by (simp only: edit_node m_def if_False)
    have m: "node_ok ok m \<and>
      (\<forall>a' k. srcs_at m a' k = (if k = len \<and> agree len a a' then f (srcs_at ?n a len) else srcs_at ?n a' k)) \<and>
      (\<forall>a0 k b. under a0 k b ?n \<longrightarrow> under a0 k b m)"
    proof (cases "nlen = len")
      case True
      then show ?thesis
        using ok keep below agree_trans [of nlen a na] agree_trans [of nlen na a]
        by (auto simp: m_def node_ok_def agree_sym)
    next
      case False
      then have lt: "nlen < len" "nlen < 128" using below assms(2) by simp_all
      let ?c = "if ?b then c1 else c0"
      have c: "trie_ok ok ?c" "under na nlen ?b ?c" using ok by (cases ?b; simp)+
      have "edited ok ?c a len f (edit ?c a len f)" using trieNode.IH c(1) by (cases ?b) simp_all
      then have "trie_ok ok (edit ?c a len f)" "under na nlen ?b (edit ?c a len f)"
        "\<forall>a' k. srcs_at (edit ?c a len f) a' k = (if k = len \<and> agree len a a' then f (srcs_at ?c a len) else srcs_at ?c a' k)"
        unfolding edited_def using c(2) lt(1) below(2) by blast+
      from edit_down [where f = f, OF ok lt(1) below(2) this] show ?thesis
        using False by (cases ?b) (simp_all add: m_def branch_bit [OF lt(2)] del: node_simps)
    qed
    show ?thesis
      unfolding e edited_def using compact_ok [OF m [THEN conjunct1]] m by (simp del: node_simps)
  qed
qed

lemma removeValue_ok:
  assumes "trie_ok ok n" and keep: "\<And>es. ok es \<Longrightarrow> ok (filter (\<lambda>(s, v). v \<noteq> value) es)"
  shows "trie_ok ok (removeValue n value) \<and>
    (\<forall>a k. srcs_at (removeValue n value) a k = filter (\<lambda>(s, v). v \<noteq> value) (srcs_at n a k)) \<and>
    (\<forall>a k b. under a k b n \<longrightarrow> under a k b (removeValue n value))"
  using assms(1)
proof (induction n)
  case (trieNode na nlen bi bs es any c0 c1)
  let ?f = "filter (\<lambda>(s, v). v \<noteq> value)" and ?l = "removeValue c0 value" and ?r = "removeValue c1 value"
  let ?n = "trieNode na nlen bi bs es any c0 c1"
  define m where "m = trieNode na nlen bi bs (?f es) (matchAllSource (?f es)) ?l ?r"
  have id: "?f es = es" if "\<not> list_ex (\<lambda>(s, v). v = value) es"
    using that by (auto simp: list_ex_iff filter_id_conv)
  have ok: "trie_ok ok c0" "trie_ok ok c1" "under na nlen False c0" "under na nlen True c1" "ok es"
    "any = matchAllSource es"
    using trieNode.prems by simp_all
  note IH = trieNode.IH(1) [OF ok(1)] trieNode.IH(2) [OF ok(2)]
  have m: "node_ok ok m" "srcs_at m a k = ?f (srcs_at ?n a k)" "under a k b ?n \<Longrightarrow> under a k b m" for a k b
    using trieNode.prems IH ok keep by (simp_all add: m_def node_ok_def)
  have "removeValue ?n value = ?n \<and> m = ?n \<or> removeValue ?n value = compact m"
    using id ok(6) by (auto simp: m_def Let_def)
  then show ?case
  proof
    assume "removeValue ?n value = ?n \<and> m = ?n"
    then show ?case using m trieNode.prems by metis
  next
    assume "removeValue ?n value = compact m"
    then show ?case using m compact_ok [OF m(1)] by (simp del: node_simps)
  qed
qed simp

text \<open>The walk down the trie keeps the answer of the deepest node that has one.\<close>

definition nodeBest :: "'v srcEntry list \<Rightarrow> addr \<Rightarrow> 'v option" where
  "nodeBest es src = lookupNode es (matchAllSource es) src"

lemma nodeBest_Nil [simp]: "nodeBest [] src = None"
  by (simp add: nodeBest_def lookupNode_def indexSrcs_def)

lemma lookupLoop_deepest:
  assumes "trie_ok ok n"
  shows "(\<exists>k v. lookupLoop n src a r = Some v \<and> nodeBest (srcs_at n a k) src = Some v \<and>
            (\<forall>k'>k. nodeBest (srcs_at n a k') src = None)) \<or>
         lookupLoop n src a r = r \<and> (\<forall>k. nodeBest (srcs_at n a k) src = None)"
  using assms
proof (induction n arbitrary: r)
  case (trieNode na nlen bi bs es any c0 c1)
  let ?n = "trieNode na nlen bi bs es any c0 c1"
  have ok: "nlen \<le> 128" "any = matchAllSource es" "under na nlen False c0" "under na nlen True c1"
    "trie_ok ok c0" "trie_ok ok c1" "bi = nlen div 8" "bs = 7 - nlen mod 8"
    using trieNode.prems by simp_all
  show ?case
  proof (cases "agree nlen na a")
    case False
    then show ?thesis using matches_iff [OF ok(1), of na a] by simp
  next
    case True
    let ?r = "case nodeBest es src of Some v \<Rightarrow> Some v | None \<Rightarrow> r"
    let ?c = "if bit a (127 - nlen) then c1 else c0"
    have loop: "lookupLoop ?n src a r = lookupLoop ?c src a ?r"
    proof (cases "nlen = 128")
      case True
      then have "c0 = Nil_node" "c1 = Nil_node"
        using ok(3-6) by (cases c0; cases c1; simp)+
      then show ?thesis
        using matches_iff [OF ok(1), of na a] \<open>agree nlen na a\<close> True by (simp add: nodeBest_def ok(2))
    next
      case False
      then have "nlen < 128" using ok(1) by simp
      then show ?thesis
        using matches_iff [OF ok(1), of na a] True False by (simp add: nodeBest_def ok(2,7,8) branch_shift Let_def)
    qed
    have c: "trie_ok ok ?c" "under na nlen (bit a (127 - nlen)) ?c" using ok by (cases "bit a (127 - nlen)"; simp)+
    have low: "srcs_at ?c a k = []" if "k \<le> nlen" for k using under_srcs_at [OF c(2), of k a] that by simp
    have at: "srcs_at ?n a k = (if k < nlen then [] else if k = nlen then es else srcs_at ?c a k)" for k
      using True by simp
    have "(\<exists>k v. lookupLoop ?c src a ?r = Some v \<and> nodeBest (srcs_at ?c a k) src = Some v \<and>
            (\<forall>k'>k. nodeBest (srcs_at ?c a k') src = None)) \<or>
         lookupLoop ?c src a ?r = ?r \<and> (\<forall>k. nodeBest (srcs_at ?c a k) src = None)"
      using trieNode.IH c(1) by (cases "bit a (127 - nlen)") simp_all
    then show ?thesis
    proof (elim disjE exE conjE)
      fix k v
      assume k: "lookupLoop ?c src a ?r = Some v" "nodeBest (srcs_at ?c a k) src = Some v"
        "\<forall>k'>k. nodeBest (srcs_at ?c a k') src = None"
      then have "nlen < k" using low [of k] by (cases "k \<le> nlen") auto
      then show ?thesis unfolding loop at using k by auto
    next
      assume "lookupLoop ?c src a ?r = ?r" "\<forall>k. nodeBest (srcs_at ?c a k) src = None"
      then show ?thesis unfolding loop at by (cases "nodeBest es src") auto
    qed
  qed
qed simp

section \<open>The sources of one node\<close>

text \<open>Longest first, no source twice, canonical, all of one family.\<close>

definition srcs_ok :: "nat \<Rightarrow> 'v srcEntry list \<Rightarrow> bool" where
  "srcs_ok fam es \<longleftrightarrow> sorted_wrt (\<lambda>x y. p_Bits (fst y) \<le> p_Bits (fst x)) es \<and> distinct (map fst es) \<and>
     (\<forall>s\<in>fst ` set es. prefix_ok s \<and> Masked s = s \<and> (p_IsValid s \<longrightarrow> BitLen (p_ip s) = fam))"

lemma srcs_ok_Nil [simp]: "srcs_ok fam []"
  by (simp add: srcs_ok_def)

lemma srcs_ok_Cons:
  "srcs_ok fam ((s, v) # es) \<longleftrightarrow> srcs_ok fam es \<and> s \<notin> fst ` set es \<and> (\<forall>x\<in>set es. p_Bits (fst x) \<le> p_Bits s) \<and>
     prefix_ok s \<and> Masked s = s \<and> (p_IsValid s \<longrightarrow> BitLen (p_ip s) = fam)"
  by (auto simp: srcs_ok_def)

lemma srcs_ok_subseq: "srcs_ok fam es \<Longrightarrow> srcs_ok fam (filter P es)"
  by (auto simp: srcs_ok_def sorted_wrt_filter distinct_map_filter)

lemma srcs_ok_append: "srcs_ok fam (xs @ ys) \<Longrightarrow> srcs_ok fam xs \<and> srcs_ok fam ys"
  by (auto simp: srcs_ok_def sorted_wrt_append)

lemma bits_invalid: "prefix_ok s \<Longrightarrow> Masked s = s \<Longrightarrow> \<not> p_IsValid s \<Longrightarrow> s = noPrefix"
  using Masked_invalid by metis

lemma bits_valid: "p_IsValid s \<Longrightarrow> 0 \<le> p_Bits s"
  by (simp add: p_IsValid_def p_Bits_def)

lemma bits_le: "prefix_ok s \<Longrightarrow> p_IsValid s \<Longrightarrow> p_Bits s \<le> 128"
  by (cases "p_ip s") (auto simp: prefix_ok_def p_Bits_def)

subsection \<open>Scan and index\<close>

lemma map_of_None_Contains:
  "\<forall>s\<in>fst ` set es. \<not> Contains s src \<Longrightarrow> lookupScan es src = None"
  by (induction es src rule: lookupScan.induct) auto

lemma lookupScan_append:
  "lookupScan (xs @ ys) src = (case lookupScan xs src of Some v \<Rightarrow> Some v | None \<Rightarrow> lookupScan ys src)"
  by (induction xs src rule: lookupScan.induct) auto

text \<open>In a run of sources of one length, containment is equality with the cut address.\<close>

lemma run_Contains:
  assumes "prefix_ok s" "Masked s = s" "p_IsValid s"
  shows "Contains s src \<longleftrightarrow> Masked (PrefixFrom src (p_Bits s)) = s"
proof -
  have "Contains s src \<longleftrightarrow> BitLen src = BitLen (p_ip s) \<and> Masked (PrefixFrom src (p_Bits s)) = s"
    using Contains_iff [OF assms(1), of src] assms(2,3) by simp
  moreover have "BitLen src = BitLen (p_ip s)" if "Masked (PrefixFrom src (p_Bits s)) = s"
  proof -
    have v: "p_IsValid (PrefixFrom src (p_Bits s))"
      using that assms(3) Masked_props(2) [of "PrefixFrom src (p_Bits s)"] by simp
    show ?thesis using that Masked_props(5) [OF prefix_ok_PrefixFrom v] by simp
  qed
  ultimately show ?thesis by blast
qed

lemma run_scan:
  assumes "\<forall>s\<in>fst ` set es. prefix_ok s \<and> Masked s = s \<and> p_IsValid s \<and> p_Bits s = b"
  shows "lookupScan es src = map_of es (Masked (PrefixFrom src b))"
  using assms
proof (induction es)
  case (Cons e es)
  obtain s v where e: "e = (s, v)" by force
  show ?case using Cons run_Contains [of s src] by (auto simp: e)
qed simp

lemma groupMap_map_of: "distinct (map fst es) \<Longrightarrow> groupMap es = map_of es"
proof -
  assume d: "distinct (map fst es)"
  have "foldl (\<lambda>m (s, v). m(s \<mapsto> v)) m es = m ++ map_of (rev es)" for m :: "prefix \<rightharpoonup> 'a"
    by (induction es arbitrary: m) (auto simp: map_add_def fun_eq_iff split: option.splits)
  moreover have "map_of (rev es) = map_of es" using d by (subst map_of_inject_set) (simp_all add: rev_map [symmetric])
  ultimately show ?thesis by (simp add: groupMap_def)
qed

lemma index_is_scan: "srcs_ok fam es \<Longrightarrow> lookupIndex (groupSrcs es) src = lookupScan es src"
proof (induction es rule: groupSrcs.induct)
  case (2 s v es)
  show ?case
  proof (cases "p_IsValid s")
    case False
    then show ?thesis using 2 by (simp add: srcs_ok_Cons)
  next
    case True
    define same where "same = (\<lambda>(s', v'::'a). p_IsValid s' \<and> p_Bits s' = p_Bits s)"
    let ?run = "(s, v) # takeWhile same es" and ?rest = "dropWhile same es"
    have split: "(s, v) # es = ?run @ ?rest" by simp
    have ok: "srcs_ok fam ?run" "srcs_ok fam ?rest" using "2.prems" srcs_ok_append split by metis+
    have run: "\<forall>s'\<in>fst ` set ?run. prefix_ok s' \<and> Masked s' = s' \<and> p_IsValid s' \<and> p_Bits s' = p_Bits s"
    proof -
      have "\<forall>e\<in>set (takeWhile same es). p_IsValid (fst e) \<and> p_Bits (fst e) = p_Bits s"
      proof
        fix e assume "e \<in> set (takeWhile same es)"
        then have "same e" by (rule set_takeWhileD [THEN conjunct2])
        then show "p_IsValid (fst e) \<and> p_Bits (fst e) = p_Bits s" by (simp add: same_def case_prod_beta)
      qed
      then have "\<forall>s'\<in>fst ` set ?run. p_IsValid s' \<and> p_Bits s' = p_Bits s" using True by simp
      moreover have "\<forall>s'\<in>fst ` set ?run. prefix_ok s' \<and> Masked s' = s'"
        using ok(1) unfolding srcs_ok_def by blast
      ultimately show ?thesis by blast
    qed
    have bits: "int (nat (p_Bits s) mod 256) = p_Bits s"
    proof -
      have "prefix_ok s" using ok(1) by (simp add: srcs_ok_Cons)
      from bits_le [OF this True] bits_valid [OF True] show ?thesis by simp
    qed
    have g1: "groupSrcs ((s, v) # es) = \<lparr>si_bits = nat (p_Bits s) mod 256, si_m = groupMap ?run\<rparr> # groupSrcs ?rest"
      using True by (simp add: same_def Let_def)
    have g2: "groupMap ?run (Masked (PrefixFrom src (p_Bits s))) = lookupScan ?run src"
      using groupMap_map_of [of ?run] ok(1) run_scan [OF run, of src] by (simp add: srcs_ok_def)
    have g3: "lookupIndex (groupSrcs ?rest) src = lookupScan ?rest src"
      using "2.IH"(2) [OF _ same_def refl ok(2)] True by simp
    have "lookupIndex (groupSrcs ((s, v) # es)) src =
        (case lookupScan ?run src of Some v \<Rightarrow> Some v | None \<Rightarrow> lookupScan ?rest src)"
      by (simp only: g1 lookupIndex.simps srcIndex.simps bits g2 g3)
    then show ?thesis by (simp only: split lookupScan_append)
  qed
qed simp

subsection \<open>The longest source\<close>

definition src_match :: "prefix \<Rightarrow> addr \<Rightarrow> bool" where
  "src_match s src \<longleftrightarrow> \<not> p_IsValid s \<or> Contains s src"

lemma nodeBest_scan:
  assumes "srcs_ok fam es"
  shows "nodeBest es src = (case lookupScan es src of Some v \<Rightarrow> Some v | None \<Rightarrow> matchAllSource es)"
  using index_is_scan [OF assms, of src]
  by (auto simp: nodeBest_def lookupNode_def indexSrcs_def Let_def split: prod.splits if_splits)

lemma match_all_last:
  assumes "srcs_ok fam ((s, v) # es)" "\<not> p_IsValid s"
  shows "es = []"
proof (rule ccontr)
  assume "es \<noteq> []"
  then obtain e where e: "e \<in> set es" by (cases es) auto
  have s: "s = noPrefix" using assms bits_invalid by (auto simp: srcs_ok_Cons)
  have "p_Bits (fst e) \<le> -1" using assms(1) e s by (auto simp: srcs_ok_Cons)
  then have "\<not> p_IsValid (fst e)" using bits_valid [of "fst e"] by linarith
  moreover have "prefix_ok (fst e)" "Masked (fst e) = fst e" using assms(1) e by (auto simp: srcs_ok_def)
  ultimately have "fst e = s" using bits_invalid s by simp
  then show False using assms(1) e by (auto simp: srcs_ok_Cons)
qed

lemma same_bits_match:
  assumes "prefix_ok s" "Masked s = s" "prefix_ok s'" "Masked s' = s'" "p_Bits s = p_Bits s'"
    "src_match s src" "src_match s' src"
  shows "s = s'"
proof (cases "p_IsValid s")
  case True
  then have v: "p_IsValid s'" using assms(5) by (simp add: p_IsValid_def p_Bits_def)
  then show ?thesis
    using True assms run_Contains [OF assms(1,2) True] run_Contains [OF assms(3,4) v] by (auto simp: src_match_def)
next
  case False
  then have "\<not> p_IsValid s'" using assms(5) by (simp add: p_IsValid_def p_Bits_def)
  then show ?thesis using False assms bits_invalid by metis
qed

definition longest :: "('v srcEntry list) \<Rightarrow> addr \<Rightarrow> prefix \<Rightarrow> bool" where
  "longest es src s \<longleftrightarrow> s \<in> fst ` set es \<and> src_match s src \<and>
     (\<forall>s'\<in>fst ` set es. src_match s' src \<longrightarrow> p_Bits s' \<le> p_Bits s)"

lemma nodeBest_longest:
  assumes "srcs_ok fam es"
  shows "(\<exists>s v. nodeBest es src = Some v \<and> map_of es s = Some v \<and> longest es src s) \<or>
         nodeBest es src = None \<and> (\<forall>s\<in>fst ` set es. \<not> src_match s src)"
  using assms
proof (induction es)
  case (Cons e es)
  obtain s v where e: "e = (s, v)" by force
  have ok: "srcs_ok fam es" "s \<notin> fst ` set es" using Cons.prems by (auto simp: e srcs_ok_Cons)
  note best = nodeBest_scan [OF Cons.prems, of src] nodeBest_scan [OF ok(1), of src]
  consider "\<not> p_IsValid s" | "p_IsValid s" "Contains s src" | "p_IsValid s" "\<not> Contains s src" by blast
  then show ?case
  proof cases
    case 1
    then have "es = []" using Cons.prems match_all_last by (metis e)
    then show ?thesis using best 1 by (auto simp: e longest_def src_match_def)
  next
    case 2
    then have "nodeBest (e # es) src = Some v" using best by (simp add: e)
    moreover have "longest (e # es) src s"
      using 2 Cons.prems by (auto simp: e longest_def src_match_def srcs_ok_Cons)
    ultimately show ?thesis by (auto simp: e)
  next
    case 3
    then have "nodeBest (e # es) src = nodeBest es src" using best by (simp add: e split: option.split)
    moreover have ns: "\<not> src_match s src" using 3 by (simp add: src_match_def)
    moreover have "longest (e # es) src s' \<and> s' \<noteq> s" if "longest es src s'" for s'
      using that ns ok(2) by (auto simp: e longest_def simp del: image_insert)
    ultimately show ?thesis
      using Cons.IH [OF ok(1)] by (elim disjE) (force simp: e, simp add: e)
  qed
qed simp

subsection \<open>Editing the sources\<close>

lemma BinarySearchFunc_partition:
  assumes "\<forall>h<n. lt h \<longleftrightarrow> h < p" "i \<le> p" "p \<le> j" "j \<le> n"
  shows "BinarySearchFunc lt i j = p"
  using assms
proof (induction lt i j rule: BinarySearchFunc.induct)
  case (1 lt i j)
  show ?case
  proof (cases "i < j")
    case True
    let ?h = "(i + j) div 2"
    have h: "i \<le> ?h" "?h < j" "?h < n" using True "1.prems"(4) by auto
    show ?thesis
    proof (cases "lt ?h")
      case True
      then have "?h + 1 \<le> p" using "1.prems"(1) h(3) by auto
      with "1.IH"(1) [OF \<open>i < j\<close> refl True] "1.prems" True \<open>i < j\<close> show ?thesis
        by (simp add: BinarySearchFunc.simps [of lt i j] Let_def)
    next
      case False
      then have "p \<le> ?h" using "1.prems"(1) h(3) by auto
      with "1.IH"(2) [OF \<open>i < j\<close> refl False] "1.prems" h False \<open>i < j\<close> show ?thesis
        by (simp add: BinarySearchFunc.simps [of lt i j] Let_def)
    qed
  next
    case False
    then show ?thesis using "1.prems" by (simp add: BinarySearchFunc.simps [of lt i j])
  qed
qed

lemma replaceSrc_None: "replaceSrc src v es = None \<longleftrightarrow> src \<notin> fst ` set es"
  by (induction src v es rule: replaceSrc.induct) auto

lemma replaceSrc_Some:
  "replaceSrc src v es = Some es' \<Longrightarrow> map fst es' = map fst es \<and> map_of es' = (map_of es)(src \<mapsto> v)"
  by (induction src v es arbitrary: es' rule: replaceSrc.induct)
    (auto simp: fun_eq_iff split: if_splits)

lemma srcs_ok_keys: "map fst es' = map fst es \<Longrightarrow> srcs_ok fam es' = srcs_ok fam es"
proof -
  assume m: "map fst es' = map fst es"
  have "sorted_wrt (\<lambda>x y. p_Bits (fst y) \<le> p_Bits (fst x)) xs = sorted_wrt (\<lambda>x y. p_Bits y \<le> p_Bits x) (map fst xs)"
    for xs :: "(prefix \<times> 'b) list"
    by (simp add: sorted_wrt_map)
  moreover have "sorted_wrt (\<lambda>x y. p_Bits (fst y) \<le> p_Bits (fst x)) xs = sorted_wrt (\<lambda>x y. p_Bits y \<le> p_Bits x) (map fst xs)"
    for xs :: "(prefix \<times> 'a) list"
    by (simp add: sorted_wrt_map)
  ultimately show ?thesis
    unfolding srcs_ok_def list.set_map [symmetric] by (simp add: m)
qed

text \<open>The insertion point is after the sources that are longer.\<close>

lemma insert_point:
  assumes "sorted_wrt (\<lambda>x y. p_Bits (fst y) \<le> p_Bits (fst x)) es"
  shows "BinarySearchFunc (\<lambda>h. p_Bits src - p_Bits (fst (es ! h)) < 0) 0 (length es) =
    length (takeWhile (\<lambda>e. p_Bits src < p_Bits (fst e)) es)"
proof (rule BinarySearchFunc_partition)
  let ?P = "\<lambda>e. p_Bits src < p_Bits (fst e)"
  show "\<forall>h<length es. p_Bits src - p_Bits (fst (es ! h)) < 0 \<longleftrightarrow> h < length (takeWhile ?P es)"
  proof (intro allI impI)
    fix h assume h: "h < length es"
    show "p_Bits src - p_Bits (fst (es ! h)) < 0 \<longleftrightarrow> h < length (takeWhile ?P es)"
    proof (cases "h < length (takeWhile ?P es)")
      case True
      then show ?thesis using nth_mem [OF True] takeWhile_nth [OF True] set_takeWhileD by fastforce
    next
      case False
      let ?k = "length (takeWhile ?P es)"
      have "?k \<le> h" "?k < length es" using False h by simp_all
      then have "\<not> ?P (es ! ?k)" using nth_length_takeWhile by blast
      moreover have "p_Bits (fst (es ! h)) \<le> p_Bits (fst (es ! ?k))"
        using assms h \<open>?k \<le> h\<close> by (cases "?k = h") (auto simp: sorted_wrt_iff_nth_less)
      ultimately show ?thesis using False by simp
    qed
  qed
qed (simp_all add: length_takeWhile_le)

lemma insert_sorted_desc:
  assumes "sorted_wrt (\<lambda>x y. p_Bits (fst y) \<le> p_Bits (fst x)) es"
    and at_def: "at = length (takeWhile (\<lambda>e. p_Bits src < p_Bits (fst e)) es)"
  shows "sorted_wrt (\<lambda>x y. p_Bits (fst y) \<le> p_Bits (fst x)) (take at es @ (src, v) # drop at es)"
proof -
  let ?P = "\<lambda>e. p_Bits src < p_Bits (fst e)"
  have tk: "take at es = takeWhile ?P es" "drop at es = dropWhile ?P es"
    by (simp_all add: at_def takeWhile_eq_take [symmetric] dropWhile_eq_drop [symmetric])
  have "sorted_wrt (\<lambda>x y. p_Bits (fst y) \<le> p_Bits (fst x)) (takeWhile ?P es @ dropWhile ?P es)"
    using assms(1) by simp
  then have s: "sorted_wrt (\<lambda>x y. p_Bits (fst y) \<le> p_Bits (fst x)) (takeWhile ?P es)"
    "sorted_wrt (\<lambda>x y. p_Bits (fst y) \<le> p_Bits (fst x)) (dropWhile ?P es)"
    "\<forall>x\<in>set (takeWhile ?P es). \<forall>y\<in>set (dropWhile ?P es). p_Bits (fst y) \<le> p_Bits (fst x)"
    unfolding sorted_wrt_append by simp_all
  have lo: "\<forall>y\<in>set (dropWhile ?P es). p_Bits (fst y) \<le> p_Bits src"
  proof (cases "dropWhile ?P es")
    case Nil
    show ?thesis unfolding Nil by simp
  next
    case (Cons y ys)
    have "\<not> ?P y" using Cons hd_dropWhile [of ?P es] by (metis list.discI list.sel(1))
    then show ?thesis using s(2) unfolding Cons by auto
  qed
  have hi: "\<forall>x\<in>set (takeWhile ?P es). p_Bits src \<le> p_Bits (fst x)"
    using set_takeWhileD [of _ ?P es] by (meson less_imp_le)
  show ?thesis unfolding tk using s lo hi by (auto simp: sorted_wrt_append)
qed

lemma setEntry_ok:
  assumes "srcs_ok fam es" "prefix_ok src" "Masked src = src" "p_IsValid src \<longrightarrow> BitLen (p_ip src) = fam"
  shows "srcs_ok fam (setEntry src v es) \<and> map_of (setEntry src v es) = (map_of es)(src \<mapsto> v)"
proof (cases "replaceSrc src v es")
  case None
  let ?at = "length (takeWhile (\<lambda>e. p_Bits src < p_Bits (fst e)) es)"
  have new: "src \<notin> fst ` set es" using None replaceSrc_None by metis
  have sorted: "sorted_wrt (\<lambda>x y. p_Bits (fst y) \<le> p_Bits (fst x)) es" and d: "distinct (map fst es)"
    using assms(1) by (simp_all add: srcs_ok_def)
  have e: "setEntry src v es = take ?at es @ (src, v) # drop ?at es"
    by (simp only: setEntry_def None option.case Let_def insert_point [OF sorted])
  have tk: "es = take ?at es @ drop ?at es" by simp
  have m: "set (setEntry src v es) = insert (src, v) (set es)"
    unfolding e by (subst tk) (simp only: set_append list.set insert_is_Un [symmetric] Un_insert_right)
  have "distinct (map fst (take ?at es @ drop ?at es))" "src \<notin> fst ` set (take ?at es @ drop ?at es)"
    using d new by simp_all
  then have d': "distinct (map fst (setEntry src v es))"
    unfolding e by (simp add: image_Un del: append_take_drop_id)
  have "srcs_ok fam (setEntry src v es)"
    using insert_sorted_desc [OF sorted refl, of src v] assms d' m unfolding srcs_ok_def e by (auto simp: m [unfolded e])
  moreover have "map_of (setEntry src v es) = map_of ((src, v) # es)"
    using d d' m new by (subst map_of_inject_set) simp_all
  ultimately show ?thesis by simp
next
  case (Some es')
  then have "setEntry src v es = es'" by (simp add: setEntry_def)
  then show ?thesis using replaceSrc_Some [OF Some] srcs_ok_keys [of es' es fam] assms(1) by simp
qed

lemma removeEntry_eq: "distinct (map fst es) \<Longrightarrow> removeEntry src es = filter (\<lambda>(s, v). s \<noteq> src) es"
proof (induction src es rule: removeEntry.induct)
  case (2 src s w rest)
  have "filter (\<lambda>(s, v). s \<noteq> src) rest = rest" if "s = src"
    using that "2.prems" by (force simp: filter_id_conv)
  then show ?case using 2 by auto
qed simp

lemma map_of_filter_distinct:
  "distinct (map fst es) \<Longrightarrow> map_of (filter (\<lambda>(s, v). P s v) es) s =
     (case map_of es s of Some v \<Rightarrow> if P s v then Some v else None | None \<Rightarrow> None)"
proof (induction es)
  case (Cons e es)
  obtain s' v' where e: "e = (s', v')" by force
  have "map_of es s' = None" using Cons.prems by (simp add: e map_of_eq_None_iff)
  then show ?case using Cons by (auto simp: e)
qed simp

lemma removeEntry_ok:
  assumes "srcs_ok fam es"
  shows "srcs_ok fam (removeEntry src es) \<and> map_of (removeEntry src es) = (map_of es)(src := None)"
proof -
  have d: "distinct (map fst es)" using assms by (simp add: srcs_ok_def)
  show ?thesis
    using srcs_ok_subseq [OF assms] map_of_filter_distinct [OF d, of "\<lambda>s v. s \<noteq> src"]
    by (auto simp: removeEntry_eq [OF d] fun_eq_iff split: option.splits)
qed

section \<open>The table as a map\<close>

definition destKey :: "prefix \<Rightarrow> nat" where
  "destKey dst = nat (p_Bits dst) + (if Is4 (p_ip dst) then 96 else 0)"

definition rootOf :: "'v roots \<Rightarrow> bool \<Rightarrow> 'v trieNode" where
  "rootOf r v4 = (if v4 then ipv4 r else ipv6 r)"

definition canonical :: "prefix \<Rightarrow> bool" where
  "canonical p \<longleftrightarrow> prefix_ok p \<and> p_IsValid p \<and> Masked p = p"

definition table_map :: "'v Table \<Rightarrow> prefix \<times> prefix \<rightharpoonup> 'v" where
  "table_map t = (\<lambda>(src, dst). case t of None \<Rightarrow> None | Some r \<Rightarrow>
     if canonical dst then map_of (srcs_at (rootOf r (Is4 (p_ip dst))) (As16 (p_ip dst)) (destKey dst)) src else None)"

definition table_ok :: "'v Table \<Rightarrow> bool" where
  "table_ok t \<longleftrightarrow> (\<forall>r. t = Some r \<longrightarrow> trie_ok (srcs_ok 32) (ipv4 r) \<and> trie_ok (srcs_ok 128) (ipv6 r) \<and>
     (\<forall>a k. srcs_at (ipv4 r) a k \<noteq> [] \<longrightarrow> 96 \<le> k \<and> agree 96 a v4mapped))"

lemma table_ok_root:
  "table_ok (Some r) \<Longrightarrow> trie_ok (srcs_ok (if v4 then 32 else 128)) (rootOf r v4)"
  by (simp add: table_ok_def rootOf_def)

lemma agree_mask6: "n \<le> 128 \<Longrightarrow> agree n a b \<longleftrightarrow> a AND mask6 n = b AND mask6 n"
proof -
  assume n: "n \<le> 128"
  have "a AND mask6 n = b AND mask6 n \<longleftrightarrow> (\<forall>j<128. 128 - n \<le> j \<longrightarrow> bit a j = bit b j)"
    by (auto simp: bit_eq_iff bit_simps mask6_bit)
  also have "\<dots> \<longleftrightarrow> agree n a b"
    unfolding agree_def
  proof (rule iffI; intro allI impI)
    fix i assume l: "\<forall>j<128. 128 - n \<le> j \<longrightarrow> bit a j = bit b j" and "i < n"
    then show "bit a (127 - i) = bit b (127 - i)" using n by simp
  next
    fix j assume r: "\<forall>i<n. bit a (127 - i) = bit b (127 - i)" and j: "j < 128" "128 - n \<le> j"
    show "bit a j = bit b j" using spec [OF r, of "127 - j"] j n by simp
  qed
  finally show ?thesis by simp
qed

lemma bit_v4mapped: "bit v4mapped j \<longleftrightarrow> 32 \<le> j \<and> j < 48"
proof -
  have "v4mapped = push_bit 32 (mask 16)" by (simp add: v4mapped_def push_bit_eq_mult mask_eq_exp_minus_1)
  then have "bit v4mapped j = bit (push_bit 32 (mask 16 :: u128)) j" by (rule arg_cong)
  then show ?thesis by (auto simp: bit_simps)
qed

lemma bit_As16_4: "bit (As16 (Addr4 v)) j \<longleftrightarrow> (if j < 32 then bit v j else j < 48)"
  using bit_imp_le_length [of v j] by (auto simp: bit_simps bit_v4mapped)

lemma agree_4:
  assumes "n \<le> 32"
  shows "agree (n + 96) (As16 (Addr4 v)) (As16 (Addr4 w)) \<longleftrightarrow>
    v AND ucast (mask6 (n + 96)) = w AND ucast (mask6 (n + 96))"
proof -
  have "(As16 (Addr4 v) AND mask6 (n + 96) = As16 (Addr4 w) AND mask6 (n + 96)) \<longleftrightarrow>
      (\<forall>j<32. 32 - n \<le> j \<longrightarrow> bit v j = bit w j)"
  proof -
    have "(As16 (Addr4 v) AND mask6 (n + 96) = As16 (Addr4 w) AND mask6 (n + 96)) \<longleftrightarrow>
      (\<forall>j<128. 32 - n \<le> j \<longrightarrow> bit (As16 (Addr4 v)) j = bit (As16 (Addr4 w)) j)"
      by (auto simp: bit_eq_iff [where 'a = "128 word"] bit_and_iff mask6_bit simp del: As16.simps)
    then show ?thesis by (auto simp: bit_As16_4 simp del: As16.simps)
  qed
  also have "\<dots> \<longleftrightarrow> v AND ucast (mask6 (n + 96)) = w AND ucast (mask6 (n + 96))"
    using assms by (auto simp: bit_eq_iff bit_simps mask6_bit)
  finally show ?thesis using assms agree_mask6 [of "n + 96"] by simp
qed

lemma mapped_96: "agree 96 (As16 (Addr4 v)) v4mapped"
  by (auto simp: agree_def bit_As16_4 bit_v4mapped simp del: As16.simps)

lemma PrefixFrom_inject:
  "a_IsValid ip \<Longrightarrow> 0 \<le> b \<Longrightarrow> b \<le> int (BitLen ip) \<Longrightarrow> a_IsValid ip' \<Longrightarrow> 0 \<le> b' \<Longrightarrow> b' \<le> int (BitLen ip') \<Longrightarrow>
     PrefixFrom ip b = PrefixFrom ip' b' \<longleftrightarrow> ip = ip' \<and> b = b'"
  by (auto simp: PrefixFrom_def)

lemma key_eq:
  assumes "canonical dp" "prefix_ok dst" "p_IsValid dst" "Is4 (p_ip dp) = Is4 (p_ip dst)"
  shows "destKey dp = destKey dst \<and> agree (destKey dst) (As16 (p_ip dst)) (As16 (p_ip dp)) \<longleftrightarrow> dp = Masked dst"
proof -
  have dp: "prefix_ok dp" "p_IsValid dp" "Masked dp = dp" using assms(1) by (simp_all add: canonical_def)
  from dp(1,2) show ?thesis
  proof (cases rule: prefix_cases)
    case (v4 w c)
    from assms(2,3) show ?thesis
    proof (cases rule: prefix_cases)
      case dst: (v4 v b)
      have "w AND ucast (mask6 (nat c + 96)) = w" using dp(3) v4 by (simp add: PrefixFrom_inject)
      then show ?thesis
        using v4 dst agree_4 [of "nat b" v w] by (auto simp: destKey_def PrefixFrom_inject simp del: As16.simps)
    next
      case (v6 v b)
      then show ?thesis using assms(4) v4 by simp
    qed
  next
    case (v6 w c)
    from assms(2,3) show ?thesis
    proof (cases rule: prefix_cases)
      case (v4 v b)
      then show ?thesis using assms(4) v6 by simp
    next
      case dst: (v6 v b)
      have "w AND mask6 (nat c) = w" using dp(3) v6 by (simp add: PrefixFrom_inject)
      then show ?thesis
        using v6 dst agree_mask6 [of "nat b" v w] by (auto simp: destKey_def PrefixFrom_inject)
    qed
  qed
qed

lemma destKey_le:
  assumes "prefix_ok p" "p_IsValid p"
  shows "destKey p \<le> 128" "Is4 (p_ip p) \<Longrightarrow> 96 \<le> destKey p \<and> agree 96 (As16 (p_ip p)) v4mapped"
    "BitLen (p_ip p) = (if Is4 (p_ip p) then 32 else 128)"
  using assms mapped_96 by (cases rule: prefix_cases; simp add: destKey_def del: As16.simps; simp)+

lemma Masked_Is4:
  assumes "prefix_ok p" "p_IsValid p"
  shows "canonical (Masked p)" "Is4 (p_ip (Masked p)) = Is4 (p_ip p)"
proof -
  show "canonical (Masked p)" using assms Masked_props by (simp add: canonical_def)
  show "Is4 (p_ip (Masked p)) = Is4 (p_ip p)" using assms by (cases rule: prefix_cases) simp_all
qed

definition sourcesOf :: "'v Table \<Rightarrow> prefix \<Rightarrow> 'v srcEntry list" where
  "sourcesOf t dst = (case t of None \<Rightarrow> [] | Some r \<Rightarrow>
     srcs_at (rootOf r (Is4 (p_ip dst))) (As16 (p_ip dst)) (destKey dst))"

lemma srcs_at_ok: "trie_ok ok n \<Longrightarrow> ok [] \<Longrightarrow> ok (srcs_at n a k)"
  by (induction n) auto

lemma sourcesOf_ok: "table_ok t \<Longrightarrow> srcs_ok (if Is4 (p_ip dst) then 32 else 128) (sourcesOf t dst)"
proof (cases t)
  case (Some r)
  assume "table_ok t"
  then have "trie_ok (srcs_ok (if Is4 (p_ip dst) then 32 else 128)) (rootOf r (Is4 (p_ip dst)))"
    using table_ok_root Some by blast
  then show ?thesis unfolding Some sourcesOf_def option.case by (rule srcs_at_ok) simp
qed (simp add: sourcesOf_def)

lemma table_map_sources: "table_map t (s, d) = (if canonical d then map_of (sourcesOf t d) s else None)"
  by (simp add: table_map_def sourcesOf_def split: option.split)

lemma sourcesOf_Masked:
  assumes "prefix_ok dst" "p_IsValid dst"
  shows "sourcesOf t (Masked dst) = sourcesOf t dst"
proof -
  have k: "destKey (Masked dst) = destKey dst \<and> agree (destKey dst) (As16 (p_ip dst)) (As16 (p_ip (Masked dst)))"
    using key_eq [OF Masked_Is4(1) [OF assms] assms Masked_Is4(2) [OF assms]] by simp
  have "srcs_at n (As16 (p_ip (Masked dst))) (destKey dst) = srcs_at n (As16 (p_ip dst)) (destKey dst)" for n :: "'a trieNode"
    using srcs_at_cong k by metis
  then show ?thesis
    using k Masked_Is4(2) [OF assms] by (simp add: sourcesOf_def split: option.split)
qed

lemma change_ok:
  assumes t: "table_ok t" and dst: "prefix_ok dst" and v: "validPrefixes src dst"
    and keep: "\<And>es. srcs_ok (BitLen (p_ip dst)) es \<Longrightarrow> srcs_ok (BitLen (p_ip dst)) (f es)"
  shows "table_ok (change t src dst f)"
    "canonical d \<Longrightarrow> sourcesOf (change t src dst f) d = (if d = Masked dst then f (sourcesOf t dst) else sourcesOf t d)"
proof -
  define nxt where "nxt = (case t of None \<Rightarrow> \<lparr>ipv4 = Nil_node, ipv6 = Nil_node\<rparr> | Some current \<Rightarrow> current)"
  let ?v4 = "Is4 (p_ip dst)" and ?a = "As16 (p_ip dst)" and ?len = "destKey dst"
  define r where "r = edit (rootOf nxt ?v4) ?a ?len f"
  have valid: "p_IsValid dst" using v by (simp add: validPrefixes_def)
  note key = destKey_le [OF dst valid]
  have eq: "change t src dst f = Some (if ?v4 then nxt\<lparr>ipv4 := r\<rparr> else nxt\<lparr>ipv6 := r\<rparr>)"
    using v by (simp add: change_def Let_def nxt_def r_def rootOf_def destKey_def)
  have ok: "table_ok (Some nxt)" using t by (cases t) (simp_all add: nxt_def table_ok_def)
  have src: "sourcesOf t d = srcs_at (rootOf nxt (Is4 (p_ip d))) (As16 (p_ip d)) (destKey d)" for d
    by (cases t) (simp_all add: nxt_def sourcesOf_def rootOf_def)
  have ed: "edited (srcs_ok (if ?v4 then 32 else 128)) (rootOf nxt ?v4) ?a ?len f r"
    unfolding r_def using edit_ok [OF table_ok_root [OF ok, of ?v4] key(1) srcs_ok_Nil] keep key(3) by simp
  then have at: "srcs_at r a' k = (if k = ?len \<and> agree ?len ?a a' then f (srcs_at (rootOf nxt ?v4) ?a ?len)
      else srcs_at (rootOf nxt ?v4) a' k)" for a' k
    by (simp add: edited_def)
  have "96 \<le> k \<and> agree 96 a v4mapped" if "?v4" "srcs_at r a k \<noteq> []" for a k
  proof (cases "k = ?len \<and> agree ?len ?a a")
    case True
    then show ?thesis using key(2) [OF that(1)] agree_le [of ?len ?a a 96] agree_trans agree_sym by blast
  next
    case False
    then have "srcs_at r a k = srcs_at (ipv4 nxt) a k" using at [of a k] that(1) by (simp only: rootOf_def if_True if_False)
    then have "srcs_at (ipv4 nxt) a k \<noteq> []" using that(2) by simp
    then show ?thesis using ok unfolding table_ok_def by blast
  qed
  then show "table_ok (change t src dst f)"
    unfolding eq using ed ok by (auto simp: table_ok_def edited_def rootOf_def split: if_splits)
  show "sourcesOf (change t src dst f) d = (if d = Masked dst then f (sourcesOf t dst) else sourcesOf t d)" if "canonical d"
  proof (cases "Is4 (p_ip d) = ?v4")
    case True
    have "sourcesOf (change t src dst f) d = srcs_at r (As16 (p_ip d)) (destKey d)"
      using True by (auto simp: eq sourcesOf_def rootOf_def)
    then show ?thesis using at key_eq [OF that dst valid True] True by (simp add: src)
  next
    case False
    then have "d \<noteq> Masked dst" using Masked_Is4(2) [OF dst valid] by auto
    then show ?thesis
      using False by (auto simp: src eq sourcesOf_def [of "Some _"] rootOf_def)
  qed
qed

lemma table_ok_empty [simp]: "table_ok None" "table_map None = Map.empty"
  by (auto simp: table_ok_def table_map_def)

text \<open>Whether \<open>Set\<close> and \<open>Remove\<close> act at all.\<close>

definition acceptable :: "prefix \<Rightarrow> prefix \<Rightarrow> bool" where
  "acceptable src dst \<longleftrightarrow> p_IsValid dst \<and> (p_IsValid src \<longrightarrow> BitLen (p_ip src) = BitLen (p_ip dst))"

lemma validPrefixes_Masked: "prefix_ok src \<Longrightarrow> validPrefixes (Masked src) dst \<longleftrightarrow> acceptable src dst"
  using Masked_props(2,5) [of src] by (auto simp: validPrefixes_def acceptable_def)

text \<open>One edit of the sources of one destination, with the effect \<open>x\<close> on one source.\<close>

lemma change_map:
  assumes "table_ok t" "prefix_ok dst" "validPrefixes src dst"
    and f: "\<And>es. srcs_ok (BitLen (p_ip dst)) es \<Longrightarrow>
      srcs_ok (BitLen (p_ip dst)) (f es) \<and> map_of (f es) = (map_of es)(src := x)"
  shows "table_ok (change t src dst f) \<and> table_map (change t src dst f) = (table_map t)((src, Masked dst) := x)"
proof -
  have valid: "p_IsValid dst" using assms(3) by (simp add: validPrefixes_def)
  note ch = change_ok [where f = f, OF assms(1-3) f [THEN conjunct1]]
  have ok: "srcs_ok (BitLen (p_ip dst)) (sourcesOf t dst)"
    using sourcesOf_ok [OF assms(1), of dst] destKey_le(3) [OF assms(2) valid] by simp
  have "table_map (change t src dst f) (s, d) = ((table_map t)((src, Masked dst) := x)) (s, d)" for s d
    using ch(2) [of d] f [OF ok] Masked_Is4(1) [OF assms(2) valid] sourcesOf_Masked [OF assms(2) valid, of t]
    by (cases "d = Masked dst") (auto simp: table_map_sources)
  then show ?thesis using ch(1) by (auto simp: fun_eq_iff)
qed

lemma Set_ok:
  assumes "table_ok t" "prefix_ok src" "prefix_ok dst"
  shows "table_ok (Table_Set t src dst v) \<and> table_map (Table_Set t src dst v) =
    (if acceptable src dst then (table_map t)((Masked src, Masked dst) \<mapsto> v) else table_map t)"
proof (cases "acceptable src dst")
  case True
  then have vp: "validPrefixes (Masked src) dst" using validPrefixes_Masked [OF assms(2)] by simp
  then have "p_IsValid (Masked src) \<longrightarrow> BitLen (p_ip (Masked src)) = BitLen (p_ip dst)"
    by (auto simp: validPrefixes_def)
  from change_map [where f = "setEntry (Masked src) v", OF assms(1,3) vp setEntry_ok [OF _ Masked_props(1,3) [OF assms(2)] this]]
  show ?thesis using True by (simp add: Table_Set_def Let_def)
next
  case False
  then have "\<not> validPrefixes (Masked src) dst" using validPrefixes_Masked [OF assms(2)] by simp
  then show ?thesis using False assms(1) by (simp add: Table_Set_def change_def Let_def)
qed

lemma Remove_ok:
  assumes "table_ok t" "prefix_ok src" "prefix_ok dst"
  shows "table_ok (Table_Remove t src dst) \<and> table_map (Table_Remove t src dst) =
    (if acceptable src dst then (table_map t)((Masked src, Masked dst) := None) else table_map t)"
proof (cases "acceptable src dst")
  case True
  then have vp: "validPrefixes (Masked src) dst" using validPrefixes_Masked [OF assms(2)] by simp
  from change_map [where f = "removeEntry (Masked src)", OF assms(1,3) vp removeEntry_ok]
  show ?thesis using True by (simp add: Table_Remove_def Let_def)
next
  case False
  then have "\<not> validPrefixes (Masked src) dst" using validPrefixes_Masked [OF assms(2)] by simp
  then show ?thesis using False assms(1) by (simp add: Table_Remove_def change_def Let_def)
qed

lemma RemoveValue_ok:
  assumes "table_ok t"
  shows "table_ok (Table_RemoveValue t v) \<and>
    table_map (Table_RemoveValue t v) = (\<lambda>k. if table_map t k = Some v then None else table_map t k)"
proof (cases t)
  case (Some r)
  have rv: "trie_ok (srcs_ok fam) (removeValue n v) \<and>
      (\<forall>a k. srcs_at (removeValue n v) a k = filter (\<lambda>(s, w). w \<noteq> v) (srcs_at n a k))"
    if "trie_ok (srcs_ok fam) n" for fam n
    using removeValue_ok [OF that srcs_ok_subseq] by simp
  have ok: "trie_ok (srcs_ok 32) (ipv4 r)" "trie_ok (srcs_ok 128) (ipv6 r)"
    using assms by (simp_all add: Some table_ok_def)
  have sub: "sourcesOf (Table_RemoveValue t v) d = filter (\<lambda>(s, w). w \<noteq> v) (sourcesOf t d)" for d
    using rv [OF ok(1)] rv [OF ok(2)] by (simp add: Some Table_RemoveValue_def sourcesOf_def rootOf_def)
  have "table_ok (Table_RemoveValue t v)"
    using rv [OF ok(1)] rv [OF ok(2)] assms by (auto simp: Some table_ok_def Table_RemoveValue_def) (metis filter.simps(1))+
  moreover have "table_map (Table_RemoveValue t v) (s, d) =
      (if table_map t (s, d) = Some v then None else table_map t (s, d))" for s d
  proof -
    have "distinct (map fst (sourcesOf t d))" using sourcesOf_ok [OF assms, of d] by (simp add: srcs_ok_def)
    from map_of_filter_distinct [OF this, of "\<lambda>s w. w \<noteq> v"] show ?thesis
      by (auto simp: table_map_sources sub split: option.splits)
  qed
  ultimately show ?thesis by (auto simp: fun_eq_iff)
qed (simp add: Table_RemoveValue_def fun_eq_iff)

subsection \<open>Longest match\<close>

definition dest_match :: "prefix \<Rightarrow> addr \<Rightarrow> bool" where
  "dest_match d dst \<longleftrightarrow> canonical d \<and> Contains d dst"

lemma dest_match_cut:
  assumes "dest_match d dst"
  shows "d = Masked (PrefixFrom dst (p_Bits d))" "Is4 (p_ip d) = Is4 dst" "a_IsValid dst"
    "sourcesOf (Some r) d = srcs_at (rootOf r (Is4 dst)) (As16 dst) (destKey d)"
proof -
  have d: "prefix_ok d" "p_IsValid d" "Masked d = d" "Contains d dst" "canonical d"
    using assms by (simp_all add: dest_match_def canonical_def)
  show cut: "d = Masked (PrefixFrom dst (p_Bits d))" using run_Contains [OF d(1,3,2)] d(4) by simp
  then have v: "p_IsValid (PrefixFrom dst (p_Bits d))"
    using d(2) Masked_props(2) [OF prefix_ok_PrefixFrom] by metis
  then show "a_IsValid dst" by simp
  note mk = Masked_Is4 [OF prefix_ok_PrefixFrom v]
  show is4: "Is4 (p_ip d) = Is4 dst" using mk(2) cut by simp
  have "sourcesOf (Some r) d = sourcesOf (Some r) (PrefixFrom dst (p_Bits d))"
    using sourcesOf_Masked [OF prefix_ok_PrefixFrom v, of "Some r"] cut by simp
  moreover have "p_Bits (PrefixFrom dst (p_Bits d)) = p_Bits d" using v by simp
  ultimately show "sourcesOf (Some r) d = srcs_at (rootOf r (Is4 dst)) (As16 dst) (destKey d)"
    using is4 by (simp add: sourcesOf_def destKey_def)
qed

text \<open>A level of the trie on the path of \<open>dst\<close> that has sources is a destination that contains it.\<close>

lemma trie_ok_le: "trie_ok ok n \<Longrightarrow> srcs_at n a k \<noteq> [] \<Longrightarrow> k \<le> 128"
  by (induction n) (auto split: if_splits)

lemma level_dest:
  assumes t: "table_ok (Some r)" and dst: "a_IsValid dst"
    and ne: "srcs_at (rootOf r (Is4 dst)) (As16 dst) k \<noteq> []"
  shows "\<exists>d. dest_match d dst \<and> destKey d = k"
proof -
  let ?off = "if Is4 dst then 96 else 0"
  have k: "k \<le> 128" using trie_ok_le [OF table_ok_root [OF t] ne] .
  have lo: "?off \<le> k" using t ne by (auto simp: table_ok_def rootOf_def split: if_splits)
  let ?p = "PrefixFrom dst (int k - ?off)"
  have v: "p_IsValid ?p" using dst k lo by (cases dst) auto
  have bits: "p_Bits ?p = int k - ?off" using v by simp
  have c: "canonical (Masked ?p)" "Is4 (p_ip (Masked ?p)) = Is4 dst"
    using Masked_Is4 [OF prefix_ok_PrefixFrom v] by simp_all
  have mb: "p_Bits (Masked ?p) = int k - ?off" using Masked_props(4) [OF prefix_ok_PrefixFrom v] bits by simp
  have "destKey (Masked ?p) = k" using c(2) mb lo by (auto simp: destKey_def)
  moreover have "Contains (Masked ?p) dst"
    using run_Contains [of "Masked ?p" dst] c(1) mb by (simp add: canonical_def)
  ultimately show ?thesis using c(1) by (auto simp: dest_match_def)
qed

text \<open>
  The rule of the table: among the entries whose source and destination match, the longest
  destination, and for it the longest source.
\<close>

definition best_match :: "(prefix \<times> prefix \<rightharpoonup> 'v) \<Rightarrow> addr \<Rightarrow> addr \<Rightarrow> 'v option \<Rightarrow> bool" where
  "best_match m src dst res \<longleftrightarrow> (case res of
     Some v \<Rightarrow> \<exists>s d. m (s, d) = Some v \<and> src_match s src \<and> dest_match d dst \<and>
       (\<forall>s' d'. m (s', d') \<noteq> None \<and> src_match s' src \<and> dest_match d' dst \<longrightarrow>
          p_Bits d' < p_Bits d \<or> d' = d \<and> p_Bits s' \<le> p_Bits s)
   | None \<Rightarrow> \<forall>s d. m (s, d) \<noteq> None \<longrightarrow> \<not> (src_match s src \<and> dest_match d dst))"

lemma destKey_Bits:
  assumes "dest_match d dst" "dest_match d' dst" "destKey d' \<le> destKey d"
  shows "p_Bits d' < p_Bits d \<or> d' = d"
proof -
  have "0 \<le> p_Bits d" "0 \<le> p_Bits d'"
    using assms(1,2) bits_valid by (auto simp: dest_match_def canonical_def)
  then have "p_Bits d' \<le> p_Bits d"
    using assms(3) dest_match_cut(2) [OF assms(1)] dest_match_cut(2) [OF assms(2)] by (auto simp: destKey_def)
  then show ?thesis
    using dest_match_cut(1) [OF assms(1)] dest_match_cut(1) [OF assms(2)] by (metis order_le_less)
qed

lemma Lookup_best:
  assumes t: "table_ok t"
  shows "best_match (table_map t) src dst (Table_Lookup t src dst)"
proof (cases "t = None \<or> \<not> a_IsValid dst")
  case True
  then have "Table_Lookup t src dst = None" by (auto simp: Table_Lookup_def split: option.split)
  moreover have "\<not> dest_match d dst" if "\<not> a_IsValid dst" for d using that dest_match_cut(3) by blast
  ultimately show ?thesis using True by (auto simp: best_match_def)
next
  case False
  then obtain r where r: "t = Some r" and dst: "a_IsValid dst" by auto
  let ?n = "rootOf r (Is4 dst)" and ?a = "As16 dst" and ?fam = "if Is4 dst then 32 else 128"
  let ?best = "\<lambda>k. nodeBest (srcs_at ?n ?a k) src"
  have ok: "table_ok (Some r)" using t r by simp
  have at: "srcs_ok ?fam (srcs_at ?n ?a k)" for k by (rule srcs_at_ok [OF table_ok_root [OF ok]]) simp
  have map: "table_map t (s, d) = map_of (srcs_at ?n ?a (destKey d)) s" if "dest_match d dst" for s d
    using dest_match_cut(4) [OF that, of r] that by (simp add: r table_map_sources dest_match_def)
  have keys: "map_of es s \<noteq> None \<longleftrightarrow> s \<in> fst ` set es" for es :: "'a srcEntry list" and s
    by (simp add: map_of_eq_None_iff)
  have none: "\<not> (src_match s src \<and> dest_match d dst)" if "table_map t (s, d) \<noteq> None" "?best (destKey d) = None" for s d
    using nodeBest_longest [OF at, of "destKey d" src] that map keys by fastforce
  have l: "Table_Lookup t src dst = lookupLoop ?n src ?a None"
    using dst by (simp add: Table_Lookup_def r rootOf_def)
  from lookupLoop_deepest [OF table_ok_root [OF ok, of "Is4 dst"], of src ?a None] show ?thesis
  proof (elim disjE exE conjE)
    fix k v
    assume k: "lookupLoop ?n src ?a None = Some v" "?best k = Some v" "\<forall>k'>k. ?best k' = None"
    then have "srcs_at ?n ?a k \<noteq> []" by auto
    then obtain d where d: "dest_match d dst" "destKey d = k" using level_dest [OF ok dst] by blast
    obtain s where s: "map_of (srcs_at ?n ?a k) s = Some v" "longest (srcs_at ?n ?a k) src s"
      using nodeBest_longest [OF at, of k src] k(2) by auto
    have "p_Bits d' < p_Bits d \<or> d' = d \<and> p_Bits s' \<le> p_Bits s"
      if m: "table_map t (s', d') \<noteq> None" "src_match s' src" "dest_match d' dst" for s' d'
    proof -
      have "destKey d' \<le> k" using none [OF m(1)] k(3) m by (meson leI)
      then consider "p_Bits d' < p_Bits d" | "d' = d" using destKey_Bits [OF d(1) m(3)] d(2) by auto
      then show ?thesis
      proof cases
        case 2
        then have "s' \<in> fst ` set (srcs_at ?n ?a k)" using m(1,3) map keys d(2) by metis
        then show ?thesis using s(2) m(2) 2 unfolding longest_def by blast
      qed simp
    qed
    moreover have "table_map t (s, d) = Some v" using map [OF d(1)] d(2) s(1) by simp
    moreover have "src_match s src" using s(2) by (simp add: longest_def)
    ultimately show ?thesis
      unfolding best_match_def l k(1) option.case using d(1) by blast
  next
    assume "lookupLoop ?n src ?a None = None" "\<forall>k. ?best k = None"
    then show ?thesis unfolding best_match_def l using none by simp
  qed
qed

section \<open>The interface\<close>

datatype 'v table_op = OpSet prefix prefix 'v | OpRemove prefix prefix | OpRemoveValue 'v

fun op_ok :: "'v table_op \<Rightarrow> bool" where
  "op_ok (OpSet src dst v) = (prefix_ok src \<and> prefix_ok dst)"
| "op_ok (OpRemove src dst) = (prefix_ok src \<and> prefix_ok dst)"
| "op_ok (OpRemoveValue v) = True"

fun spec_op :: "(prefix \<times> prefix \<rightharpoonup> 'v) \<Rightarrow> 'v table_op \<Rightarrow> (prefix \<times> prefix \<rightharpoonup> 'v)" where
  "spec_op m (OpSet src dst v) = (if acceptable src dst then m((Masked src, Masked dst) \<mapsto> v) else m)"
| "spec_op m (OpRemove src dst) = (if acceptable src dst then m((Masked src, Masked dst) := None) else m)"
| "spec_op m (OpRemoveValue v) = (\<lambda>k. if m k = Some v then None else m k)"

fun table_step :: "'v Table \<Rightarrow> 'v table_op \<Rightarrow> 'v Table" where
  "table_step t (OpSet src dst v) = Table_Set t src dst v"
| "table_step t (OpRemove src dst) = Table_Remove t src dst"
| "table_step t (OpRemoveValue v) = Table_RemoveValue t v"

text \<open>
  What the forwarding table and the steering table rely on. \<open>tmap\<close> is the contents, \<open>act\<close> one
  operation.
\<close>

locale sadr_table =
  fixes inv :: "'t \<Rightarrow> bool"
    and tmap :: "'t \<Rightarrow> (prefix \<times> prefix \<rightharpoonup> 'v)"
    and fresh :: 't
    and act :: "'t \<Rightarrow> 'v table_op \<Rightarrow> 't"
    and find :: "'t \<Rightarrow> addr \<Rightarrow> addr \<Rightarrow> 'v option"
  assumes fresh_inv: "inv fresh" and fresh_map: "tmap fresh = Map.empty"
    and act_law: "inv t \<Longrightarrow> op_ok c \<Longrightarrow> inv (act t c) \<and> tmap (act t c) = spec_op (tmap t) c"
    and find_law: "inv t \<Longrightarrow> best_match (tmap t) src dst (find t src dst)"
begin

lemma history:
  assumes "inv t" "list_all op_ok cs"
  shows "inv (foldl act t cs) \<and> tmap (foldl act t cs) = foldl spec_op (tmap t) cs"
  using assms by (induction cs arbitrary: t) (auto simp: act_law)

lemma history_find:
  assumes "list_all op_ok cs"
  shows "best_match (foldl spec_op Map.empty cs) src dst (find (foldl act fresh cs) src dst)"
  using history [OF fresh_inv assms] find_law fresh_map by metis

text \<open>An entry for a destination hides every shorter destination from the sources it matches.\<close>

lemma find_hides:
  assumes inv: "inv t" and e: "tmap t (s, d) = Some v" "src_match s src" "dest_match d dst"
  shows "\<exists>s' d' v'. find t src dst = Some v' \<and> tmap t (s', d') = Some v' \<and> src_match s' src \<and>
    dest_match d' dst \<and> (p_Bits d < p_Bits d' \<or> d' = d)"
proof (cases "find t src dst")
  case None
  then show ?thesis using find_law [OF inv, of src dst] e by (auto simp: best_match_def)
next
  case (Some w)
  then show ?thesis using find_law [OF inv, of src dst] e by (fastforce simp: best_match_def)
qed

end

interpretation sadr: sadr_table table_ok table_map None table_step Table_Lookup
proof
  show "table_ok t \<Longrightarrow> op_ok c \<Longrightarrow> table_ok (table_step t c) \<and> table_map (table_step t c) = spec_op (table_map t) c"
    for t :: "'a Table" and c
    by (cases c) (simp_all add: Set_ok Remove_ok RemoveValue_ok)
qed (simp_all add: Lookup_best)

text \<open>
  C6. The copy-on-write trie is a map: after any sequence of \<open>Set\<close>, \<open>Remove\<close> and \<open>RemoveValue\<close> on
  an empty table it holds exactly the entries of the (source, destination) map the same sequence
  builds, prefixes cut to their length, requests with an invalid destination or mixed families
  ignored, and every node satisfies the trie invariant.
\<close>

theorem sadr_table_is_map:
  assumes "list_all op_ok cs"
  shows "table_map (foldl table_step None cs) = foldl spec_op Map.empty cs \<and> table_ok (foldl table_step None cs)"
  using sadr.history [of None cs] assms by simp

theorem sadr_table_is_map_witness:
  "let dst = PrefixFrom (Addr4 0x0a000001) 8; src = PrefixFrom (Addr4 0xc0a80000) 16;
       cs = [OpSet noPrefix dst (1::nat), OpSet src dst 2, OpRemove noPrefix dst]
   in table_map (foldl table_step None cs) = foldl spec_op Map.empty cs \<and> table_ok (foldl table_step None cs)"
  unfolding Let_def by (rule sadr_table_is_map) simp

text \<open>
  C7. \<open>Lookup\<close> is longest match, destination first: after any sequence of operations it returns the
  value of a matching entry such that every other matching entry has a shorter destination, or the
  same destination and no longer a source; and it finds nothing only if no entry matches.
\<close>

theorem sadr_lookup_longest:
  assumes "list_all op_ok cs"
  shows "best_match (foldl spec_op Map.empty cs) src dst (Table_Lookup (foldl table_step None cs) src dst)"
  using sadr.history_find [OF assms] .

theorem sadr_lookup_longest_witness:
  "let wide = PrefixFrom (Addr4 0x0a000000) 8; narrow = PrefixFrom (Addr4 0x0a010000) 16;
       src = PrefixFrom (Addr4 0xc0a80000) 16;
       cs = [OpSet noPrefix wide (1::nat), OpSet src narrow 2]
   in best_match (foldl spec_op Map.empty cs) (Addr4 0x0a000005) (Addr4 0x0a010001)
        (Table_Lookup (foldl table_step None cs) (Addr4 0x0a000005) (Addr4 0x0a010001))"
  unfolding Let_def by (rule sadr_lookup_longest) simp

text \<open>
  C8. The per-length source index changes no answer: wherever \<open>indexSrcs\<close> builds one, looking the
  address up in its maps finds what the ordered scan of the sources finds.
\<close>

theorem source_index_exact:
  assumes "srcs_ok fam es" "indexSrcs es = Some byLen"
  shows "lookupIndex byLen src = lookupScan es src"
  using assms index_is_scan [OF assms(1)] by (auto simp: indexSrcs_def Let_def split: prod.splits if_splits)

theorem source_index_exact_witness:
  "let es = map (\<lambda>i. (PrefixFrom (Addr4 (push_bit 24 i)) 8, i)) [1, 2, 3, 4]
   in srcs_ok 32 es \<and> lookupIndex (groupSrcs es) (Addr4 0x03040506) = lookupScan es (Addr4 0x03040506)"
proof -
  let ?es = "map (\<lambda>i. (PrefixFrom (Addr4 (push_bit 24 i)) 8, i)) [1, 2, 3, 4]"
  have ok: "srcs_ok 32 ?es"
    by (simp add: srcs_ok_Cons PrefixFrom_eq mask6_def) code_simp
  have "indexSrcs ?es = Some (groupSrcs ?es)"
    by (simp add: indexSrcs_def indexThreshold_def)
  from ok source_index_exact [OF ok this] show ?thesis unfolding Let_def by (rule conjI)
qed

section \<open>Iteration\<close>

definition nodeDest :: "bool \<Rightarrow> u128 \<Rightarrow> nat \<Rightarrow> prefix" where
  "nodeDest v4 a k = Masked (if v4 then PrefixFrom (Unmap (Addr6 a)) (int k - 96) else PrefixFrom (Addr6 a) (int k))"

definition level_ok :: "bool \<Rightarrow> u128 \<Rightarrow> nat \<Rightarrow> bool" where
  "level_ok v4 a k \<longleftrightarrow> k \<le> 128 \<and> (v4 \<longrightarrow> 96 \<le> k \<and> agree 96 a v4mapped)"

lemma Unmap_mapped:
  assumes "agree 96 a v4mapped"
  shows "Unmap (Addr6 a) = Addr4 (ucast a)" "As16 (Addr4 (ucast a)) = a"
proof -
  have b: "bit a j \<longleftrightarrow> 32 \<le> j \<and> j < 48" if "32 \<le> j" "j < 128" for j
    using spec [OF assms [unfolded agree_def], of "127 - j"] that by (simp add: bit_v4mapped)
  have "drop_bit 32 a = 0xffff"
  proof (rule bit_word_eqI)
    fix i assume "i < LENGTH(128)"
    have m: "(0xffff :: u128) = mask 16" by (simp add: mask_eq_exp_minus_1)
    show "bit (drop_bit 32 a) i = bit (0xffff :: u128) i"
      unfolding m using b [of "32 + i"] bit_imp_le_length [of a "32 + i"] by (auto simp: bit_simps)
  qed
  then show "Unmap (Addr6 a) = Addr4 (ucast a)" by (simp add: Unmap_def)
  show "As16 (Addr4 (ucast a)) = a"
  proof (rule bit_word_eqI)
    fix i assume "i < LENGTH(128)"
    then show "bit (As16 (Addr4 (ucast a))) i = bit a i"
      using b [of i] by (simp add: bit_As16_4 bit_simps del: As16.simps)
  qed
qed

text \<open>A level of a trie and the prefix reported for it.\<close>

lemma nodeDest_ok:
  assumes "level_ok v4 a k"
  shows "canonical (nodeDest v4 a k)" "Is4 (p_ip (nodeDest v4 a k)) = v4" "destKey (nodeDest v4 a k) = k"
    "agree k a (As16 (p_ip (nodeDest v4 a k)))"
proof -
  let ?p = "if v4 then PrefixFrom (Addr4 (ucast a)) (int k - 96) else PrefixFrom (Addr6 a) (int k)"
  have p: "nodeDest v4 a k = Masked ?p" "prefix_ok ?p" "p_IsValid ?p" "Is4 (p_ip ?p) = v4"
    "destKey ?p = k" "As16 (p_ip ?p) = a"
    using assms Unmap_mapped [of a] by (auto simp: nodeDest_def level_ok_def destKey_def simp del: As16.simps(2))
  note m = Masked_Is4 [OF p(2,3)]
  show "canonical (nodeDest v4 a k)" "Is4 (p_ip (nodeDest v4 a k)) = v4" using m p(1,4) by simp_all
  show "destKey (nodeDest v4 a k) = k" "agree k a (As16 (p_ip (nodeDest v4 a k)))"
    using key_eq [OF m(1) p(2,3) m(2)] p(1,5,6) by simp_all
qed

lemma nodeDest_cong:
  assumes "level_ok v4 a k" "level_ok v4 b k" "agree k a b"
  shows "nodeDest v4 a k = nodeDest v4 b k"
proof -
  note da = nodeDest_ok [OF assms(1)] and db = nodeDest_ok [OF assms(2)]
  have c: "prefix_ok (nodeDest v4 b k)" "p_IsValid (nodeDest v4 b k)" "Masked (nodeDest v4 b k) = nodeDest v4 b k"
    using db(1) by (simp_all add: canonical_def)
  have "agree k (As16 (p_ip (nodeDest v4 b k))) (As16 (p_ip (nodeDest v4 a k)))"
    using da(4) db(4) assms(3) agree_trans agree_sym by metis
  then show ?thesis using key_eq [OF da(1) c(1,2)] da(2,3) db(2,3) c(3) by simp
qed

lemma walk_levels:
  assumes "trie_ok ok n" "\<forall>a k. srcs_at n a k \<noteq> [] \<longrightarrow> level_ok v4 a k"
  shows "x \<in> set (walk n v4) \<longleftrightarrow>
    (\<exists>a k s v. (s, v) \<in> set (srcs_at n a k) \<and> x = \<lparr>Source = s, Destination = nodeDest v4 a k, Value = v\<rparr>)"
  using assms
proof (induction n)
  case (trieNode na nlen bi bs es any c0 c1)
  let ?n = "trieNode na nlen bi bs es any c0 c1"
  have u: "under na nlen False c0" "under na nlen True c1" and ok: "trie_ok ok c0" "trie_ok ok c1"
    using trieNode.prems(1) by simp_all
  have c0: "srcs_at ?n a k = srcs_at c0 a k" if "srcs_at c0 a k \<noteq> []" for a k
    using under_srcs_at [OF u(1), of k a] that by auto
  have c1: "srcs_at ?n a k = srcs_at c1 a k" if "srcs_at c1 a k \<noteq> []" for a k
    using under_srcs_at [OF u(2), of k a] that by auto
  have lv: "\<forall>a k. srcs_at c0 a k \<noteq> [] \<longrightarrow> level_ok v4 a k" "\<forall>a k. srcs_at c1 a k \<noteq> [] \<longrightarrow> level_ok v4 a k"
    using trieNode.prems(2) c0 c1 by metis+
  note IH = trieNode.IH(1) [OF ok(1) lv(1)] trieNode.IH(2) [OF ok(2) lv(2)]
  have here: "nodeDest v4 a nlen = nodeDest v4 na nlen" if "agree nlen na a" "es \<noteq> []" for a
  proof (rule nodeDest_cong)
    show "level_ok v4 a nlen" "level_ok v4 na nlen"
      using trieNode.prems(2) that by (auto dest: spec [where x = nlen])
    show "agree nlen a na" using that(1) by (simp add: agree_sym)
  qed
  have split: "(s, v) \<in> set (srcs_at ?n a k) \<longleftrightarrow> k = nlen \<and> agree nlen na a \<and> (s, v) \<in> set es \<or>
      (s, v) \<in> set (srcs_at c0 a k) \<or> (s, v) \<in> set (srcs_at c1 a k)" for s v a k
    using c0 [of a k] c1 [of a k] under_srcs_at [OF u(1), of k a] under_srcs_at [OF u(2), of k a]
    by (cases "k = nlen"; cases "srcs_at c0 a k = []"; cases "srcs_at c1 a k = []") (auto split: if_splits)
  have w: "x \<in> set (walk ?n v4) \<longleftrightarrow> (\<exists>s v. (s, v) \<in> set es \<and> x = \<lparr>Source = s, Destination = nodeDest v4 na nlen, Value = v\<rparr>) \<or>
      x \<in> set (walk c0 v4) \<or> x \<in> set (walk c1 v4)"
    by (auto simp: nodeDest_def Let_def)
  have e: "(\<exists>a k s v. (k = nlen \<and> agree nlen na a \<and> (s, v) \<in> set es) \<and>
        x = \<lparr>Source = s, Destination = nodeDest v4 a k, Value = v\<rparr>) \<longleftrightarrow>
      (\<exists>s v. (s, v) \<in> set es \<and> x = \<lparr>Source = s, Destination = nodeDest v4 na nlen, Value = v\<rparr>)"
  proof (intro iffI; elim exE conjE)
    fix a k s v
    assume "k = nlen" "agree nlen na a" and m: "(s, v) \<in> set es"
      and x: "x = \<lparr>Source = s, Destination = nodeDest v4 a k, Value = v\<rparr>"
    moreover from m have "es \<noteq> []" by auto
    ultimately have "nodeDest v4 a k = nodeDest v4 na nlen" using here [of a] by simp
    then show "\<exists>s v. (s, v) \<in> set es \<and> x = \<lparr>Source = s, Destination = nodeDest v4 na nlen, Value = v\<rparr>"
      using m x by blast
  qed (use agree_refl in blast)
  show ?case
    unfolding w IH split e [symmetric] by blast
qed simp

lemma All_exact:
  assumes "table_ok t"
  shows "x \<in> set (Table_All t) \<longleftrightarrow> table_map t (Source x, Destination x) = Some (Value x)"
proof (cases t)
  case (Some r)
  have ok: "table_ok (Some r)" using assms Some by simp
  have lv: "\<forall>a k. srcs_at (rootOf r v4) a k \<noteq> [] \<longrightarrow> level_ok v4 a k" for v4
    using ok trie_ok_le [OF table_ok_root [OF ok]] by (auto simp: level_ok_def table_ok_def rootOf_def)
  note walk = walk_levels [OF table_ok_root [OF ok] lv]
  have src: "sourcesOf t (nodeDest v4 a k) = srcs_at (rootOf r v4) a k" if "level_ok v4 a k" for v4 a k
    using nodeDest_ok [OF that] srcs_at_cong [OF nodeDest_ok(4) [OF that], of "rootOf r v4"]
    by (simp add: Some sourcesOf_def)
  have mem: "table_map t (s, d) = Some v \<longleftrightarrow> canonical d \<and> (s, v) \<in> set (sourcesOf t d)" for s d v
    using sourcesOf_ok [OF assms, of d] by (auto simp: table_map_sources srcs_ok_def)
  have "x \<in> set (walk (rootOf r v4) v4) \<longleftrightarrow>
      table_map t (Source x, Destination x) = Some (Value x) \<and> Is4 (p_ip (Destination x)) = v4" for v4
  proof
    assume "x \<in> set (walk (rootOf r v4) v4)"
    then obtain a k s v where "(s, v) \<in> set (srcs_at (rootOf r v4) a k)"
      and x: "x = \<lparr>Source = s, Destination = nodeDest v4 a k, Value = v\<rparr>" unfolding walk by blast
    moreover from this have "level_ok v4 a k" using lv [of v4] by (metis empty_iff empty_set)
    ultimately show "table_map t (Source x, Destination x) = Some (Value x) \<and> Is4 (p_ip (Destination x)) = v4"
      using nodeDest_ok src by (simp add: mem)
  next
    assume e: "table_map t (Source x, Destination x) = Some (Value x) \<and> Is4 (p_ip (Destination x)) = v4"
    let ?d = "Destination x"
    have c: "canonical ?d" and m: "(Source x, Value x) \<in> set (srcs_at (rootOf r v4) (As16 (p_ip ?d)) (destKey ?d))"
    proof -
      have "canonical ?d \<and> (Source x, Value x) \<in> set (sourcesOf t ?d)" using e by (simp only: mem)
      then show "canonical ?d" "(Source x, Value x) \<in> set (srcs_at (rootOf r v4) (As16 (p_ip ?d)) (destKey ?d))"
        using e by (simp_all add: Some sourcesOf_def)
    qed
    then have l: "level_ok v4 (As16 (p_ip ?d)) (destKey ?d)" using lv [of v4] by (metis empty_iff empty_set)
    note nd = nodeDest_ok [OF l]
    have "nodeDest v4 (As16 (p_ip ?d)) (destKey ?d) = ?d"
      using key_eq [OF nd(1), of ?d] c nd e by (auto simp: canonical_def)
    then show "x \<in> set (walk (rootOf r v4) v4)"
      unfolding walk using m by (intro exI [of _ "As16 (p_ip ?d)"] exI [of _ "destKey ?d"] exI conjI) (assumption, simp)
  qed
  from this [of True] this [of False] show ?thesis
    by (auto simp: Table_All_def Some rootOf_def)
qed (simp add: Table_All_def)

text \<open>
  \<open>All\<close> enumerates the table: after any sequence of operations the routes it yields are exactly
  the entries of the map the sequence builds, destinations read back from the trie in canonical form.
\<close>

theorem sadr_all_exact:
  assumes "list_all op_ok cs"
  shows "x \<in> set (Table_All (foldl table_step None cs)) \<longleftrightarrow>
    foldl spec_op Map.empty cs (Source x, Destination x) = Some (Value x)"
  using All_exact [of "foldl table_step None cs" x] sadr.history [of None cs] assms by simp

theorem sadr_all_exact_witness:
  "let cs = [OpSet noPrefix (PrefixFrom (Addr4 0x0a000001) 8) (1::nat), OpSet noPrefix (PrefixFrom (Addr6 7) 128) 2,
             OpRemoveValue 1]
   in \<lparr>Source = noPrefix, Destination = PrefixFrom (Addr6 7) 128, Value = 2\<rparr> \<in> set (Table_All (foldl table_step None cs))"
  unfolding Let_def
  by (subst sadr_all_exact) (simp_all add: acceptable_def mask6_def)

end
