(* ===== verification/Route_Table.thy ===== *)
theory Route_Table
  imports Sadr_Table
begin

text \<open>
  The forwarding table of \<open>internal/netstack/route.go\<close>: the shared table of \<open>sadr\<close> holding peer
  pointers, the \<open>Unreachable\<close> sentinel kept for a retracted prefix, and the coalesced change
  notification. A peer pointer is the sentinel or an address.
\<close>

section \<open>Model\<close>

datatype peerRef = Unreachable | PeerAt nat

text \<open>\<open>rt_changed\<close> is the channel of capacity one: \<open>None\<close> for nil, else whether it holds a value.\<close>

record RouteTable =
  rt_table :: "peerRef Table"
  rt_changed :: "bool option"

definition NewRouteTable :: RouteTable where
  "NewRouteTable = \<lparr>rt_table = None, rt_changed = Some False\<rparr>"

definition IsUnreachable :: "peerRef \<Rightarrow> bool" where
  "IsUnreachable p = (p = Unreachable)"

definition Snapshot :: "RouteTable \<Rightarrow> peerRef Route list" where
  "Snapshot rt = Table_All (rt_table rt)"

definition notify :: "RouteTable \<Rightarrow> RouteTable" where
  "notify rt = (case rt_changed rt of None \<Rightarrow> rt | Some _ \<Rightarrow> rt\<lparr>rt_changed := Some True\<rparr>)"

definition RouteTable_Set :: "RouteTable \<Rightarrow> prefix \<Rightarrow> prefix \<Rightarrow> peerRef \<Rightarrow> RouteTable" where
  "RouteTable_Set rt src dst peer = notify (rt\<lparr>rt_table := Table_Set (rt_table rt) src dst peer\<rparr>)"

definition RouteTable_Remove :: "RouteTable \<Rightarrow> prefix \<Rightarrow> prefix \<Rightarrow> RouteTable" where
  "RouteTable_Remove rt src dst = notify (rt\<lparr>rt_table := Table_Remove (rt_table rt) src dst\<rparr>)"

definition RemovePeer :: "RouteTable \<Rightarrow> peerRef \<Rightarrow> RouteTable" where
  "RemovePeer rt peer = notify (rt\<lparr>rt_table := Table_RemoveValue (rt_table rt) peer\<rparr>)"

definition RouteTable_Lookup :: "RouteTable \<Rightarrow> addr \<Rightarrow> addr \<Rightarrow> peerRef option" where
  "RouteTable_Lookup rt src dst =
     (case Table_Lookup (rt_table rt) src dst of
        None \<Rightarrow> None
      | Some peer \<Rightarrow> if peer = Unreachable then None else Some peer)"

section \<open>Properties\<close>

fun route_step :: "RouteTable \<Rightarrow> peerRef table_op \<Rightarrow> RouteTable" where
  "route_step rt (OpSet src dst p) = RouteTable_Set rt src dst p"
| "route_step rt (OpRemove src dst) = RouteTable_Remove rt src dst"
| "route_step rt (OpRemoveValue p) = RemovePeer rt p"

lemma notify_table [simp]: "rt_table (notify rt) = rt_table rt"
  by (simp add: notify_def split: option.split)

lemma route_step_table: "rt_table (route_step rt c) = table_step (rt_table rt) c"
  by (cases c) (simp_all add: RouteTable_Set_def RouteTable_Remove_def RemovePeer_def)

lemma route_step_changed: "rt_changed rt \<noteq> None \<Longrightarrow> rt_changed (route_step rt c) = Some True"
  by (cases c) (auto simp: RouteTable_Set_def RouteTable_Remove_def RemovePeer_def notify_def)

lemma route_history:
  assumes "list_all op_ok cs"
  shows "table_ok (rt_table (foldl route_step NewRouteTable cs)) \<and>
    table_map (rt_table (foldl route_step NewRouteTable cs)) = foldl spec_op Map.empty cs"
proof -
  have "rt_table (foldl route_step rt cs) = foldl table_step (rt_table rt) cs" for rt
    by (induction cs arbitrary: rt) (simp_all add: route_step_table)
  then show ?thesis using sadr.history [of None cs] assms by (simp add: NewRouteTable_def)
qed


definition held_ops :: "peerRef table_op list" where
  "held_ops = [OpSet noPrefix (PrefixFrom (Addr6 0) 0) (PeerAt 1),
     OpSet noPrefix (PrefixFrom (Addr6 (push_bit 64 7)) 64) Unreachable,
     OpSet noPrefix (PrefixFrom (Addr6 (push_bit 64 7)) 128) (PeerAt 2)]"

lemma held_lookup:
  "RouteTable_Lookup (foldl route_step NewRouteTable held_ops) (Addr6 1) (Addr6 (push_bit 64 7)) = Some (PeerAt 2)"
  by code_simp


text \<open>
  No change is lost on a mirror: after any operation on a table made by \<open>NewRouteTable\<close> a
  notification is pending until a reader takes it, and what \<open>Snapshot\<close> then returns is the current map.
\<close>

theorem change_is_notified:
  assumes "list_all op_ok cs" "op_ok c"
  shows "rt_changed (foldl route_step NewRouteTable (cs @ [c])) = Some True \<and>
    (x \<in> set (Snapshot (foldl route_step NewRouteTable (cs @ [c]))) \<longleftrightarrow>
      foldl spec_op Map.empty (cs @ [c]) (Source x, Destination x) = Some (Value x))"
proof
  have "rt_changed (foldl route_step rt cs) \<noteq> None" if "rt_changed rt \<noteq> None" for rt
    using that by (induction cs rule: rev_induct) (simp_all add: route_step_changed)
  from this [of NewRouteTable] show "rt_changed (foldl route_step NewRouteTable (cs @ [c])) = Some True"
    by (simp add: route_step_changed NewRouteTable_def)
  have "list_all op_ok (cs @ [c])" using assms by simp
  from route_history [OF this] show "x \<in> set (Snapshot (foldl route_step NewRouteTable (cs @ [c]))) \<longleftrightarrow>
      foldl spec_op Map.empty (cs @ [c]) (Source x, Destination x) = Some (Value x)"
    unfolding Snapshot_def using All_exact by metis
qed

theorem change_is_notified_witness:
  "rt_changed (foldl route_step NewRouteTable ([] @ [OpRemoveValue Unreachable])) = Some True"
  using change_is_notified [of "[]" "OpRemoveValue Unreachable" "\<lparr>Source = noPrefix, Destination = noPrefix, Value = Unreachable\<rparr>"]
  by simp

end
