(* ===== verification/Checksum.thy ===== *)
theory Checksum
  imports Prelude
begin

unbundle bit_operations_syntax

text \<open>
  The Internet checksum: the two loops that \<open>ones\<close> of \<open>srv6/icmp.go\<close> and \<open>udpChecksum\<close> of
  \<open>internal/babel/rawpacket.go\<close> both contain, adding the 16-bit words of a message into a 32-bit
  accumulator and folding the carries, and what they compute.
\<close>

section \<open>Model\<close>

fun onesAdd :: "u32 \<Rightarrow> bytes \<Rightarrow> u32" where
  "onesAdd carrying (a # b # rest) = onesAdd (carrying + ucast (rd16 [a, b])) rest"
| "onesAdd carrying [a] = carrying + push_bit 8 (ucast a)"
| "onesAdd carrying [] = carrying"

function onesFold :: "u32 \<Rightarrow> u32" where
  "onesFold carrying =
     (if drop_bit 16 carrying \<noteq> 0 then onesFold ((carrying AND 0xffff) + drop_bit 16 carrying) else carrying)"
  by pat_completeness auto
termination
proof (relation "measure unat")
  fix carrying :: u32
  assume nz: "drop_bit 16 carrying \<noteq> 0"
  define q r where "q = unat carrying div 2 ^ 16" and "r = unat carrying mod 2 ^ 16"
  have c: "unat carrying = 2 ^ 16 * q + r" "r < 2 ^ 16" by (simp_all add: q_def r_def)
  have hi: "unat (drop_bit 16 carrying) = q" by (simp add: q_def drop_bit_eq_div unat_div_word)
  have lo: "unat (carrying AND 0xffff) = r"
  proof -
    have "carrying AND 0xffff = take_bit 16 carrying" by (simp add: take_bit_eq_mask mask_eq_exp_minus_1)
    then show ?thesis by (simp add: r_def take_bit_eq_mod unat_mod_word)
  qed
  have q: "0 < q" using nz hi by (metis gr0I unat_0 word_unat_eq_iff)
  have "unat carrying < 2 ^ 32" using unsigned_less [of carrying] by simp
  then have "q < 2 ^ 16" using c(1) by simp
  then have "unat ((carrying AND 0xffff) + drop_bit 16 carrying) = r + q"
    using hi lo c(2) by (subst unat_plus_le) simp_all
  then show "((carrying AND 0xffff) + drop_bit 16 carrying, carrying) \<in> measure unat"
    using c q by simp
qed simp

declare onesFold.simps [simp del]

section \<open>The sum\<close>

text \<open>The sum of the 16-bit words of a message, as a number.\<close>

fun wsum :: "bytes \<Rightarrow> nat" where
  "wsum (a # b # rest) = 256 * unat a + unat b + wsum rest"
| "wsum [a] = 256 * unat a"
| "wsum [] = 0"

lemma byte_lt: "unat (a :: byte) < 256"
  using unsigned_less [of a] by simp

lemma unat_u32_of_rd16: "unat (ucast (rd16 [a, b]) :: u32) = 256 * unat a + unat b"
proof -
  have "push_bit 8 (ucast a) AND ucast b = (0 :: u16)"
    by (rule bit_word_eqI) (auto simp: bit_simps dest: bit_imp_le_length)
  then have "rd16 [a, b] = push_bit 8 (ucast a) + ucast b" by (simp add: rd16_eq disjunctive_add_eq_or)
  then have "unat (rd16 [a, b]) = 256 * unat a + unat b"
    using byte_lt [of a] byte_lt [of b]
    by (simp add: push_bit_eq_mult unat_word_ariths unsigned_ucast_eq take_bit_nat_eq_self)
  moreover have "unat (rd16 [a, b]) < 2 ^ 16" using unsigned_less [of "rd16 [a, b]"] by simp
  ultimately show ?thesis by (simp add: unsigned_ucast_eq take_bit_nat_eq_self)
qed

lemma wsum_le: "wsum b \<le> 65535 * ((length b + 1) div 2)"
proof (induction b rule: wsum.induct)
  case (1 a b rest)
  then show ?case using byte_lt [of a] byte_lt [of b] by simp
next
  case (2 a)
  then show ?case using byte_lt [of a] by simp
qed simp

lemma onesAdd_unat: "unat c + wsum b < 2 ^ 32 \<Longrightarrow> unat (onesAdd c b) = unat c + wsum b"
proof (induction c b rule: onesAdd.induct)
  case (1 c a b rest)
  have e: "unat (c + ucast (rd16 [a, b])) = unat c + (256 * unat a + unat b)"
    using "1.prems" unat_u32_of_rd16 [of a b] by (subst unat_plus_le) simp_all
  show ?case using "1.IH" "1.prems" by (simp add: e)
next
  case (2 c a)
  have "unat (push_bit 8 (ucast a) :: u32) = 256 * unat a"
    using byte_lt [of a] by (simp add: push_bit_eq_mult unat_word_ariths unsigned_ucast_eq take_bit_nat_eq_self)
  then show ?case using "2.prems" by (simp add: unat_plus_le)
qed simp

lemma onesFold_step:
  fixes c :: u32
  shows "unat ((c AND 0xffff) + drop_bit 16 c) = unat c mod 65536 + unat c div 65536"
proof -
  have hi: "unat (drop_bit 16 c) = unat c div 65536" by (simp add: drop_bit_eq_div unat_div_word)
  have lo: "unat (c AND 0xffff) = unat c mod 65536"
  proof -
    have "c AND 0xffff = take_bit 16 c" by (simp add: take_bit_eq_mask mask_eq_exp_minus_1)
    then show ?thesis by (simp add: take_bit_eq_mod unat_mod_word)
  qed
  have "unat c < 2 ^ 32" using unsigned_less [of c] by simp
  then have "unat c div 65536 < 65536" by (simp add: div_less_iff_less_mult)
  then show ?thesis using hi lo by (subst unat_plus_le) (simp_all add: add_less_mono [of _ 65536 _ 65536, THEN less_le_trans])
qed

lemma mod_65535_step: "(n mod 65536 + n div 65536) mod 65535 = n mod (65535 :: nat)"
proof -
  define q r where "q = n div 65536" and "r = n mod 65536"
  have "n = 65535 * q + (r + q)" by (simp add: q_def r_def)
  then show ?thesis unfolding q_def [symmetric] r_def [symmetric] by (metis mod_mult_self4)
qed

lemma onesFold_props:
  "unat (onesFold c) mod 65535 = unat c mod 65535 \<and> unat (onesFold c) < 65536 \<and> (unat (onesFold c) = 0 \<longleftrightarrow> unat c = 0)"
proof (induction c rule: onesFold.induct)
  case (1 c)
  have hi: "unat (drop_bit 16 c) = unat c div 65536" by (simp add: drop_bit_eq_div unat_div_word)
  show ?case
  proof (cases "drop_bit 16 c = 0")
    case True
    then have "unat c div 65536 = 0" using hi by simp
    then have "unat c < 65536" by (simp add: div_eq_0_iff)
    then show ?thesis using True by (simp add: onesFold.simps [of c])
  next
    case False
    let ?c = "(c AND 0xffff) + drop_bit 16 c"
    have "0 < unat c div 65536" using False hi by (metis gr0I unat_0 word_unat_eq_iff)
    then have "0 < unat c" by (metis div_0 gr0I less_nat_zero_code)
    moreover have "0 < unat ?c" using \<open>0 < unat c div 65536\<close> onesFold_step [of c] by simp
    moreover have "unat ?c mod 65535 = unat c mod 65535" by (simp only: onesFold_step mod_65535_step)
    ultimately show ?thesis using "1.IH" [OF False] False by (simp add: onesFold.simps [of c])
  qed
qed

lemma unat_not_u16: "unat (NOT x :: u16) = 65535 - unat x"
proof -
  have "NOT x = -1 - x" by (simp add: not_eq_complement)
  moreover have "x \<le> -1" by simp
  ultimately have "unat (NOT x) = unat (-1 :: u16) - unat x" by (simp only: unat_minus_le)
  moreover have "unat (-1 :: u16) = 65535" by (simp add: unsigned_minus_1_eq_mask mask_eq_exp_minus_1)
  ultimately show ?thesis by simp
qed

lemma wsum_append: "even (length xs) \<Longrightarrow> wsum (xs @ ys) = wsum xs + wsum ys"
  by (induction xs rule: wsum.induct) auto

lemma onesAdd_append: "even (length xs) \<Longrightarrow> onesAdd c (xs @ ys) = onesAdd (onesAdd c xs) ys"
  by (induction c xs rule: onesAdd.induct) auto

lemma wsum_put16: "wsum (put16 c) = unat c"
proof -
  have "unat c < 2 ^ 16" using unsigned_less [of c] by simp
  then have "unat (ucast c :: u32) = unat c" by (simp add: unsigned_ucast_eq take_bit_nat_eq_self)
  then show ?thesis
    using unat_u32_of_rd16 [of "ucast (drop_bit 8 c)" "ucast c"] rd_put(4) [of c] by (simp add: put16_eq)
qed

lemma onesFold_check:
  assumes "unat c \<noteq> 0" "unat c mod 65535 = 0"
  shows "onesFold c = 0xffff"
proof -
  have "unat (onesFold c) mod 65535 = 0" "unat (onesFold c) < 65536" "unat (onesFold c) \<noteq> 0"
    using onesFold_props [of c] assms by auto
  then have "unat (onesFold c) = 65535" by (cases "unat (onesFold c) < 65535") auto
  then show ?thesis by (simp add: word_unat_eq_iff)
qed

end
