(* ===== verification/Srv6.thy ===== *)
theory Srv6
  imports Ip_Packet Sadr_Table Checksum
begin

unbundle bit_operations_syntax

text \<open>
  Segment routing of \<open>srv6/srv6.go\<close>, \<open>srv6/local.go\<close>, \<open>srv6/icmp.go\<close>, \<open>srv6/steer.go\<close> and the
  table half of \<open>srv6/segments.go\<close>: encapsulation, the routing header parser, the End and
  End.DT46 behaviours, the ICMPv6 answers, and the steering table, a client of the table of
  \<open>sadr\<close>. A packet rewritten in place is returned beside the result; error texts are names. The
  diagnostic strings and the configuration file decoding are not modelled.
\<close>

section \<open>Model\<close>

definition ipv6HeaderLen :: nat where "ipv6HeaderLen = 40"
definition ipv4HeaderLen :: nat where "ipv4HeaderLen = 20"
definition srhFixedLen :: nat where "srhFixedLen = 8"
definition addrLen :: nat where "addrLen = 16"
definition nextHeaderRouting :: byte where "nextHeaderRouting = 43"
definition nextHeaderHopByHop :: byte where "nextHeaderHopByHop = 0"
definition nextHeaderDestOpts :: byte where "nextHeaderDestOpts = 60"
definition nextHeaderFragment :: byte where "nextHeaderFragment = 44"
definition extensionUnit :: nat where "extensionUnit = 8"
definition maxExtensionHeaders :: nat where "maxExtensionHeaders = 8"
definition NextHeaderIPv4 :: byte where "NextHeaderIPv4 = 4"
definition NextHeaderIPv6 :: byte where "NextHeaderIPv6 = 41"
definition routingTypeSegment :: byte where "routingTypeSegment = 4"
definition MinimumIPv6MTU :: nat where "MinimumIPv6MTU = 1280"
definition MaxSegments :: nat where "MaxSegments = 16"
definition DefaultHopLimit :: byte where "DefaultHopLimit = 64"

lemmas srv6_consts = ipv6HeaderLen_def ipv4HeaderLen_def srhFixedLen_def addrLen_def nextHeaderRouting_def
  nextHeaderHopByHop_def nextHeaderDestOpts_def nextHeaderFragment_def extensionUnit_def
  maxExtensionHeaders_def NextHeaderIPv4_def NextHeaderIPv6_def routingTypeSegment_def
  MinimumIPv6MTU_def MaxSegments_def DefaultHopLimit_def

datatype srv6_error =
    ErrNotSegmentRouted | ErrExhausted | ErrHopLimit | ErrHeaderInvalid
  | RoutingTooShort | RoutingTruncated | TooManySegments | SegmentsToGo | Undeliverable | NoPayload
  | EmptyPath | PathTooLong | UnusableSource | UnusableSegment
  | NothingInside | InnerTooShort | InnerVersion | PayloadTooLong | OutsideBuffer | NoRoom

definition addr16 :: "addr \<Rightarrow> bytes" where "addr16 a = be_bytes 16 (As16 a)"

definition Usable :: "addr \<Rightarrow> bool" where
  "Usable a = (Is6 a \<and> \<not> Is4In6 a \<and> \<not> IsUnspecified a \<and> \<not> IsMulticast a)"

record Header =
  SegmentsLeft :: byte
  Segments :: "addr list"
  Flags :: byte
  Tag :: u16
  NextHeader :: byte
  Offset :: nat

definition Path :: "Header \<Rightarrow> addr list" where "Path h = rev (Segments h)"

definition Active :: "Header \<Rightarrow> addr option" where
  "Active h = (if unat (SegmentsLeft h) \<ge> length (Segments h) then None
               else Some (Segments h ! unat (SegmentsLeft h)))"

definition Overhead :: "nat \<Rightarrow> nat" where
  "Overhead segments = ipv6HeaderLen + srhFixedLen + addrLen * segments"

definition CheckPath :: "addr \<Rightarrow> addr list \<Rightarrow> srv6_error option" where
  "CheckPath source path =
     (if length path = 0 then Some EmptyPath
      else if length path > MaxSegments then Some PathTooLong
      else if \<not> Usable source then Some UnusableSource
      else if \<not> list_all Usable path then Some UnusableSegment
      else None)"

definition innerNextHeader :: "bytes \<Rightarrow> (srv6_error, byte) result" where
  "innerNextHeader inner =
     (if length inner = 0 then Inl NothingInside
      else let version = drop_bit 4 (inner ! 0)
        in if version = 4 then (if length inner < ipv4HeaderLen then Inl InnerTooShort else Inr NextHeaderIPv4)
           else if version = 6 then (if length inner < ipv6HeaderLen then Inl InnerTooShort else Inr NextHeaderIPv6)
           else Inl InnerVersion)"

definition checkEncapsulation :: "bytes \<Rightarrow> addr \<Rightarrow> addr list \<Rightarrow> (srv6_error, nat) result" where
  "checkEncapsulation inner source path =
     (case CheckPath source path of
        Some e \<Rightarrow> Inl e
      | None \<Rightarrow>
          (case innerNextHeader inner of
             Inl e \<Rightarrow> Inl e
           | Inr _ \<Rightarrow>
               if srhFixedLen + addrLen * length path + length inner > 0xffff then Inl PayloadTooLong
               else Inr (Overhead (length path))))"

text \<open>\<open>reversed\<close> fills a slice from the back.\<close>

definition reversed :: "addr list \<Rightarrow> addr list" where
  "reversed path = fold (\<lambda>(i, segment) out. out[length path - 1 - i := segment])
     (zip [0..<length path] path) (replicate (length path) AddrZ)"

text \<open>
  \<open>writeOuter\<close>: the stores in source order, each \<open>copy\<close> or \<open>PutUint16\<close> a \<open>put_at\<close>; the error of
  \<open>innerNextHeader\<close> is discarded, leaving zero.
\<close>

definition writeSegments :: "nat \<Rightarrow> addr list \<Rightarrow> bytes \<Rightarrow> bytes" where
  "writeSegments base segments out =
     fold (\<lambda>(i, segment) out. put_at (base + srhFixedLen + addrLen * i) (addr16 segment) out)
       (zip [0..<length segments] segments) out"

definition writeOuter :: "bytes \<Rightarrow> bytes \<Rightarrow> addr \<Rightarrow> addr list \<Rightarrow> bytes" where
  "writeOuter out inner source path =
     (let innerNext = (case innerNextHeader inner of Inr n \<Rightarrow> n | Inl _ \<Rightarrow> 0);
          hopLimit = (if innerNext = NextHeaderIPv6 then inner ! 7 else DefaultHopLimit);
          segments = reversed path;
          lastE = of_nat (length segments - 1) :: byte;
          srhLen = srhFixedLen + addrLen * length segments;
          out = (if innerNext = NextHeaderIPv6 then put_at 0 (take 4 inner) out
                 else put_at 2 (put16 0) (put_at 0 [0x60, 0] out));
          out = put_at 4 (put16 (of_nat (srhLen + length inner))) out;
          out = out[6 := nextHeaderRouting, 7 := hopLimit];
          out = put_at 8 (addr16 source) out;
          out = put_at 24 (addr16 (segments ! unat lastE)) out;
          b = ipv6HeaderLen;
          out = out[b := innerNext, b + 1 := of_nat (2 * length segments), b + 2 := routingTypeSegment,
                    b + 3 := lastE, b + 4 := lastE, b + 5 := 0, b + 6 := 0, b + 7 := 0]
      in writeSegments b segments out)"

definition Encapsulate :: "bytes \<Rightarrow> addr \<Rightarrow> addr list \<Rightarrow> (srv6_error, bytes) result" where
  "Encapsulate inner source path =
     (case checkEncapsulation inner source path of
        Inl e \<Rightarrow> Inl e
      | Inr overhead \<Rightarrow>
          let out = replicate (overhead + length inner) 0;
              out = put_at overhead inner out
          in Inr (put_at 0 (writeOuter (take overhead out) inner source path) out))"

definition EncapsulateInPlace ::
  "bytes \<Rightarrow> int \<Rightarrow> int \<Rightarrow> addr \<Rightarrow> addr list \<Rightarrow> (srv6_error, nat \<times> bytes) result" where
  "EncapsulateInPlace buf offset psize source path =
     (if offset < 0 \<or> psize < 0 \<or> offset + psize > int (length buf) then Inl OutsideBuffer
      else let off = nat offset; sz = nat psize; inner = slice off (off + sz) buf
        in case checkEncapsulation inner source path of
             Inl e \<Rightarrow> Inl e
           | Inr overhead \<Rightarrow>
               if off + overhead + sz > length buf then Inl NoRoom
               else let buf1 = put_at (off + overhead) inner buf;
                        hdr = writeOuter (slice off (off + overhead) buf1)
                                (slice (off + overhead) (off + overhead + sz) buf1) source path
                    in Inr (overhead + sz, put_at off hdr buf1))"

fun findRoutingLoop :: "nat \<Rightarrow> bytes \<Rightarrow> byte \<Rightarrow> nat \<Rightarrow> (srv6_error, nat) result" where
  "findRoutingLoop 0 raw nxt offset = Inl ErrHeaderInvalid"
| "findRoutingLoop (Suc n) raw nxt offset =
     (if nxt = nextHeaderRouting then Inr offset
      else if nxt = nextHeaderHopByHop \<or> nxt = nextHeaderDestOpts then
        (if length raw < offset + extensionUnit then Inl ErrNotSegmentRouted
         else let nxt' = raw ! offset; offset' = offset + extensionUnit * (1 + unat (raw ! (offset + 1)))
              in if offset' > length raw then Inl ErrNotSegmentRouted
                 else findRoutingLoop n raw nxt' offset')
      else if nxt = nextHeaderFragment then Inl ErrHeaderInvalid
      else Inl ErrNotSegmentRouted)"

definition findRouting :: "bytes \<Rightarrow> (srv6_error, nat) result" where
  "findRouting raw = findRoutingLoop maxExtensionHeaders raw (raw ! 6) ipv6HeaderLen"

definition readSegments :: "bytes \<Rightarrow> nat \<Rightarrow> addr list" where
  "readSegments srh count =
     map (\<lambda>i. AddrFrom16 (go_copy (replicate 16 0) (drop (srhFixedLen + addrLen * i) srh))) [0..<count]"

definition Parse :: "bytes \<Rightarrow> (srv6_error, Header) result" where
  "Parse raw =
     (if length raw < ipv6HeaderLen then Inl ErrNotSegmentRouted
      else if drop_bit 4 (raw ! 0) \<noteq> 6 then Inl ErrNotSegmentRouted
      else case findRouting raw of
        Inl e \<Rightarrow> Inl e
      | Inr offset \<Rightarrow>
          let srh = drop offset raw
          in if length srh < srhFixedLen then Inl RoutingTooShort
             else if srh ! 2 \<noteq> routingTypeSegment then Inl ErrNotSegmentRouted
             else let extLen = unat (srh ! 1); total = srhFixedLen + 8 * extLen
               in if length srh < total then Inl RoutingTruncated
                  else let count = unat (srh ! 4) + 1
                    in if 2 * count > extLen then Inl ErrHeaderInvalid
                       else if count > MaxSegments then Inl TooManySegments
                       else let header = \<lparr>SegmentsLeft = srh ! 3, Segments = readSegments srh count,
                                  Flags = srh ! 5, Tag = rd16 (drop 6 srh), NextHeader = srh ! 0, Offset = offset\<rparr>
                         in if unat (SegmentsLeft header) > count then Inl ErrHeaderInvalid else Inr header)"

text \<open>\<open>End\<close> returns the address and the packet as rewritten in place.\<close>

definition End :: "bytes \<Rightarrow> (srv6_error, addr \<times> bytes) result" where
  "End raw =
     (case Parse raw of
        Inl e \<Rightarrow> Inl e
      | Inr header \<Rightarrow>
          if SegmentsLeft header = 0 then Inl ErrExhausted
          else if raw ! 7 \<le> 1 then Inl ErrHopLimit
          else let raw1 = raw[7 := raw ! 7 - 1];
                   left = SegmentsLeft header - 1;
                   raw2 = raw1[Offset header + 3 := left];
                   nxt = Segments header ! unat left
               in Inr (nxt, put_at 24 (addr16 nxt) raw2))"

definition Decap :: "bytes \<Rightarrow> (srv6_error, bytes \<times> byte) result" where
  "Decap raw =
     (if length raw < ipv6HeaderLen \<or> drop_bit 4 (raw ! 0) \<noteq> 6 then Inl ErrNotSegmentRouted
      else let finish = (\<lambda>offset upper.
                 if upper \<noteq> NextHeaderIPv4 \<and> upper \<noteq> NextHeaderIPv6 then Inl Undeliverable
                 else if length raw \<le> offset then Inl NoPayload
                 else Inr (drop offset raw, upper))
        in case Parse raw of
             Inr header \<Rightarrow>
               if SegmentsLeft header \<noteq> 0 then Inl SegmentsToGo
               else finish (Offset header + srhFixedLen + extensionUnit * unat (raw ! (Offset header + 1)))
                      (NextHeader header)
           | Inl ErrNotSegmentRouted \<Rightarrow> finish ipv6HeaderLen (raw ! 6)
           | Inl e \<Rightarrow> Inl e)"

subsection \<open>Local segments\<close>

type_synonym Behavior = byte

definition BehaviorEnd :: Behavior where "BehaviorEnd = 1"
definition BehaviorEndDT46 :: Behavior where "BehaviorEndDT46 = 2"

record Segment =
  seg_SID :: addr
  seg_Behavior :: Behavior

datatype local_error = SIDUnusable | BehaviorUnimplemented | SIDTwice

type_synonym LocalTable = "(addr \<rightharpoonup> Behavior) option"

fun localEntries :: "(addr \<rightharpoonup> Behavior) \<Rightarrow> Segment list \<Rightarrow> (local_error, addr \<rightharpoonup> Behavior) result" where
  "localEntries entries [] = Inr entries"
| "localEntries entries (segment # rest) =
     (if \<not> Usable (seg_SID segment) then Inl SIDUnusable
      else if seg_Behavior segment \<noteq> BehaviorEnd \<and> seg_Behavior segment \<noteq> BehaviorEndDT46
      then Inl BehaviorUnimplemented
      else if entries (seg_SID segment) \<noteq> None then Inl SIDTwice
      else localEntries (entries(seg_SID segment \<mapsto> seg_Behavior segment)) rest)"

definition NewLocalTable :: "Segment list \<Rightarrow> (local_error, LocalTable) result" where
  "NewLocalTable segments =
     (if length segments = 0 then Inr None
      else case localEntries Map.empty segments of Inl e \<Rightarrow> Inl e | Inr entries \<Rightarrow> Inr (Some entries))"

datatype Result =
    ActionPass
  | ActionForward (Next: addr)
  | ActionDeliver (Inner: bytes) (Family: byte)
  | ActionDrop "srv6_error option"

text \<open>\<open>Handle\<close> with the packet as it leaves it; the last branch is the behaviour it cannot know.\<close>

definition Handle :: "LocalTable \<Rightarrow> bytes \<Rightarrow> Result \<times> bytes" where
  "Handle t raw =
     (case t of
        None \<Rightarrow> (ActionPass, raw)
      | Some entries \<Rightarrow>
          if length raw < ipv6HeaderLen \<or> drop_bit 4 (raw ! 0) \<noteq> 6 then (ActionPass, raw)
          else case entries (AddrFrom16 (slice 24 40 raw)) of
            None \<Rightarrow> (ActionPass, raw)
          | Some behavior \<Rightarrow>
              if behavior = BehaviorEnd then
                (case End raw of Inl e \<Rightarrow> (ActionDrop (Some e), raw)
                 | Inr (nxt, raw') \<Rightarrow> (ActionForward nxt, raw'))
              else if behavior = BehaviorEndDT46 then
                (case Decap raw of Inl e \<Rightarrow> (ActionDrop (Some e), raw)
                 | Inr (inner, family) \<Rightarrow> (ActionDeliver inner family, raw))
              else (ActionDrop None, raw))"

subsection \<open>ICMPv6 answers\<close>

definition icmpv6Next :: byte where "icmpv6Next = 58"
definition icmpTimeExceeded :: byte where "icmpTimeExceeded = 3"
definition icmpHopLimitInTranst :: byte where "icmpHopLimitInTranst = 0"
definition icmpParameterProblem :: byte where "icmpParameterProblem = 4"
definition icmpErroneousHeader :: byte where "icmpErroneousHeader = 0"
definition icmpHeaderLen :: nat where "icmpHeaderLen = 8"
definition segmentsLeftInHeader :: nat where "segmentsLeftInHeader = 3"

lemmas icmp_consts = icmpv6Next_def icmpTimeExceeded_def icmpHopLimitInTranst_def
  icmpParameterProblem_def icmpErroneousHeader_def icmpHeaderLen_def segmentsLeftInHeader_def

definition ones :: "u32 \<Rightarrow> bytes \<Rightarrow> u32" where
  "ones carrying b = onesFold (onesAdd carrying b)"

definition icmpChecksum :: "addr \<Rightarrow> addr \<Rightarrow> bytes \<Rightarrow> u16" where
  "icmpChecksum source destination body =
     (let pseudo = replicate 40 0;
          pseudo = put_at 0 (addr16 source) pseudo;
          pseudo = put_at 16 (addr16 destination) pseudo;
          pseudo = put_at 32 (put32 (of_nat (length body))) pseudo;
          pseudo = pseudo[39 := icmpv6Next];
          sum = ones (ones 0 pseudo) body
      in NOT (ucast sum))"

definition carriesICMPError :: "bytes \<Rightarrow> bool" where
  "carriesICMPError offending =
     (case findRouting offending of
        Inr offset \<Rightarrow>
          if length offending < offset + srhFixedLen then False
          else let nxt = offending ! offset;
                   payload = offset + srhFixedLen + extensionUnit * unat (offending ! (offset + 1))
               in nxt = icmpv6Next \<and> length offending > payload \<and> offending ! payload < 128
      | Inl _ \<Rightarrow> offending ! 6 = icmpv6Next \<and> length offending > ipv6HeaderLen \<and> offending ! ipv6HeaderLen < 128)"

definition answerable :: "bytes \<Rightarrow> bool" where
  "answerable offending =
     (if length offending < ipv6HeaderLen \<or> drop_bit 4 (offending ! 0) \<noteq> 6 then False
      else let from = AddrFrom16 (slice 8 24 offending); to = AddrFrom16 (slice 24 40 offending)
        in if IsUnspecified from \<or> IsMulticast from \<or> IsMulticast to then False
           else \<not> carriesICMPError offending)"

definition icmpError :: "bytes \<Rightarrow> addr \<Rightarrow> byte \<Rightarrow> byte \<Rightarrow> u32 \<Rightarrow> bytes option" where
  "icmpError offending source kind code pointer =
     (if \<not> Usable source \<or> \<not> answerable offending then None
      else let destination = AddrFrom16 (slice 8 24 offending);
               quoted = min (length offending) (MinimumIPv6MTU - ipv6HeaderLen - icmpHeaderLen);
               body = (replicate (icmpHeaderLen + quoted) 0)[0 := kind, 1 := code];
               body = put_at 4 (put32 pointer) body;
               body = put_at icmpHeaderLen (take quoted offending) body;
               out = (replicate (ipv6HeaderLen + length body) 0)[0 := 0x60];
               out = put_at 4 (put16 (of_nat (length body))) out;
               out = out[6 := icmpv6Next, 7 := DefaultHopLimit];
               out = put_at 8 (addr16 source) out;
               out = put_at 24 (addr16 destination) out;
               out = put_at ipv6HeaderLen body out
           in Some (put_at (ipv6HeaderLen + 2) (put16 (icmpChecksum source destination body)) out))"

definition TimeExceeded :: "bytes \<Rightarrow> addr \<Rightarrow> bytes option" where
  "TimeExceeded offending source = icmpError offending source icmpTimeExceeded icmpHopLimitInTranst 0"

definition ParameterProblem :: "bytes \<Rightarrow> addr \<Rightarrow> bytes option" where
  "ParameterProblem offending source =
     (if length offending < ipv6HeaderLen then None
      else case findRouting offending of
        Inl _ \<Rightarrow> None
      | Inr offset \<Rightarrow> icmpError offending source icmpParameterProblem icmpErroneousHeader
                        (of_nat (offset + segmentsLeftInHeader)))"

subsection \<open>Steering\<close>

record Policy =
  pol_Source :: addr
  pol_Path :: "addr list"

record Steer =
  st_From :: prefix
  st_To :: prefix
  st_Source :: addr
  st_Via :: "addr list"

definition Policy_Overhead :: "Policy option \<Rightarrow> nat" where
  "Policy_Overhead p = (case p of None \<Rightarrow> 0 | Some p \<Rightarrow> Overhead (length (pol_Path p)))"

definition steerPolicy :: "Steer \<Rightarrow> addr \<Rightarrow> Policy" where
  "steerPolicy s fallback =
     \<lparr>pol_Source = (if \<not> a_IsValid (st_Source s) then fallback else st_Source s), pol_Path = st_Via s\<rparr>"

record SteerTable =
  ste_table :: "Policy Table"
  ste_policies :: "Policy list"
  ste_overhead :: nat

datatype steer_error =
    SteerNoSource | SteerPath srv6_error | SteerSelectsAll | SteerFamilies
  | SteerMapped | SteerUnmasked | SteerZeroLength | SteerTwice | SteerMTU

text \<open>The checks of one selector prefix, \<open>from\<close> or \<open>to\<close>.\<close>

definition checkSelector :: "prefix \<Rightarrow> steer_error option" where
  "checkSelector p =
     (if \<not> p_IsValid p then None
      else if Is4In6 (p_ip p) then Some SteerMapped
      else if Masked p \<noteq> p then Some SteerUnmasked
      else if p_Bits p = 0 then Some SteerZeroLength
      else None)"

definition anyDestination :: "prefix \<Rightarrow> prefix" where
  "anyDestination source =
     (if Is4 (p_ip source) then PrefixFrom (Addr4 0) 0 else PrefixFrom (Addr6 0) 0)"

fun steerEntries ::
  "addr \<Rightarrow> SteerTable \<Rightarrow> (prefix \<times> prefix) list \<Rightarrow> Steer list \<Rightarrow> (steer_error, SteerTable) result" where
  "steerEntries source out seen [] = Inr out"
| "steerEntries source out seen (entry # rest) =
     (let from = st_From entry; to = st_To entry; policy = steerPolicy entry source
      in if \<not> a_IsValid (pol_Source policy) then Inl SteerNoSource
         else case CheckPath (pol_Source policy) (pol_Path policy) of
           Some e \<Rightarrow> Inl (SteerPath e)
         | None \<Rightarrow>
             if \<not> p_IsValid from \<and> \<not> p_IsValid to then Inl SteerSelectsAll
             else if p_IsValid from \<and> p_IsValid to \<and> Is4 (p_ip from) \<noteq> Is4 (p_ip to) then Inl SteerFamilies
             else case checkSelector from of
               Some e \<Rightarrow> Inl e
             | None \<Rightarrow>
                 (case checkSelector to of
                    Some e \<Rightarrow> Inl e
                  | None \<Rightarrow>
                      let destination = (if \<not> p_IsValid to then anyDestination from else to)
                      in if (from, destination) \<in> set seen then Inl SteerTwice
                         else steerEntries source
                           \<lparr>ste_table = Table_Set (ste_table out) from destination policy,
                            ste_policies = ste_policies out @ [policy],
                            ste_overhead = max (ste_overhead out) (Policy_Overhead (Some policy))\<rparr>
                           ((from, destination) # seen) rest))"

definition NewSteerTable :: "Steer list \<Rightarrow> addr \<Rightarrow> (steer_error, SteerTable option) result" where
  "NewSteerTable entries source =
     (if length entries = 0 then Inr None
      else case steerEntries source \<lparr>ste_table = None, ste_policies = [], ste_overhead = 0\<rparr> [] entries of
             Inl e \<Rightarrow> Inl e | Inr out \<Rightarrow> Inr (Some out))"

definition SteerTable_Lookup :: "SteerTable option \<Rightarrow> addr \<Rightarrow> addr \<Rightarrow> Policy option" where
  "SteerTable_Lookup t source destination =
     (case t of None \<Rightarrow> None | Some t \<Rightarrow> Table_Lookup (ste_table t) source destination)"

definition SteerTable_Overhead :: "SteerTable option \<Rightarrow> nat" where
  "SteerTable_Overhead t = (case t of None \<Rightarrow> 0 | Some t \<Rightarrow> ste_overhead t)"

definition CheckMTU :: "SteerTable option \<Rightarrow> int \<Rightarrow> (steer_error, int) result" where
  "CheckMTU t device =
     (let overhead = SteerTable_Overhead t
      in if overhead = 0 then Inr 0
         else let mtu = device - int overhead
              in if mtu < int MinimumIPv6MTU then Inl SteerMTU else Inr mtu)"

record Segments_cap =
  cap_Source :: addr
  cap_Local :: "Segment list"
  cap_Steer :: "Steer list"

datatype segments_error = LocalErr local_error | SteerErr steer_error | SourceUnusable

definition Tables :: "Segments_cap \<Rightarrow> (segments_error, LocalTable \<times> SteerTable option) result" where
  "Tables s =
     (case NewLocalTable (cap_Local s) of
        Inl e \<Rightarrow> Inl (LocalErr e)
      | Inr local \<Rightarrow>
          (case NewSteerTable (cap_Steer s) (cap_Source s) of
             Inl e \<Rightarrow> Inl (SteerErr e)
           | Inr steering \<Rightarrow> Inr (local, steering)))"

definition Segments_Validate :: "Segments_cap \<Rightarrow> int \<Rightarrow> segments_error option" where
  "Segments_Validate s deviceMTU =
     (if a_IsValid (cap_Source s) \<and> \<not> Usable (cap_Source s) then Some SourceUnusable
      else case Tables s of
        Inl e \<Rightarrow> Some e
      | Inr (_, steering) \<Rightarrow>
          if deviceMTU = 0 then None
          else case CheckMTU steering deviceMTU of Inl e \<Rightarrow> Some (SteerErr e) | Inr _ \<Rightarrow> None)"

section \<open>The outer header\<close>

lemma reversed_rev: "reversed path = rev path"
proof -
  have "fold (\<lambda>(i, segment) out. out[n - 1 - i := segment]) (zip [k..<k + length xs] xs) (ys @ zs) = rev xs @ zs"
    if "k + length xs = n" "length ys = length xs" for xs ys zs :: "addr list" and n k
    using that
  proof (induction xs arbitrary: k ys zs)
    case (Cons x xs)
    obtain ys' y where ys: "ys = ys' @ [y]" using Cons.prems(2) by (cases ys rule: rev_cases) auto
    have "n - 1 - k = length ys'" using Cons.prems ys by auto
    then have "(ys @ zs)[n - 1 - k := x] = ys' @ (x # zs)" by (simp add: ys)
    moreover have "[k..<k + length (x # xs)] = k # [Suc k..<Suc k + length xs]" by (simp add: upt_conv_Cons del: upt_Suc)
    ultimately show ?case using Cons.IH [of "Suc k" ys' "x # zs"] Cons.prems ys by (simp del: upt_Suc)
  qed simp
  from this [of 0 path "length path" "replicate (length path) AddrZ" "[]"] show ?thesis
    by (simp add: reversed_def)
qed

lemma length_addr16 [simp]: "length (addr16 a) = 16"
  by (simp add: addr16_def)

lemma length_concat_addr16 [simp]: "length (concat (map addr16 ss)) = 16 * length ss"
  by (induction ss) auto

lemma writeSegments_fill:
  "length p = base + 8 + 16 * k \<Longrightarrow> length p + 16 * length ss \<le> length out \<Longrightarrow>
     fold (\<lambda>(i, segment) out. put_at (base + srhFixedLen + addrLen * i) (addr16 segment) out)
       (zip [k..<k + length ss] ss) (fill p out) = fill (p @ concat (map addr16 ss)) out"
proof (induction ss arbitrary: p k)
  case (Cons s ss)
  have "[k..<k + length (s # ss)] = k # [Suc k..<Suc k + length ss]" by (simp add: upt_conv_Cons del: upt_Suc)
  then show ?case
    using Cons.IH [of "p @ addr16 s" "Suc k"] Cons.prems
    by (simp add: put_at_fill srhFixedLen_def addrLen_def del: upt_Suc)
qed simp

text \<open>A segment routed packet: its fields in wire order.\<close>

definition wire ::
  "bytes \<Rightarrow> u16 \<Rightarrow> byte \<Rightarrow> addr \<Rightarrow> addr \<Rightarrow> byte \<Rightarrow> byte \<Rightarrow> addr list \<Rightarrow> bytes \<Rightarrow> bytes" where
  "wire front plen hop source destination inext left segments inner =
     front @ put16 plen @ [nextHeaderRouting, hop] @ addr16 source @ addr16 destination @
     [inext, of_nat (2 * length segments), routingTypeSegment, left, of_nat (length segments - 1), 0, 0, 0] @
     concat (map addr16 segments) @ inner"

definition outerFront :: "byte \<Rightarrow> bytes \<Rightarrow> bytes" where
  "outerFront inext inner = (if inext = NextHeaderIPv6 then take 4 inner else [0x60, 0, 0, 0])"

definition outerHop :: "byte \<Rightarrow> bytes \<Rightarrow> byte" where
  "outerHop inext inner = (if inext = NextHeaderIPv6 then inner ! 7 else DefaultHopLimit)"

definition outerWire :: "bytes \<Rightarrow> addr \<Rightarrow> addr list \<Rightarrow> byte \<Rightarrow> bytes \<Rightarrow> bytes" where
  "outerWire inner source path inext tail =
     wire (outerFront inext inner) (of_nat (8 + 16 * length path + length inner)) (outerHop inext inner)
       source (hd path) inext (of_nat (length path - 1)) (rev path) tail"

lemma innerNextHeader_cases:
  "innerNextHeader inner = Inr n \<Longrightarrow> (n = 4 \<and> 20 \<le> length inner \<and> drop_bit 4 (inner ! 0) = 4) \<or>
     (n = 41 \<and> 40 \<le> length inner \<and> drop_bit 4 (inner ! 0) = 6)"
  by (auto simp: innerNextHeader_def Let_def srv6_consts split: if_splits)

lemma unat_small: "n < 256 \<Longrightarrow> unat (of_nat n :: byte) = n"
  by (simp add: unat_of_nat take_bit_nat_eq_self)

text \<open>Every byte of the header is assigned: the result does not depend on what was there.\<close>

lemma writeOuter_eq:
  assumes inner: "innerNextHeader inner = Inr n" and path: "0 < length path" "length path \<le> 16"
    and out: "length out = Overhead (length path)"
  shows "writeOuter out inner source path = outerWire inner source path n []"
proof -
  have len: "length out = 48 + 16 * length path" using out by (simp add: Overhead_def srv6_consts)
  have in4: "length (outerFront n inner) = 4"
    using innerNextHeader_cases [OF inner] by (auto simp: outerFront_def srv6_consts)
  have front: "(if n = NextHeaderIPv6 then put_at 0 (take 4 inner) out
      else put_at 2 (put16 0) (put_at 0 [0x60, 0] out)) = fill (outerFront n inner) out"
    using put_at_fill [of "[]" 0 "take 4 inner" out] put_at_fill [of "[]" 0 "[0x60, 0]" out]
      put_at_fill [of "[0x60, 0]" 2 "put16 0" out] in4 len
    by (auto simp: fill_Nil outerFront_def put16_eq)
  have lst: "unat (of_nat (length path - 1) :: byte) = length path - 1" using path by (intro unat_small) simp
  have hd: "rev path ! (length path - 1) = hd path" using path by (simp add: rev_nth hd_conv_nth)
  note pf = put_at_fill update_fill
  have seg: "writeSegments 40 (rev path) (fill p out) = fill (p @ concat (map addr16 (rev path))) out" if "length p = 48" for p
    using writeSegments_fill [of p 40 0 "rev path" out] that len by (simp add: writeSegments_def)
  show ?thesis
    unfolding writeOuter_def Let_def inner sum.case reversed_rev length_rev front lst hd outerWire_def wire_def
    using len in4 path
    by (simp add: pf seg fill_all srv6_consts outerHop_def)
qed

lemma checkEncapsulation_Inr:
  "checkEncapsulation inner source path = Inr ov \<longleftrightarrow>
     CheckPath source path = None \<and> (\<exists>n. innerNextHeader inner = Inr n) \<and>
     8 + 16 * length path + length inner \<le> 0xffff \<and> ov = Overhead (length path)"
  by (auto simp: checkEncapsulation_def srv6_consts split: option.splits sum.splits if_splits)

lemma CheckPath_None:
  "CheckPath source path = None \<longleftrightarrow> 0 < length path \<and> length path \<le> 16 \<and> Usable source \<and> list_all Usable path"
  by (auto simp: CheckPath_def srv6_consts)

lemma Encapsulate_eq:
  assumes "checkEncapsulation inner source path = Inr ov" "innerNextHeader inner = Inr n"
  shows "Encapsulate inner source path = Inr (outerWire inner source path n inner)"
proof -
  have p: "0 < length path" "length path \<le> 16" and ov: "ov = Overhead (length path)"
    using assms(1) by (simp_all add: checkEncapsulation_Inr CheckPath_None)
  have w: "writeOuter (take ov (put_at ov inner (replicate (ov + length inner) 0))) inner source path =
      outerWire inner source path n []"
    using writeOuter_eq [OF assms(2) p] ov by simp
  have "length (outerWire inner source path n []) = ov"
    using arg_cong [OF w, of length] innerNextHeader_cases [OF assms(2)] p
    by (auto simp: outerWire_def wire_def outerFront_def ov Overhead_def srv6_consts)
  then show ?thesis
    using assms(1) w by (simp add: Encapsulate_def Let_def put_at_def go_copy_def outerWire_def wire_def)
qed

text \<open>In place: the packet moves along, the header goes where it was, the rest of the buffer stays.\<close>

lemma EncapsulateInPlace_eq:
  assumes "buf = pre @ inner @ post" "checkEncapsulation inner source path = Inr ov" "ov \<le> length post"
  shows "\<exists>pkt. Encapsulate inner source path = Inr pkt \<and>
    EncapsulateInPlace buf (int (length pre)) (int (length inner)) source path =
      Inr (length pkt, pre @ pkt @ drop ov post)"
proof -
  obtain n where n: "innerNextHeader inner = Inr n" using assms(2) by (auto simp: checkEncapsulation_Inr)
  have p: "0 < length path" "length path \<le> 16" and ov: "ov = Overhead (length path)"
    using assms(2) by (simp_all add: checkEncapsulation_Inr CheckPath_None)
  let ?off = "length pre" and ?sz = "length inner"
  define buf1 where "buf1 = put_at (?off + ov) inner buf"
  have b1: "buf1 = take (?off + ov) buf @ inner @ drop ov post"
  proof -
    have "drop ?sz (drop (?off + ov) buf) = drop ov post"
      by (cases "?sz \<le> ov") (simp_all add: assms(1) add.commute)
    moreover have "?sz \<le> length (drop (?off + ov) buf)" using assms(1,3) by simp
    ultimately show ?thesis unfolding buf1_def put_at_def go_copy_def by simp
  qed
  have t: "length (take (?off + ov) buf) = ?off + ov" using assms(1,3) by simp
  have "slice (?off + ov) (?off + ov + ?sz) buf1 = inner" using t by (simp add: b1 slice_def)
  moreover have "length (slice ?off (?off + ov) buf1) = ov" using t by (simp add: b1 slice_def)
  ultimately have hdr: "writeOuter (slice ?off (?off + ov) buf1) (slice (?off + ov) (?off + ov + ?sz) buf1) source path =
      outerWire inner source path n []"
    using writeOuter_eq [OF n p, of "slice ?off (?off + ov) buf1" source] ov by simp
  have lh: "length (outerWire inner source path n []) = ov"
    using innerNextHeader_cases [OF n] p
    by (auto simp: outerWire_def wire_def outerFront_def ov Overhead_def srv6_consts)
  have tl: "outerWire inner source path n inner = outerWire inner source path n [] @ inner"
    by (simp add: outerWire_def wire_def)
  have "put_at ?off (outerWire inner source path n []) buf1 = pre @ outerWire inner source path n inner @ drop ov post"
    using t lh assms(3) by (simp add: b1 put_at_def go_copy_def assms(1) tl)
  moreover have "put_at (?off + ov) inner (pre @ inner @ post) = buf1" by (simp add: buf1_def assms(1))
  moreover have "slice ?off (?off + ?sz) buf = inner" by (simp add: assms(1) slice_def)
  ultimately show ?thesis
    using assms(1,2,3) hdr lh tl Encapsulate_eq [OF assms(2) n]
    by (simp add: EncapsulateInPlace_def Let_def nat_add_distrib)
qed

lemma AddrFrom16_addr16: "Usable a \<Longrightarrow> AddrFrom16 (addr16 a) = a"
  by (cases a) (simp_all add: Usable_def Is6_def AddrFrom16_def addr16_def)

lemma readSegments_concat:
  assumes "list_all Usable ss" "length pre = 8"
  shows "readSegments (pre @ concat (map addr16 ss) @ rest) (length ss) = ss"
proof (rule nth_equalityI)
  fix i assume "i < length (readSegments (pre @ concat (map addr16 ss) @ rest) (length ss))"
  then have i: "i < length ss" by (simp add: readSegments_def)
  then have s: "ss = take i ss @ ss ! i # drop (Suc i) ss" by (simp add: id_take_nth_drop)
  have "pre @ concat (map addr16 ss) @ rest = (pre @ concat (map addr16 (take i ss))) @
      addr16 (ss ! i) @ concat (map addr16 (drop (Suc i) ss)) @ rest"
    by (subst s) simp
  moreover have "length (pre @ concat (map addr16 (take i ss))) = 8 + 16 * i" using i assms(2) by simp
  ultimately have d: "drop (8 + 16 * i) (pre @ concat (map addr16 ss) @ rest) =
      addr16 (ss ! i) @ concat (map addr16 (drop (Suc i) ss)) @ rest"
    by (metis append_eq_conv_conj)
  have "readSegments X n ! j = AddrFrom16 (go_copy (replicate 16 0) (drop (8 + 16 * j) X))" if "j < n" for X n j
    using that by (simp add: readSegments_def srv6_consts)
  from this [OF i] have "readSegments (pre @ concat (map addr16 ss) @ rest) (length ss) ! i = AddrFrom16 (addr16 (ss ! i))"
    by (simp only: d) (simp add: go_copy_def)
  then show "readSegments (pre @ concat (map addr16 ss) @ rest) (length ss) ! i = ss ! i"
    using i assms(1) by (simp only: AddrFrom16_addr16 list_all_length)
qed (simp add: readSegments_def)

subsection \<open>Reading it back\<close>

lemma wire_parts:
  assumes "length front = 4" and w_def: "w = wire front plen hop source destination inext left segments inner"
  shows "w ! 6 = 43" "w ! 7 = hop" "length w = 48 + 16 * length segments + length inner"
    "slice 24 40 w = addr16 destination" "w ! 0 = front ! 0" "w ! 41 = of_nat (2 * length segments)"
    "drop 40 w = [inext, of_nat (2 * length segments), 4, left, of_nat (length segments - 1), 0, 0, 0] @
       concat (map addr16 segments) @ inner"
    "drop (48 + 16 * length segments) w = inner"
proof -
  show "w ! 6 = 43" "w ! 7 = hop" "w ! 0 = front ! 0"
    "w ! 41 = of_nat (2 * length segments)"
    using assms(1) by (simp_all add: w_def wire_def nth_append srv6_consts)
  show "length w = 48 + 16 * length segments + length inner"
    using assms(1) by (simp add: w_def wire_def)
  show "slice 24 40 w = addr16 destination"
    using assms(1) by (simp add: w_def wire_def slice_def)
  show d: "drop 40 w = [inext, of_nat (2 * length segments), 4, left, of_nat (length segments - 1), 0, 0, 0] @
       concat (map addr16 segments) @ inner"
    using assms(1) by (simp add: w_def wire_def srv6_consts)
  let ?srh = "[inext, of_nat (2 * length segments), 4, left, of_nat (length segments - 1), 0, 0, 0] @ concat (map addr16 segments)"
  have "drop (48 + 16 * length segments) w = drop (length ?srh) (drop 40 w)" by (simp add: add.commute)
  also have "drop 40 w = ?srh @ inner" using d by simp
  finally show "drop (48 + 16 * length segments) w = inner" by simp
qed

definition wireHeader :: "byte \<Rightarrow> byte \<Rightarrow> addr list \<Rightarrow> Header" where
  "wireHeader inext left segments =
     \<lparr>SegmentsLeft = left, Segments = segments, Flags = 0, Tag = 0, NextHeader = inext, Offset = 40\<rparr>"

definition wire_ok :: "bytes \<Rightarrow> byte \<Rightarrow> addr list \<Rightarrow> bool" where
  "wire_ok front left segments \<longleftrightarrow> length front = 4 \<and> drop_bit 4 (front ! 0) = 6 \<and>
     0 < length segments \<and> length segments \<le> 16 \<and> list_all Usable segments \<and> unat left \<le> length segments"

lemma Parse_wire:
  assumes "wire_ok front left segments"
  shows "Parse (wire front plen hop source destination inext left segments inner) = Inr (wireHeader inext left segments)"
proof -
  let ?w = "wire front plen hop source destination inext left segments inner"
  let ?n = "length segments"
  let ?pre = "[inext, of_nat (2 * ?n), 4, left, of_nat (?n - 1), 0, 0, 0] :: bytes"
  have w: "length front = 4" "drop_bit 4 (front ! 0) = 6" "0 < ?n" "?n \<le> 16" "list_all Usable segments" "unat left \<le> ?n"
    using assms by (simp_all add: wire_ok_def)
  note parts = wire_parts [OF w(1) refl]
  have find: "findRouting ?w = Inr 40"
    using parts(1) by (simp add: findRouting_def srv6_consts eval_nat_numeral)
  have d: "drop 40 ?w = ?pre @ concat (map addr16 segments) @ inner" by (rule parts(7))
  have l: "length (drop 40 ?w) = 8 + 16 * ?n + length inner" by (simp only: d) simp
  have u: "unat (of_nat (2 * ?n) :: byte) = 2 * ?n" "unat (of_nat (?n - 1) :: byte) = ?n - 1"
    using w(4) by (intro unat_small; simp)+
  have at: "drop 40 ?w ! 0 = inext" "drop 40 ?w ! 1 = of_nat (2 * ?n)" "drop 40 ?w ! 2 = 4" "drop 40 ?w ! 3 = left"
    "drop 40 ?w ! 4 = of_nat (?n - 1)" "drop 40 ?w ! 5 = 0" "rd16 (drop 6 (drop 40 ?w)) = 0"
    unfolding d by (simp_all add: rd16_def)
  have seg: "readSegments (drop 40 ?w) ?n = segments"
    unfolding d by (rule readSegments_concat [OF w(5)]) simp
  have c: "?n - 1 + 1 = ?n" using w(3) by simp
  have len: "\<not> length ?w < ipv6HeaderLen" "drop_bit 4 (?w ! 0) = 6"
    using parts(3,5) w(2) by (simp_all add: srv6_consts)
  show ?thesis
    unfolding Parse_def find sum.case Let_def at l u c seg
    using len w by (simp add: srv6_consts wireHeader_def)
qed

lemma End_wire:
  assumes ok: "wire_ok front left segments" and "left \<noteq> 0" "1 < hop"
  shows "End (wire front plen hop source destination inext left segments inner) =
    Inr (segments ! unat (left - 1),
      wire front plen (hop - 1) source (segments ! unat (left - 1)) inext (left - 1) segments inner)"
proof -
  let ?w = "wire front plen hop source destination inext left segments inner"
  let ?nxt = "segments ! unat (left - 1)"
  have f: "length front = 4" using ok by (simp add: wire_ok_def)
  have h: "?w ! 7 = hop" by (rule wire_parts(2) [OF f refl])
  let ?p = "front @ put16 plen @ [nextHeaderRouting]" and ?q = "addr16 source @ addr16 destination @
     [inext, of_nat (2 * length segments), routingTypeSegment, left, of_nat (length segments - 1), 0, 0, 0] @
     concat (map addr16 segments) @ inner"
  have u1: "?w[7 := hop - 1] = wire front plen (hop - 1) source destination inext left segments inner"
  proof -
    have "?w = ?p @ hop # ?q" by (simp add: wire_def)
    moreover have "length ?p = 7" using f by simp
    ultimately have "?w[7 := hop - 1] = ?p @ (hop - 1) # ?q" by (metis list_update_length)
    then show ?thesis by (simp add: wire_def)
  qed
  have u2: "(wire front plen g source destination inext left segments inner)[43 := left - 1] =
      wire front plen g source destination inext (left - 1) segments inner" for g
  proof -
    let ?p = "front @ put16 plen @ [nextHeaderRouting, g] @ addr16 source @ addr16 destination @
      [inext, of_nat (2 * length segments), routingTypeSegment]"
    let ?q = "[of_nat (length segments - 1), 0, 0, 0] @ concat (map addr16 segments) @ inner"
    have "wire front plen g source destination inext left segments inner = ?p @ left # ?q" by (simp add: wire_def)
    moreover have "length ?p = 43" using f by simp
    ultimately have "(wire front plen g source destination inext left segments inner)[43 := left - 1] = ?p @ (left - 1) # ?q"
      by (metis list_update_length)
    then show ?thesis by (simp add: wire_def)
  qed
  have u3: "put_at 24 (addr16 d) (wire front plen g source destination inext k segments inner) =
      wire front plen g source d inext k segments inner" for g d k
    using f by (simp add: put_at_def go_copy_def wire_def)
  show ?thesis
    unfolding End_def Parse_wire [OF ok] using assms(2,3)
    by (simp add: wireHeader_def h u1 u2 u3 not_le Let_def)
qed

lemma Decap_wire:
  assumes ok: "wire_ok front 0 segments" and i: "inext = 4 \<or> inext = 41" "inner \<noteq> []"
  shows "Decap (wire front plen hop source destination inext 0 segments inner) = Inr (inner, inext)"
proof -
  let ?w = "wire front plen hop source destination inext 0 segments inner" and ?n = "length segments"
  have f: "length front = 4" "drop_bit 4 (front ! 0) = 6" "?n \<le> 16" using ok by (simp_all add: wire_ok_def)
  note parts = wire_parts [OF f(1) refl]
  have at: "?w ! 41 = of_nat (2 * ?n)" by (rule parts(6))
  have u: "unat (of_nat (2 * ?n) :: byte) = 2 * ?n" using f(3) by (intro unat_small) simp
  have off: "48 + 8 * unat (?w ! 41) = 48 + 16 * ?n" by (simp only: at u)
  have "0 < length inner" using i(2) by simp
  then have long: "\<not> length ?w \<le> 48 + 16 * ?n" "\<not> length ?w < 40" by (simp_all only: parts(3))
  have dr: "drop (48 + 16 * ?n) ?w = inner" by (rule parts(8))
  have "Decap ?w = (if inext \<noteq> 4 \<and> inext \<noteq> 41 then Inl Undeliverable
      else if length ?w \<le> 48 + 8 * unat (?w ! 41) then Inl NoPayload
      else Inr (drop (48 + 8 * unat (?w ! 41)) ?w, inext))"
    unfolding Decap_def Parse_wire [OF ok] using long(2) f(2)
    by (simp add: wireHeader_def srv6_consts parts(5))
  then show ?thesis using i(1) long(1) dr unfolding off by auto
qed

text \<open>A chain of nodes, each with its own table, as the packet visits them.\<close>

fun travel :: "LocalTable list \<Rightarrow> bytes \<Rightarrow> Result list" where
  "travel [] raw = []"
| "travel (t # ts) raw =
     (case Handle t raw of
        (ActionForward nxt, raw') \<Rightarrow> ActionForward nxt # travel ts raw'
      | (res, _) \<Rightarrow> [res])"

definition waypoint :: "addr \<Rightarrow> LocalTable" where "waypoint sid = Some [sid \<mapsto> BehaviorEnd]"
definition exit :: "addr \<Rightarrow> LocalTable" where "exit sid = Some [sid \<mapsto> BehaviorEndDT46]"

lemma Handle_wire:
  assumes "wire_ok front left segments" "Usable destination"
    and w_def: "w = wire front plen hop source destination inext left segments inner"
  shows "Handle (waypoint destination) w =
      (case End w of Inl e \<Rightarrow> (ActionDrop (Some e), w) | Inr (nxt, raw') \<Rightarrow> (ActionForward nxt, raw'))"
    "Handle (exit destination) w =
      (case Decap w of Inl e \<Rightarrow> (ActionDrop (Some e), w) | Inr (inner, family) \<Rightarrow> (ActionDeliver inner family, w))"
proof -
  have f: "length front = 4" "drop_bit 4 (front ! 0) = 6" using assms(1) by (simp_all add: wire_ok_def)
  note parts = wire_parts [OF f(1) refl]
  have "slice 24 40 w = addr16 destination" unfolding w_def by (rule parts(4))
  then have "AddrFrom16 (slice 24 40 w) = destination" using AddrFrom16_addr16 [OF assms(2)] by simp
  moreover have "\<not> length w < ipv6HeaderLen" "drop_bit 4 (w ! 0) = 6"
    unfolding w_def by (simp_all only: parts(3,5)) (simp_all add: srv6_consts f)
  ultimately show "Handle (waypoint destination) w =
      (case End w of Inl e \<Rightarrow> (ActionDrop (Some e), w) | Inr (nxt, raw') \<Rightarrow> (ActionForward nxt, raw'))"
    "Handle (exit destination) w =
      (case Decap w of Inl e \<Rightarrow> (ActionDrop (Some e), w) | Inr (inner, family) \<Rightarrow> (ActionDeliver inner family, w))"
    by (simp_all add: Handle_def waypoint_def exit_def BehaviorEnd_def BehaviorEndDT46_def)
qed

lemma travel_wire:
  assumes "wire_ok front (of_nat k) segments" "k < length segments" "Suc k \<le> unat hop"
    and i: "inext = 4 \<or> inext = 41" "inner \<noteq> []"
  shows "travel (map (\<lambda>j. waypoint (segments ! j)) (rev [1..<Suc k]) @ [exit (segments ! 0)])
      (wire front plen hop source (segments ! k) inext (of_nat k) segments inner) =
    map (\<lambda>j. ActionForward (segments ! j)) (rev [0..<k]) @ [ActionDeliver inner inext]"
  using assms(1-3)
proof (induction k arbitrary: hop)
  case 0
  have u: "Usable (segments ! 0)" using "0.prems" by (simp add: wire_ok_def list_all_length)
  have z: "wire_ok front 0 segments" using "0.prems"(1) by simp
  show ?case using Handle_wire(2) [OF z u refl] Decap_wire [OF z i] by simp
next
  case (Suc k)
  let ?left = "of_nat (Suc k) :: byte"
  let ?w = "\<lambda>h j. wire front plen h source (segments ! j) inext (of_nat j) segments inner"
  have n: "length segments \<le> 16" "list_all Usable segments" using Suc.prems(1) by (simp_all add: wire_ok_def)
  have u: "unat ?left = Suc k" "?left - 1 = of_nat k" "unat (of_nat k :: byte) = k"
    using Suc.prems(2) n(1) unat_small [of "Suc k"] unat_small [of k] by simp_all
  have left: "?left \<noteq> 0" using u(1) by (metis unat_0 nat.distinct(1))
  have hop: "1 < hop" "Suc k \<le> unat (hop - 1)"
    using Suc.prems(3) by (simp_all add: word_less_nat_alt unat_minus_le word_le_nat_alt)
  have ok: "wire_ok front (of_nat k) segments"
    using Suc.prems(1,2) u by (simp add: wire_ok_def del: of_nat_Suc)
  have use: "Usable (segments ! Suc k)" using n(2) Suc.prems(2) by (simp add: list_all_length)
  have "Handle (waypoint (segments ! Suc k)) (?w hop (Suc k)) = (ActionForward (segments ! k), ?w (hop - 1) k)"
    unfolding Handle_wire(1) [OF Suc.prems(1) use refl] End_wire [OF Suc.prems(1) left hop(1)] u(2,3) by simp
  moreover have "rev [1..<Suc (Suc k)] = Suc k # rev [1..<Suc k]" "rev [0..<Suc k] = k # rev [0..<k]" by simp_all
  ultimately show ?case
    using Suc.IH [OF ok _ hop(2)] Suc.prems(2) by (simp del: upt_Suc of_nat_Suc)
qed

lemma map_rev_nth: "map (\<lambda>j. f (rev xs ! j)) (rev [0..<length xs - 1]) = map f (tl xs)"
proof (rule nth_equalityI)
  fix i assume "i < length (map (\<lambda>j. f (rev xs ! j)) (rev [0..<length xs - 1]))"
  then have "i < length xs - 1" by simp
  then show "map (\<lambda>j. f (rev xs ! j)) (rev [0..<length xs - 1]) ! i = map f (tl xs) ! i"
    by (simp add: rev_nth nth_tl)
qed simp

lemma map_rev_nth1: "xs \<noteq> [] \<Longrightarrow> map (\<lambda>j. f (rev xs ! j)) (rev [1..<length xs]) = map f (butlast xs)"
proof (rule nth_equalityI)
  fix i assume "i < length (map (\<lambda>j. f (rev xs ! j)) (rev [1..<length xs]))"
  then have i: "i < length xs - 1" by simp
  then have "length xs - Suc (Suc (length xs - Suc (Suc i))) = i" by arith
  with i show "map (\<lambda>j. f (rev xs ! j)) (rev [1..<length xs]) ! i = map f (butlast xs) ! i"
    by (simp add: rev_nth nth_butlast)
qed simp


definition sampleV4 :: bytes where
  "sampleV4 = [0x45, 0, 0, 20, 0, 0, 0, 0, 64, 17, 0, 0, 10, 0, 0, 1, 10, 0, 0, 2]"

lemma sample_encapsulates: "Encapsulate sampleV4 (Addr6 9) [Addr6 3, Addr6 5] =
    Inr (outerWire sampleV4 (Addr6 9) [Addr6 3, Addr6 5] 4 sampleV4)"
proof (rule Encapsulate_eq)
  show n: "innerNextHeader sampleV4 = Inr 4"
    by (simp add: sampleV4_def innerNextHeader_def srv6_consts)
  have u: "Usable (Addr6 9)" "Usable (Addr6 3)" "Usable (Addr6 5)" by code_simp+
  show "checkEncapsulation sampleV4 (Addr6 9) [Addr6 3, Addr6 5] = Inr (Overhead 2)"
    using n u by (simp add: checkEncapsulation_Inr CheckPath_None sampleV4_def numeral_2_eq_2)
qed


text \<open>
  Encapsulating in place gives the bytes \<open>Encapsulate\<close> gives: the packet in the middle of a buffer
  with room behind it is replaced by the encapsulated packet, nothing of the old bytes survives in
  the header, and the buffer before it and past the room used is untouched.
\<close>

theorem encapsulate_in_place_exact:
  assumes "checkEncapsulation inner source path = Inr ov" "ov \<le> length post"
  shows "\<exists>pkt. Encapsulate inner source path = Inr pkt \<and>
    EncapsulateInPlace (pre @ inner @ post) (int (length pre)) (int (length inner)) source path =
      Inr (length pkt, pre @ pkt @ drop ov post)"
  by (rule EncapsulateInPlace_eq [OF refl assms])

theorem encapsulate_in_place_exact_witness:
  "\<exists>pkt. Encapsulate sampleV4 (Addr6 9) [Addr6 3, Addr6 5] = Inr pkt \<and>
    EncapsulateInPlace ([7, 7] @ sampleV4 @ replicate 90 1) (int (length [7, 7 :: byte])) (int (length sampleV4))
      (Addr6 9) [Addr6 3, Addr6 5] = Inr (length pkt, [7, 7] @ pkt @ drop (Overhead 2) (replicate 90 1))"
proof (rule encapsulate_in_place_exact)
  show "checkEncapsulation sampleV4 (Addr6 9) [Addr6 3, Addr6 5] = Inr (Overhead 2)"
    using sample_encapsulates by (auto simp: Encapsulate_def checkEncapsulation_Inr numeral_2_eq_2 split: sum.splits)
  show "Overhead 2 \<le> length (replicate 90 (1 :: byte))" by (simp add: Overhead_def srv6_consts)
qed

section \<open>The checksum of an answer\<close>

lemma ones_props:
  assumes "unat c + wsum b < 2 ^ 32"
  shows "unat (ones c b) mod 65535 = (unat c + wsum b) mod 65535 \<and> unat (ones c b) < 65536 \<and>
    (unat (ones c b) = 0 \<longleftrightarrow> unat c + wsum b = 0)"
  using onesFold_props [of "onesAdd c b"] onesAdd_unat [OF assms] by (simp add: ones_def)

definition pseudoHeader :: "addr \<Rightarrow> addr \<Rightarrow> nat \<Rightarrow> bytes" where
  "pseudoHeader source destination n = addr16 source @ addr16 destination @ put32 (of_nat n) @ [0, 0, 0, icmpv6Next]"

lemma icmpChecksum_eq:
  "icmpChecksum source destination body =
     NOT (ucast (ones (ones 0 (pseudoHeader source destination (length body))) body))"
proof -
  let ?z = "replicate 40 (0 :: byte)" and ?len = "put32 (of_nat (length body))"
  have "put_at 32 ?len (put_at 16 (addr16 destination) (put_at 0 (addr16 source) ?z)) =
      fill (addr16 source @ addr16 destination @ ?len) ?z"
    using put_at_fill [of "[]" 0 "addr16 source" ?z] by (simp add: put_at_fill fill_Nil)
  also have "\<dots> = (addr16 source @ addr16 destination @ ?len @ [0, 0, 0]) @ [0]" by (simp add: fill_def eval_nat_numeral)
  finally have p: "(put_at 32 ?len (put_at 16 (addr16 destination) (put_at 0 (addr16 source) ?z)))[39 := icmpv6Next] =
      pseudoHeader source destination (length body)"
    by (simp add: list_update_append pseudoHeader_def)
  show ?thesis unfolding icmpChecksum_def Let_def p ..
qed

definition icmpBody :: "byte \<Rightarrow> byte \<Rightarrow> u16 \<Rightarrow> u32 \<Rightarrow> bytes \<Rightarrow> bytes" where
  "icmpBody kind code check pointer quote = [kind, code] @ put16 check @ put32 pointer @ quote"

lemma icmpError_eq:
  assumes "icmpError offending source kind code pointer = Some reply"
  defines "destination \<equiv> AddrFrom16 (slice 8 24 offending)" and "quote \<equiv> take 1232 offending"
  shows "Usable source" "answerable offending"
    "reply = [0x60, 0, 0, 0] @ put16 (of_nat (8 + length quote)) @ [icmpv6Next, DefaultHopLimit] @
      addr16 source @ addr16 destination @
      icmpBody kind code (icmpChecksum source destination (icmpBody kind code 0 pointer quote)) pointer quote"
proof -
  let ?q = "min (length offending) 1232"
  have q: "take (length quote) offending = quote" "?q = length quote" by (simp_all add: quote_def min_def)
  have ok: "Usable source \<and> answerable offending"
    using assms(1) by (auto simp: icmpError_def split: if_splits)
  then show "Usable source" "answerable offending" by simp_all
  let ?z = "replicate (8 + length quote) (0 :: byte)"
  have "?z[0 := kind, Suc 0 := code] = fill [kind, code, 0, 0] ?z"
    by (simp add: fill_def eval_nat_numeral)
  then have body: "put_at 8 quote (put_at 4 (put32 pointer) (?z[0 := kind, Suc 0 := code])) = icmpBody kind code 0 pointer quote"
    by (simp add: put_at_fill fill_all icmpBody_def put16_eq)
  let ?b = "icmpBody kind code 0 pointer quote" and ?c = "icmpChecksum source destination (icmpBody kind code 0 pointer quote)"
  have lb: "length ?b = 8 + length quote" by (simp add: icmpBody_def)
  let ?o = "replicate (40 + length ?b) (0 :: byte)" and ?f = "[0x60, 0, 0, 0] :: bytes"
  have "?o[0 := 0x60] = fill ?f ?o" by (simp add: fill_def eval_nat_numeral)
  then have out: "put_at 40 ?b (put_at 24 (addr16 destination) (put_at 8 (addr16 source)
      ((put_at 4 (put16 (of_nat (length ?b))) (?o[0 := 0x60]))[6 := icmpv6Next, 7 := DefaultHopLimit]))) =
      ?f @ put16 (of_nat (length ?b)) @ [icmpv6Next, DefaultHopLimit] @ addr16 source @ addr16 destination @ ?b"
    by (simp add: put_at_fill update_fill fill_all)
  let ?h = "?f @ put16 (of_nat (length ?b)) @ [icmpv6Next, DefaultHopLimit] @ addr16 source @ addr16 destination"
  have e: "icmpError offending source kind code pointer = Some (put_at 42 (put16 ?c)
      (put_at 40 ?b (put_at 24 (addr16 destination) (put_at 8 (addr16 source)
        ((put_at 4 (put16 (of_nat (length ?b))) (?o[0 := 0x60]))[6 := icmpv6Next, 7 := DefaultHopLimit])))))"
    using ok unfolding icmpError_def Let_def by (simp add: srv6_consts icmp_consts q body destination_def lb)
  have "Some reply = Some (put_at 42 (put16 ?c) (?h @ ?b))"
    using assms(1) e unfolding out by (simp only: append_assoc)
  then have "reply = put_at 42 (put16 ?c) (?h @ ?b)" by (rule option.inject [THEN iffD1])
  also have "\<dots> = ?h @ icmpBody kind code ?c pointer quote"
    by (simp add: put_at_def go_copy_def icmpBody_def)
  finally show "reply = [0x60, 0, 0, 0] @ put16 (of_nat (8 + length quote)) @ [icmpv6Next, DefaultHopLimit] @
      addr16 source @ addr16 destination @
      icmpBody kind code (icmpChecksum source destination (icmpBody kind code 0 pointer quote)) pointer quote"
    by (simp add: lb)
qed

lemma wsum_check: "wsum (icmpBody kind code check pointer quote) = wsum (icmpBody kind code 0 pointer quote) + unat check"
proof -
  have "256 * unat (ucast (drop_bit 8 check) :: byte) + unat (ucast check :: byte) = unat check"
  proof -
    have "unat check < 2 ^ 16" using unsigned_less [of check] by simp
    then have "unat (ucast (drop_bit 8 check) :: byte) = unat check div 256" "unat (ucast check :: byte) = unat check mod 256"
      by (simp_all add: unsigned_ucast_eq take_bit_eq_mod drop_bit_eq_div unat_div_word div_less_iff_less_mult)
    then show ?thesis by simp
  qed
  then show ?thesis by (simp add: icmpBody_def put16_eq)
qed

lemma checksum_verifies:
  assumes len: "length body \<le> 100000" and body: "wsum body' = wsum body + unat (icmpChecksum source destination body)"
    and n: "length body' = length body"
  shows "ones (ones 0 (pseudoHeader source destination (length body'))) body' = 0xffff"
proof -
  let ?p = "pseudoHeader source destination (length body)"
  let ?p1 = "ones 0 ?p"
  have lp: "length ?p = 40" by (simp add: pseudoHeader_def)
  have wp: "wsum ?p \<le> 65535 * 20" using wsum_le [of ?p] lp by simp
  have wb: "wsum body \<le> 65535 * 50001" "wsum body' \<le> 65535 * 50001"
    using wsum_le [of body] wsum_le [of body'] len n by (auto intro: order_trans)
  have pz: "0 < wsum ?p"
  proof -
    have "wsum (xs @ [0, 58]) = wsum xs + 58" if "even (length xs)" for xs
      using that by (induction xs rule: wsum.induct) auto
    from this [of "addr16 source @ addr16 destination @ put32 (of_nat (length body)) @ [0, 0]"]
    show ?thesis by (simp add: pseudoHeader_def icmp_consts)
  qed
  have p1: "unat ?p1 mod 65535 = wsum ?p mod 65535 \<and> unat ?p1 < 65536 \<and> unat ?p1 \<noteq> 0"
    using ones_props [of 0 ?p] wp pz by simp
  let ?s = "ones ?p1 body" and ?t = "ones ?p1 body'"
  have s: "unat ?s mod 65535 = (unat ?p1 + wsum body) mod 65535" "unat ?s < 65536"
    using ones_props [of ?p1 body] p1 wb by auto
  have t: "unat ?t mod 65535 = (unat ?p1 + wsum body') mod 65535" "unat ?t < 65536" "unat ?t \<noteq> 0"
    using ones_props [of ?p1 body'] p1 wb by auto
  have c: "unat (icmpChecksum source destination body) = 65535 - unat ?s"
    using s(2) by (simp add: icmpChecksum_eq unat_not_u16 unsigned_ucast_eq take_bit_nat_eq_self)
  have "(unat ?p1 + wsum body') mod 65535 = (unat ?p1 + wsum body + (65535 - unat ?s)) mod 65535"
    using body c by (simp add: add.assoc)
  also have "\<dots> = (unat ?s + (65535 - unat ?s)) mod 65535" by (rule mod_add_cong [OF s(1) [symmetric] refl])
  also have "\<dots> = 0" using s(2) by simp
  finally have "unat ?t mod 65535 = 0" using t(1) by simp
  then have "unat ?t = 65535" using t(2,3) by (cases "unat ?t < 65535") auto
  then have "?t = 0xffff" by (simp add: word_unat_eq_iff)
  then show ?thesis by (simp add: n)
qed


definition expired :: bytes where
  "expired = [0x60, 0, 0, 0, 0, 0, 59, 1] @ addr16 (Addr6 9) @ addr16 (Addr6 3)"


text \<open>
  What \<open>Handle\<close> may do to a packet: it leaves every packet not addressed to a local segment alone;
  a drop leaves the bytes as they were; a forward changes nothing but hop limit, segments left and
  destination, keeps the length, and spends one hop; a delivery hands out a suffix of the packet.
\<close>

theorem handle_effects:
  "case Handle t raw of
     (ActionPass, raw') \<Rightarrow> raw' = raw
   | (ActionDrop _, raw') \<Rightarrow> raw' = raw
   | (ActionDeliver inner family, raw') \<Rightarrow> raw' = raw \<and> (\<exists>n\<ge>40. inner = drop n raw \<and> inner \<noteq> []) \<and> (family = 4 \<or> family = 41)
   | (ActionForward nxt, raw') \<Rightarrow> \<exists>h. Parse raw = Inr h \<and> 0 < unat (SegmentsLeft h) \<and> 1 < raw ! 7 \<and>
       nxt = Segments h ! (unat (SegmentsLeft h) - 1) \<and>
       raw' = put_at 24 (addr16 nxt) (raw[7 := raw ! 7 - 1, Offset h + 3 := SegmentsLeft h - 1])"
proof -
  have off: "40 \<le> offset" if "findRoutingLoop k raw nxt n = Inr offset" "40 \<le> n" for k nxt n offset
    using that by (induction k raw nxt n rule: findRoutingLoop.induct) (auto simp: Let_def split: if_splits)
  have po: "40 \<le> Offset h" if "Parse raw = Inr h" for h
    using that off [of _ _ 40] by (auto simp: Parse_def findRouting_def Let_def srv6_consts split: if_splits sum.splits)
  have pred: "unat (w - 1) = unat w - 1" if "w \<noteq> 0" for w :: byte
    using that by (simp add: unat_minus_le word_le_nat_alt unat_gt_0 Suc_le_eq)
  have e: "\<exists>h. Parse raw = Inr h \<and> 0 < unat (SegmentsLeft h) \<and> 1 < raw ! 7 \<and>
       nxt = Segments h ! (unat (SegmentsLeft h) - 1) \<and>
       raw' = put_at 24 (addr16 nxt) (raw[7 := raw ! 7 - 1, Offset h + 3 := SegmentsLeft h - 1])"
    if "End raw = Inr (nxt, raw')" for nxt raw'
    using that by (auto simp: End_def Let_def pred unat_gt_0 not_le split: sum.splits if_splits)
  have d: "(\<exists>n\<ge>40. inner = drop n raw \<and> inner \<noteq> []) \<and> (family = 4 \<or> family = 41)"
    if "Decap raw = Inr (inner, family)" for inner family
  proof (cases "Parse raw")
    case (Inl e)
    then have "e = ErrNotSegmentRouted" using that by (cases e) (auto simp: Decap_def Let_def split: if_splits)
    then have "inner = drop 40 raw \<and> inner \<noteq> [] \<and> (family = 4 \<or> family = 41)"
      using that Inl by (auto simp: Decap_def Let_def srv6_consts split: if_splits)
    then show ?thesis by blast
  next
    case (Inr h)
    then have "inner = drop (Offset h + 8 + 8 * unat (raw ! (Offset h + 1))) raw \<and> inner \<noteq> [] \<and> (family = 4 \<or> family = 41)"
      using that by (auto simp: Decap_def Let_def srv6_consts split: if_splits)
    moreover have "40 \<le> Offset h + 8 + 8 * unat (raw ! (Offset h + 1))" using po [OF Inr] by simp
    ultimately show ?thesis by blast
  qed
  show ?thesis
    using e d by (auto simp: Handle_def split: option.splits sum.splits if_splits)
qed

section \<open>Extension headers before the routing header\<close>

definition behindOptions :: bytes where
  "behindOptions = [0x60, 0, 0, 0, 0, 32, 0, 9] @ addr16 (Addr6 9) @ addr16 (Addr6 3) @
     [43, 0, 0, 0, 0, 0, 0, 0] @ [59, 2, 4, 1, 0, 0, 0, 0] @ addr16 (Addr6 5)"

lemma options_header_is_walked:
  "map_sum id Offset (Parse behindOptions) = Inr 48 \<and>
   fst (Handle (waypoint (Addr6 3)) behindOptions) = ActionForward (Addr6 5)"
  by code_simp

section \<open>Steering\<close>

text \<open>
  A configured prefix is well formed, and an omitted one is the zero \<open>Prefix\<close>. The key is the pair
  the trie stores an entry under.
\<close>

definition steer_ok :: "Steer \<Rightarrow> bool" where
  "steer_ok e \<longleftrightarrow> prefix_ok (st_From e) \<and> prefix_ok (st_To e) \<and> (p_IsValid (st_From e) \<or> st_From e = noPrefix)"

definition steerKey :: "Steer \<Rightarrow> prefix \<times> prefix" where
  "steerKey e = (st_From e, if p_IsValid (st_To e) then st_To e else anyDestination (st_From e))"

definition steerMap :: "addr \<Rightarrow> Steer list \<Rightarrow> (prefix \<times> prefix \<rightharpoonup> Policy)" where
  "steerMap source es = map_of (map (\<lambda>e. (steerKey e, steerPolicy e source)) es)"

definition steer_rep :: "addr \<Rightarrow> SteerTable \<Rightarrow> (prefix \<times> prefix) list \<Rightarrow> Steer list \<Rightarrow> bool" where
  "steer_rep source out seen es \<longleftrightarrow> table_ok (ste_table out) \<and> set seen = set (map steerKey es) \<and>
     table_map (ste_table out) = steerMap source es \<and> distinct (map steerKey es) \<and>
     (\<forall>e\<in>set es. CheckPath (pol_Source (steerPolicy e source)) (st_Via e) = None \<and>
        Overhead (length (st_Via e)) \<le> ste_overhead out)"

lemma anyDestination_props [simp]:
  "prefix_ok (anyDestination p)" "p_IsValid (anyDestination p)" "Masked (anyDestination p) = anyDestination p"
  "BitLen (p_ip (anyDestination p)) = (if Is4 (p_ip p) then 32 else 128)" "Is4 (p_ip (anyDestination p)) = Is4 (p_ip p)"
  by (simp_all add: anyDestination_def)

lemma BitLen_valid: "prefix_ok p \<Longrightarrow> p_IsValid p \<Longrightarrow> BitLen (p_ip p) = (if Is4 (p_ip p) then 32 else 128)"
  by (cases "p_ip p") (auto simp: prefix_ok_def)

lemma checkSelector_Masked: "checkSelector p = None \<Longrightarrow> p_IsValid p \<Longrightarrow> Masked p = p"
  by (simp add: checkSelector_def split: if_splits)

lemma steerKey_stored:
  assumes "steer_ok e" "\<not> (p_IsValid (st_From e) \<and> p_IsValid (st_To e) \<and> Is4 (p_ip (st_From e)) \<noteq> Is4 (p_ip (st_To e)))"
    "checkSelector (st_From e) = None" "checkSelector (st_To e) = None" "table_ok t"
  shows "table_ok (Table_Set t (st_From e) (snd (steerKey e)) v) \<and>
    table_map (Table_Set t (st_From e) (snd (steerKey e)) v) = (table_map t)(steerKey e \<mapsto> v)"
proof -
  let ?d = "snd (steerKey e)"
  have d: "prefix_ok ?d" "p_IsValid ?d" "Masked ?d = ?d"
    using assms(1,4) by (simp_all add: steerKey_def steer_ok_def checkSelector_Masked)
  have f: "Masked (st_From e) = st_From e"
    using assms(1,3) checkSelector_Masked by (auto simp: steer_ok_def)
  have "acceptable (st_From e) ?d"
    using assms(1,2) d(2) BitLen_valid by (auto simp: acceptable_def steerKey_def steer_ok_def)
  then show ?thesis using Set_ok [OF assms(5) _ d(1)] assms(1) f d(3)
    by (simp add: steer_ok_def steerKey_def)
qed

lemma steerMap_snoc:
  assumes "steerKey e \<notin> set (map steerKey es)"
  shows "steerMap source (es @ [e]) = (steerMap source es)(steerKey e \<mapsto> steerPolicy e source)"
proof -
  have "steerMap source es (steerKey e) = None"
    using assms by (auto simp: steerMap_def map_of_eq_None_iff)
  then show ?thesis by (auto simp: steerMap_def fun_eq_iff map_add_def map_of_append split: option.splits)
qed

lemma steerEntries_rep:
  assumes "steerEntries source out seen es = Inr t" "list_all steer_ok es" "steer_rep source out seen ds"
  shows "\<exists>seen'. steer_rep source t seen' (ds @ es)"
  using assms
proof (induction es arbitrary: out seen ds)
  case (Cons e rest)
  let ?p = "steerPolicy e source" and ?k = "steerKey e"
  let ?out = "\<lparr>ste_table = Table_Set (ste_table out) (st_From e) (snd ?k) ?p,
     ste_policies = ste_policies out @ [?p], ste_overhead = max (ste_overhead out) (Policy_Overhead (Some ?p))\<rparr>"
  from Cons.prems(1) have c: "a_IsValid (pol_Source ?p)" "CheckPath (pol_Source ?p) (pol_Path ?p) = None"
    "\<not> (\<not> p_IsValid (st_From e) \<and> \<not> p_IsValid (st_To e))"
    "\<not> (p_IsValid (st_From e) \<and> p_IsValid (st_To e) \<and> Is4 (p_ip (st_From e)) \<noteq> Is4 (p_ip (st_To e)))"
    "checkSelector (st_From e) = None" "checkSelector (st_To e) = None" "?k \<notin> set seen"
    and rec: "steerEntries source ?out (?k # seen) rest = Inr t"
    by (auto simp: Let_def steerKey_def split: option.splits if_splits)
  have ok: "steer_ok e" "list_all steer_ok rest" using Cons.prems(2) by simp_all
  have rep: "table_ok (ste_table out)" "set seen = set (map steerKey ds)"
    "table_map (ste_table out) = steerMap source ds" "distinct (map steerKey ds)"
    "\<forall>e\<in>set ds. CheckPath (pol_Source (steerPolicy e source)) (st_Via e) = None \<and>
        Overhead (length (st_Via e)) \<le> ste_overhead out"
    using Cons.prems(3) by (simp_all add: steer_rep_def)
  note st = steerKey_stored [OF ok(1) c(4-6) rep(1), of ?p]
  have new: "?k \<notin> set (map steerKey ds)" using c(7) rep(2) by simp
  have "steer_rep source ?out (?k # seen) (ds @ [e])"
    unfolding steer_rep_def
  proof (intro conjI)
    show "table_map (ste_table ?out) = steerMap source (ds @ [e])"
      using st rep(3) steerMap_snoc [OF new] by simp
    show "\<forall>e\<in>set (ds @ [e]). CheckPath (pol_Source (steerPolicy e source)) (st_Via e) = None \<and>
        Overhead (length (st_Via e)) \<le> ste_overhead ?out"
      using rep(5) c(2) by (fastforce simp: Policy_Overhead_def steerPolicy_def)
  qed (use st rep(2,4) new in auto)
  from Cons.IH [OF rec ok(2) this] show ?case by simp
qed auto

lemma NewSteerTable_rep:
  assumes "NewSteerTable es source = Inr (Some t)" "list_all steer_ok es"
  shows "\<exists>seen. steer_rep source t seen es"
proof -
  have "steerEntries source \<lparr>ste_table = None, ste_policies = [], ste_overhead = 0\<rparr> [] es = Inr t"
    using assms(1) by (auto simp: NewSteerTable_def split: if_splits sum.splits)
  moreover have "steer_rep source \<lparr>ste_table = None, ste_policies = [], ste_overhead = 0\<rparr> [] []"
    by (simp add: steer_rep_def steerMap_def sadr.fresh_inv sadr.fresh_map)
  ultimately show ?thesis using steerEntries_rep [of source _ "[]" es t "[]"] assms(2) by simp
qed

text \<open>
  C12. A steering table steers what its entries say: no two entries share a selector, and a packet is
  given the policy of the entry with the longest destination and then the longest source among those
  that select it, and none only if no entry does.
\<close>

theorem steering_exact:
  assumes "NewSteerTable es source = Inr (Some t)" "list_all steer_ok es"
  shows "distinct (map steerKey es) \<and>
    best_match (steerMap source es) src dst (SteerTable_Lookup (Some t) src dst)"
proof -
  obtain seen where r: "steer_rep source t seen es" using NewSteerTable_rep [OF assms] by blast
  then show ?thesis using sadr.find_law [of "ste_table t" src dst]
    by (simp add: steer_rep_def SteerTable_Lookup_def)
qed

definition sampleSteer :: "Steer list" where
  "sampleSteer = [\<lparr>st_From = PrefixFrom (Addr4 0x0a000000) 8, st_To = noPrefix, st_Source = AddrZ, st_Via = [Addr6 3, Addr6 5]\<rparr>,
     \<lparr>st_From = noPrefix, st_To = PrefixFrom (Addr4 0xc0000200) 24, st_Source = Addr6 8, st_Via = [Addr6 7]\<rparr>]"

lemma sampleSteer_ok: "list_all steer_ok sampleSteer"
  by (simp add: sampleSteer_def steer_ok_def)

lemma sampleSteer_built: "\<exists>t. NewSteerTable sampleSteer (Addr6 9) = Inr (Some t)"
proof -
  have "case NewSteerTable sampleSteer (Addr6 9) of Inr (Some _) \<Rightarrow> True | _ \<Rightarrow> False" by code_simp
  then show ?thesis by (auto split: sum.splits option.splits)
qed

theorem steering_exact_witness:
  "\<exists>t. NewSteerTable sampleSteer (Addr6 9) = Inr (Some t) \<and>
     best_match (steerMap (Addr6 9) sampleSteer) (Addr4 0x0a000001) (Addr4 1) (SteerTable_Lookup (Some t) (Addr4 0x0a000001) (Addr4 1))"
  using sampleSteer_built steering_exact [OF _ sampleSteer_ok] by blast

text \<open>
  C13. A steered packet fits: on a device of at most 65535 bytes whose MTU was reduced by \<open>CheckMTU\<close>, a
  well-formed packet no longer than that MTU that the table steers is encapsulated without error, and the
  result fits the device; the reduced MTU is never under the 1280 bytes IPv6 requires.
\<close>

theorem steered_packet_fits:
  assumes "NewSteerTable es source = Inr (Some t)" "list_all steer_ok es"
    and "CheckMTU (Some t) device = Inr mtu" "device \<le> 65535"
    and "SteerTable_Lookup (Some t) src dst = Some p"
    and "innerNextHeader inner = Inr family" "int (length inner) \<le> mtu"
  shows "1280 \<le> mtu \<and> (\<exists>out. Encapsulate inner (pol_Source p) (pol_Path p) = Inr out \<and> int (length out) \<le> device)"
proof -
  obtain seen where r: "steer_rep source t seen es" using NewSteerTable_rep [OF assms(1,2)] by blast
  have "best_match (steerMap source es) src dst (Some p)"
    using r sadr.find_law [of "ste_table t" src dst] assms(5) by (simp add: steer_rep_def SteerTable_Lookup_def)
  then obtain k where "steerMap source es k = Some p" by (auto simp: best_match_def)
  then obtain e where e: "e \<in> set es" "p = steerPolicy e source"
    by (auto simp: steerMap_def dest!: map_of_SomeD)
  have path: "CheckPath (pol_Source p) (pol_Path p) = None" "Overhead (length (pol_Path p)) \<le> ste_overhead t"
    using r e by (auto simp: steer_rep_def steerPolicy_def)
  have mtu: "1280 \<le> mtu" "mtu = device - int (ste_overhead t)"
    using assms(3) path(2) by (auto simp: CheckMTU_def SteerTable_Overhead_def Let_def Overhead_def srv6_consts split: if_splits)
  have len: "int (length inner + Overhead (length (pol_Path p))) \<le> device" using mtu(2) path(2) assms(7) by simp
  then have "checkEncapsulation inner (pol_Source p) (pol_Path p) = Inr (Overhead (length (pol_Path p)))"
    using path(1) assms(4,6) by (simp add: checkEncapsulation_def Overhead_def srv6_consts)
  then obtain out where "Encapsulate inner (pol_Source p) (pol_Path p) = Inr out"
    "length out = Overhead (length (pol_Path p)) + length inner"
    by (simp add: Encapsulate_def Let_def)
  then show ?thesis using mtu(1) len by (auto simp: ac_simps)
qed

theorem steered_packet_fits_witness:
  "\<exists>t out. NewSteerTable sampleSteer (Addr6 9) = Inr (Some t) \<and>
     Encapsulate sampleV4 (Addr6 9) [Addr6 3, Addr6 5] = Inr out \<and> int (length out) \<le> 1500"
proof -
  obtain t where t: "NewSteerTable sampleSteer (Addr6 9) = Inr (Some t)" using sampleSteer_built by blast
  have "(case NewSteerTable sampleSteer (Addr6 9) of Inr t \<Rightarrow>
      CheckMTU t 1500 = Inr 1420 \<and> SteerTable_Lookup t (Addr4 0x0a000001) (Addr4 1) =
        Some \<lparr>pol_Source = Addr6 9, pol_Path = [Addr6 3, Addr6 5]\<rparr>)" by code_simp
  then have c: "CheckMTU (Some t) 1500 = Inr 1420"
    "SteerTable_Lookup (Some t) (Addr4 0x0a000001) (Addr4 1) = Some \<lparr>pol_Source = Addr6 9, pol_Path = [Addr6 3, Addr6 5]\<rparr>"
    using t by simp_all
  have i: "innerNextHeader sampleV4 = Inr 4" "int (length sampleV4) \<le> 1420" by code_simp+
  show ?thesis using steered_packet_fits [OF t sampleSteer_ok c(1) _ c(2) i] t by auto
qed

end
