(* ===== verification/Babel_Udp.thy ===== *)
theory Babel_Udp
  imports Net_Addr Checksum
begin

unbundle bit_operations_syntax

text \<open>
  The datagrams a Babel speaker exchanges inside a tunnel, \<open>internal/babel/rawpacket.go\<close>: a payload
  wrapped in IPv6 and UDP with its checksum, the filter in front of the control path, and the parser
  that validates a received packet. Errors are names.
\<close>

section \<open>Model\<close>

definition b_Port :: u16 where "b_Port = 6696"
definition nextHeaderUDP :: byte where "nextHeaderUDP = 17"
definition udp_ipv6HeaderLen :: nat where "udp_ipv6HeaderLen = 40"
definition udpHeaderLen :: nat where "udpHeaderLen = 8"
definition babelHopLimit :: byte where "babelHopLimit = 1"

definition multicastGroup :: addr where "multicastGroup = Addr6 0xff020000000000000000000000010006"

lemmas udp_consts = b_Port_def nextHeaderUDP_def udp_ipv6HeaderLen_def udpHeaderLen_def babelHopLimit_def

text \<open>The checksum: the calls of the local \<open>add\<close> in order, then the folding loop.\<close>

definition udpChecksum :: "addr \<Rightarrow> addr \<Rightarrow> bytes \<Rightarrow> u16" where
  "udpChecksum src dst udp =
     (let sum = onesAdd 0 (be_bytes 16 (As16 src));
          sum = onesAdd sum (be_bytes 16 (As16 dst));
          sum = onesAdd sum (put32 (of_nat (length udp)));
          sum = onesAdd sum ((replicate 4 0)[3 := nextHeaderUDP]);
          sum = onesAdd sum udp;
          cs = NOT (ucast (onesFold sum))
      in if cs = 0 then 0xffff else cs)"

definition buildPacket :: "addr \<Rightarrow> addr \<Rightarrow> bytes \<Rightarrow> bytes" where
  "buildPacket src dst payload =
     (let total = udp_ipv6HeaderLen + udpHeaderLen + length payload;
          b = (replicate total 0)[0 := 0x60];
          b = put_at 4 (put16 (of_nat (udpHeaderLen + length payload))) b;
          b = b[6 := nextHeaderUDP, 7 := babelHopLimit];
          b = put_at 8 (take 16 (AsSlice src)) b;
          b = put_at 24 (take 16 (AsSlice dst)) b;
          udp = drop udp_ipv6HeaderLen b;
          udp = put_at 0 (put16 b_Port) udp;
          udp = put_at 2 (put16 b_Port) udp;
          udp = put_at 4 (put16 (of_nat (udpHeaderLen + length payload))) udp;
          udp = put_at 8 payload udp;
          udp = put_at 6 (put16 (udpChecksum src dst udp)) udp
      in take udp_ipv6HeaderLen b @ udp)"

definition isBabelPacket :: "bytes \<Rightarrow> bool" where
  "isBabelPacket raw = (length raw \<ge> udp_ipv6HeaderLen + udpHeaderLen \<and> drop_bit 4 (raw ! 0) = 6 \<and>
     raw ! 6 = nextHeaderUDP \<and> rd16 (slice 42 44 raw) = b_Port)"

datatype packet_error =
    PacketTooShort | NotIPv6 | NotUDP | PayloadLength | BadSource | NotLinkLocal | NotForUs
  | WrongSourcePort | WrongPort | UDPLength | NoChecksum | BadChecksum

definition parsePacket :: "bytes \<Rightarrow> addr \<Rightarrow> (packet_error, addr \<times> bytes) result" where
  "parsePacket raw localAddr =
     (if length raw < udp_ipv6HeaderLen + udpHeaderLen then Inl PacketTooShort
      else if drop_bit 4 (raw ! 0) \<noteq> 6 then Inl NotIPv6
      else if raw ! 6 \<noteq> nextHeaderUDP then Inl NotUDP
      else let payloadLen = unat (rd16 (slice 4 6 raw))
      in if payloadLen < udpHeaderLen \<or> udp_ipv6HeaderLen + payloadLen \<noteq> length raw then Inl PayloadLength
      else case AddrFromSlice (slice 8 24 raw) of
        None \<Rightarrow> Inl BadSource
      | Some srcAddr \<Rightarrow>
      if \<not> Is6 srcAddr \<or> \<not> IsLinkLocalUnicast srcAddr then Inl NotLinkLocal
      else case AddrFromSlice (slice 24 40 raw) of
        None \<Rightarrow> Inl NotForUs
      | Some dstAddr \<Rightarrow>
      if dstAddr \<noteq> multicastGroup \<and> dstAddr \<noteq> localAddr then Inl NotForUs
      else let udp = drop udp_ipv6HeaderLen raw
      in if rd16 (slice 0 2 udp) \<noteq> b_Port then Inl WrongSourcePort
      else let dport = rd16 (slice 2 4 udp)
      in if dport \<noteq> b_Port then Inl WrongPort
      else let udpLen = unat (rd16 (slice 4 6 udp))
      in if udpLen \<noteq> payloadLen then Inl UDPLength
      else let receivedChecksum = rd16 (slice 6 8 udp)
      in if receivedChecksum = 0 then Inl NoChecksum
      else if udpChecksum srcAddr dstAddr udp \<noteq> 0xffff then Inl BadChecksum
      else Inr (srcAddr, slice udpHeaderLen udpLen udp))"

section \<open>The datagram\<close>

text \<open>The datagram \<open>buildPacket\<close> writes, as one list.\<close>

definition udpWire :: "nat \<Rightarrow> u16 \<Rightarrow> bytes \<Rightarrow> bytes" where
  "udpWire len check payload = put16 b_Port @ put16 b_Port @ put16 (of_nat len) @ put16 check @ payload"

definition ipWire :: "u128 \<Rightarrow> u128 \<Rightarrow> nat \<Rightarrow> bytes" where
  "ipWire s d len = [0x60, 0, 0, 0] @ put16 (of_nat len) @ [nextHeaderUDP, babelHopLimit] @ be_bytes 16 s @ be_bytes 16 d"

definition udpPseudo :: "u128 \<Rightarrow> u128 \<Rightarrow> nat \<Rightarrow> bytes" where
  "udpPseudo s d len = be_bytes 16 s @ be_bytes 16 d @ put32 (of_nat len) @ [0, 0, 0, nextHeaderUDP]"

lemma udpChecksum_eq:
  "udpChecksum (Addr6 s) (Addr6 d) udp =
     (let cs = NOT (ucast (onesFold (onesAdd 0 (udpPseudo s d (length udp) @ udp))))
      in if cs = 0 then 0xffff else cs)"
proof -
  have "(replicate 4 0)[3 := nextHeaderUDP] = [0, 0, 0, nextHeaderUDP]" by (simp add: eval_nat_numeral)
  then show ?thesis unfolding udpChecksum_def Let_def udpPseudo_def As16.simps
    by (simp add: onesAdd_append)
qed

lemma buildPacket_eq:
  "buildPacket (Addr6 s) (Addr6 d) payload =
     (let len = 8 + length payload; check = udpChecksum (Addr6 s) (Addr6 d) (udpWire len 0 payload)
      in ipWire s d len @ udpWire len check payload)"
proof -
  let ?len = "8 + length payload"
  let ?z = "replicate (40 + 8 + length payload) (0 :: byte)"
  let ?b = "put_at 24 (take 16 (AsSlice (Addr6 d))) (put_at 8 (take 16 (AsSlice (Addr6 s)))
    ((put_at 4 (put16 (of_nat ?len)) (?z[0 := 0x60]))[6 := nextHeaderUDP, 7 := babelHopLimit]))"
  have z: "?z[0 := 0x60] = fill [0x60, 0, 0, 0] ?z" by (simp add: fill_def eval_nat_numeral)
  have "?b = fill (ipWire s d ?len) ?z"
    unfolding z by (simp add: put_at_fill update_fill ipWire_def)
  then have b: "?b = ipWire s d ?len @ replicate ?len 0"
    by (simp add: fill_def ipWire_def)
  have li: "length (ipWire s d ?len) = 40" by (simp add: ipWire_def)
  let ?u = "replicate ?len (0 :: byte)"
  have u: "put_at 8 payload (put_at 4 (put16 (of_nat ?len)) (put_at 2 (put16 b_Port) (put_at 0 (put16 b_Port) ?u))) =
      udpWire ?len 0 payload"
  proof -
    have "put_at 4 (put16 (of_nat ?len)) (put_at 2 (put16 b_Port) (put_at 0 (put16 b_Port) ?u)) =
        fill (put16 b_Port @ put16 b_Port @ put16 (of_nat ?len)) ?u"
      using put_at_fill [of "[]" 0 "put16 b_Port" ?u] by (simp add: put_at_fill fill_Nil)
    also have "\<dots> = (put16 b_Port @ put16 b_Port @ put16 (of_nat ?len) @ [0, 0]) @ replicate (length payload) 0"
      by (simp add: fill_def eval_nat_numeral)
    finally show ?thesis by (simp add: udpWire_def put_at_def go_copy_def put16_eq)
  qed
  have w: "put_at 6 (put16 c) (udpWire ?len 0 payload) = udpWire ?len c payload" for c
    by (simp add: udpWire_def put_at_def go_copy_def put16_eq)
  have tk: "take 40 (ipWire s d ?len @ ?u) = ipWire s d ?len" "drop 40 (ipWire s d ?len @ ?u) = ?u" using li by simp_all
  show ?thesis
    unfolding buildPacket_def Let_def udp_ipv6HeaderLen_def udpHeaderLen_def b tk u w ..
qed

section \<open>What the receiver accepts\<close>

lemma udpWire_check:
  "wsum (udpWire len check payload) = wsum (udpWire len 0 payload) + unat check"
  by (simp add: udpWire_def wsum_append wsum_put16)

lemma udpChecksum_verifies:
  assumes len: "length payload \<le> 65527"
    and check: "check = udpChecksum (Addr6 s) (Addr6 d) (udpWire (8 + length payload) 0 payload)"
  shows "check \<noteq> 0" "udpChecksum (Addr6 s) (Addr6 d) (udpWire (8 + length payload) check payload) = 0xffff"
proof -
  let ?u = "\<lambda>c. udpPseudo s d (8 + length payload) @ udpWire (8 + length payload) c payload"
  have lu: "length (udpWire (8 + length payload) c payload) = 8 + length payload" for c by (simp add: udpWire_def)
  have lp: "length (udpPseudo s d n) = 40" for n by (simp add: udpPseudo_def)
  have bound: "wsum (?u c) < 2 ^ 32" for c
  proof -
    have "wsum (?u c) \<le> 65535 * ((length (?u c) + 1) div 2)" by (rule wsum_le)
    also have "\<dots> \<le> 65535 * 33000" using len by (simp add: lu lp)
    finally show ?thesis by simp
  qed
  have sum: "wsum (?u c) = wsum (?u 0) + unat c" for c
    using udpWire_check [of "8 + length payload" c payload] by (simp add: wsum_append lp)
  have fold: "unat (onesAdd 0 (?u c)) = wsum (?u c)" for c using onesAdd_unat [of 0 "?u c"] bound by simp
  have pos: "0 < wsum (?u 0)"
    by (simp add: wsum_append udpPseudo_def udp_consts)
  let ?s = "onesFold (onesAdd 0 (?u 0))"
  have s: "unat ?s mod 65535 = wsum (?u 0) mod 65535" "unat ?s < 65536" "unat ?s \<noteq> 0"
    using onesFold_props [of "onesAdd 0 (?u 0)"] fold pos by auto
  have cs: "check = (let cs = NOT (ucast ?s) in if cs = 0 then 0xffff else cs)"
    unfolding check udpChecksum_eq lu ..
  have n: "unat (NOT (ucast ?s :: u16)) = 65535 - unat ?s"
    using s(2) by (simp add: unat_not_u16 unsigned_ucast_eq take_bit_nat_eq_self)
  show "check \<noteq> 0" using cs by (auto simp: Let_def)
  have "(unat ?s + unat check) mod 65535 = 0"
  proof (cases "NOT (ucast ?s :: u16) = 0")
    case True
    then have "unat ?s = 65535" using n s(2) by simp
    then show ?thesis using cs True by simp
  qed (use n s(2) cs in \<open>auto simp: Let_def\<close>)
  then have "wsum (?u check) mod 65535 = 0"
    unfolding sum [of check] using mod_add_cong [OF s(1) refl, of "unat check"] by simp
  then have "onesFold (onesAdd 0 (?u check)) = 0xffff"
    using onesFold_check [of "onesAdd 0 (?u check)"] fold [of check] sum [of check] pos by simp
  then show "udpChecksum (Addr6 s) (Addr6 d) (udpWire (8 + length payload) check payload) = 0xffff"
    unfolding udpChecksum_eq lu by simp
qed

text \<open>
  C14. A Babel payload crosses the tunnel: what \<open>buildPacket\<close> wraps for the multicast group or for the
  receiver's own address, from a link-local address, passes the filter and \<open>parsePacket\<close> returns
  exactly the source and the payload.
\<close>

theorem babel_datagram_roundtrip:
  assumes "length payload \<le> 65527" "src = Addr6 s" "IsLinkLocalUnicast src"
    and "dst = multicastGroup \<or> dst = Addr6 d \<and> localAddr = dst"
  shows "isBabelPacket (buildPacket src dst payload) \<and>
    parsePacket (buildPacket src dst payload) localAddr = Inr (src, payload)"
proof -
  obtain d' where d: "dst = Addr6 d'" using assms(4) by (auto simp: multicastGroup_def)
  let ?len = "8 + length payload"
  obtain check where c: "check = udpChecksum (Addr6 s) (Addr6 d') (udpWire ?len 0 payload)" by simp
  note v = udpChecksum_verifies [OF assms(1) c]
  let ?raw = "ipWire s d' ?len @ udpWire ?len check payload"
  have raw: "buildPacket src dst payload = ?raw"
    unfolding assms(2) d buildPacket_eq Let_def c ..
  have li: "length (ipWire s d' ?len) = 40" by (simp add: ipWire_def)
  have len: "unat (of_nat ?len :: u16) = ?len" using assms(1) by (simp add: unsigned_of_nat take_bit_nat_eq_self del: of_nat_add)
  have h: "?raw ! 0 = 0x60" "?raw ! 6 = nextHeaderUDP" "slice 4 6 ?raw = put16 (of_nat ?len)"
    "slice 8 24 ?raw = be_bytes 16 s" "slice 24 40 ?raw = be_bytes 16 d'"
    by (simp_all add: ipWire_def slice_def nth_append put16_eq)
  have u: "drop 40 ?raw = udpWire ?len check payload" "slice 42 44 ?raw = put16 b_Port" using li
    by (simp_all add: slice_def udpWire_def put16_eq)
  have f: "slice 0 2 (udpWire ?len check payload) = put16 b_Port" "slice 2 4 (udpWire ?len check payload) = put16 b_Port"
    "slice 4 6 (udpWire ?len check payload) = put16 (of_nat ?len)" "slice 6 8 (udpWire ?len check payload) = put16 check"
    "slice 8 ?len (udpWire ?len check payload) = payload"
    by (simp_all add: slice_def udpWire_def put16_eq)
  have lr: "length ?raw = 40 + ?len" using li by (simp add: udpWire_def)
  have a: "AddrFromSlice (be_bytes 16 x) = Some (Addr6 x)" for x :: u128 by (simp add: AddrFromSlice_def)
  have six: "drop_bit 4 (0x60 :: byte) = 6" by code_simp
  have "isBabelPacket ?raw"
    unfolding isBabelPacket_def udp_ipv6HeaderLen_def udpHeaderLen_def h u lr six by simp
  moreover have "parsePacket ?raw localAddr = Inr (src, payload)"
    unfolding parsePacket_def udp_ipv6HeaderLen_def udpHeaderLen_def h u lr Let_def f a six rd_put len option.case
    using assms(2-4) v d by (auto simp: Is6_def)
  ultimately show ?thesis unfolding raw ..
qed

theorem babel_datagram_roundtrip_witness:
  "parsePacket (buildPacket (Addr6 (push_bit 112 0xfe80 + 5)) multicastGroup [1, 2, 3]) AddrZ =
     Inr (Addr6 (push_bit 112 0xfe80 + 5), [1, 2, 3])"
proof -
  have "IsLinkLocalUnicast (Addr6 (push_bit 112 0xfe80 + 5))" by code_simp
  then show ?thesis
    by (rule babel_datagram_roundtrip [THEN conjunct2, OF _ refl _ disjI1 [OF refl], rotated]) simp
qed

end
