(* ===== verification/Babel_Tlv.thy ===== *)
theory Babel_Tlv
  imports Net_Addr
begin

unbundle bit_operations_syntax

text \<open>
  The Babel wire format: packets, TLVs and sub-TLVs (\<open>internal/babel/tlv.go\<close>), Router-Id, Next Hop
  and acknowledgments (\<open>misc.go\<close>), Hello and IHU (\<open>hello_ihu.go\<close>), route and seqno requests
  (\<open>request.go\<close>), and Updates with the prefix compression state of a packet (\<open>update.go\<close>). A
  router-id is the 64-bit word of its eight bytes; a \<open>net.IP\<close> is its bytes; an encoder that panics
  returns \<open>None\<close>. The decoder of Updates returns its new state beside the result.
\<close>

section \<open>Model\<close>

subsection \<open>Constants\<close>

definition b_Magic :: byte where "b_Magic = 42"
definition b_Version :: byte where "b_Version = 2"
definition b_headerLen :: nat where "b_headerLen = 4"

definition TLVPad1 :: byte where "TLVPad1 = 0"
definition TLVPadN :: byte where "TLVPadN = 1"
definition TLVAckReq :: byte where "TLVAckReq = 2"
definition TLVAck :: byte where "TLVAck = 3"
definition TLVHello :: byte where "TLVHello = 4"
definition TLVIHU :: byte where "TLVIHU = 5"
definition TLVRouterID :: byte where "TLVRouterID = 6"
definition TLVNextHop :: byte where "TLVNextHop = 7"
definition TLVUpdate :: byte where "TLVUpdate = 8"
definition TLVRouteRequest :: byte where "TLVRouteRequest = 9"
definition TLVSeqnoRequest :: byte where "TLVSeqnoRequest = 10"

definition SubTLVTimestamp :: byte where "SubTLVTimestamp = 3"
definition SubTLVSourcePrefix :: byte where "SubTLVSourcePrefix = 128"

definition AEWildcard :: byte where "AEWildcard = 0"
definition AEIPv4 :: byte where "AEIPv4 = 1"
definition AEIPv6 :: byte where "AEIPv6 = 2"
definition AEIPv6LinkLocal :: byte where "AEIPv6LinkLocal = 3"
definition AEIPv4ViaIPv6 :: byte where "AEIPv4ViaIPv6 = 4"

definition MetricInfinity :: u16 where "MetricInfinity = 0xffff"

definition updateFlagPrefix :: byte where "updateFlagPrefix = 0x80"
definition updateFlagRouterID :: byte where "updateFlagRouterID = 0x40"

lemmas tlv_consts = b_Magic_def b_Version_def b_headerLen_def TLVPad1_def TLVPadN_def TLVAckReq_def TLVAck_def
  TLVHello_def TLVIHU_def TLVRouterID_def TLVNextHop_def TLVUpdate_def TLVRouteRequest_def TLVSeqnoRequest_def
  SubTLVTimestamp_def SubTLVSourcePrefix_def

lemmas ae_consts = AEWildcard_def AEIPv4_def AEIPv6_def AEIPv6LinkLocal_def AEIPv4ViaIPv6_def

datatype tlv_error =
    TruncatedHeader | LengthExceeds | ShortPacket | BadMagic | BadVersion | BodyExceeds | MandatorySubTLV
  | ShortAddress | UnsupportedAE | ShortTLV | WildcardPrefix | MalformedPrefix | LengthMisfit | SourceFamily
  | TwoSources | MalformedSource | PrefixTooLong | NoDefaultPrefix | OmittedExceeds | PrefixTruncated

subsection \<open>Packets and TLVs\<close>

record RawTLV =
  tlv_Type :: byte
  tlv_Body :: bytes

record framedTLV =
  fr_typeByte :: byte
  fr_body :: bytes

fun decodeFramesLoop :: "framedTLV list \<Rightarrow> bytes \<Rightarrow> (tlv_error, framedTLV list) result" where
  "decodeFramesLoop out [] = Inr out"
| "decodeFramesLoop out (t # rest) =
     (if t = TLVPad1 then decodeFramesLoop out rest
      else case rest of
        [] \<Rightarrow> Inl TruncatedHeader
      | l # tl_rest \<Rightarrow>
          if 2 + unat l > length (t # rest) then Inl LengthExceeds
          else decodeFramesLoop
            (if t \<noteq> TLVPadN then out @ [\<lparr>fr_typeByte = t, fr_body = slice 2 (2 + unat l) (t # rest)\<rparr>] else out)
            (drop (2 + unat l) (t # rest)))"

definition decodeTLVFrames :: "bytes \<Rightarrow> (tlv_error, framedTLV list) result" where
  "decodeTLVFrames body = decodeFramesLoop [] body"

fun encodeBody :: "RawTLV list \<Rightarrow> bytes" where
  "encodeBody [] = []"
| "encodeBody (t # ts) =
     (if tlv_Type t = TLVPad1 then [TLVPad1]
      else [tlv_Type t, of_nat (length (tlv_Body t))] @ tlv_Body t) @ encodeBody ts"

definition EncodePacket :: "RawTLV list \<Rightarrow> bytes" where
  "EncodePacket tlvs =
     (let body = encodeBody tlvs;
          out = (replicate (b_headerLen + length body) 0)[0 := b_Magic, 1 := b_Version];
          out = put_at 2 (put16 (of_nat (length body))) out
      in put_at b_headerLen body out)"

definition DecodePacket :: "bytes \<Rightarrow> (tlv_error, RawTLV list) result" where
  "DecodePacket b =
     (if length b < b_headerLen then Inl ShortPacket
      else if b ! 0 \<noteq> b_Magic then Inl BadMagic
      else if b ! 1 \<noteq> b_Version then Inl BadVersion
      else let bodyLen = rd16 (slice 2 4 b)
      in if b_headerLen + unat bodyLen > length b then Inl BodyExceeds
      else let body = slice b_headerLen (b_headerLen + unat bodyLen) b
      in case decodeTLVFrames body of
           Inl e \<Rightarrow> Inl e
         | Inr frames \<Rightarrow> Inr (map (\<lambda>f. \<lparr>tlv_Type = fr_typeByte f, tlv_Body = fr_body f\<rparr>) frames))"

record SubTLV =
  sub_Type :: byte
  sub_Body :: bytes

fun encodeSubTLVs :: "SubTLV list \<Rightarrow> bytes" where
  "encodeSubTLVs [] = []"
| "encodeSubTLVs (s # ss) = [sub_Type s, of_nat (length (sub_Body s))] @ sub_Body s @ encodeSubTLVs ss"

definition decodeSubTLVs :: "bytes \<Rightarrow> (tlv_error, SubTLV list) result" where
  "decodeSubTLVs b =
     (case decodeTLVFrames b of
        Inl e \<Rightarrow> Inl e
      | Inr frames \<Rightarrow> Inr (map (\<lambda>f. \<lparr>sub_Type = fr_typeByte f, sub_Body = fr_body f\<rparr>) frames))"

definition decodeOptionalSubTLVs :: "bytes \<Rightarrow> (tlv_error, SubTLV list) result" where
  "decodeOptionalSubTLVs b =
     (case decodeSubTLVs b of
        Inl e \<Rightarrow> Inl e
      | Inr subs \<Rightarrow> if list_ex (\<lambda>s. sub_Type s \<ge> 128) subs then Inl MandatorySubTLV else Inr subs)"

fun findSubTLV :: "SubTLV list \<Rightarrow> byte \<Rightarrow> bytes option" where
  "findSubTLV [] t = None"
| "findSubTLV (s # ss) t = (if sub_Type s = t then Some (sub_Body s) else findSubTLV ss t)"

subsection \<open>Addresses\<close>

text \<open>\<open>net.IP\<close>: a slice of 4 or 16 bytes, nil being the empty one. \<open>To4\<close> reads a v4-mapped address as IPv4.\<close>

definition To4 :: "bytes \<Rightarrow> bytes" where
  "To4 ip =
     (if length ip = 4 then ip
      else if length ip = 16 \<and> take 10 ip = replicate 10 0 \<and> ip ! 10 = 0xff \<and> ip ! 11 = 0xff then drop 12 ip
      else [])"

definition To16 :: "bytes \<Rightarrow> bytes" where
  "To16 ip = (if length ip = 4 then replicate 10 0 @ [0xff, 0xff] @ ip else if length ip = 16 then ip else [])"

definition encodeAddress :: "bytes \<Rightarrow> byte \<times> bytes" where
  "encodeAddress a = (let v4 = To4 a in if v4 \<noteq> [] then (AEIPv4, v4) else (AEIPv6, To16 a))"

definition decodeAddress :: "byte \<Rightarrow> bytes \<Rightarrow> (tlv_error, bytes) result" where
  "decodeAddress ae body =
     (if ae = AEIPv4 then (if length body < 4 then Inl ShortAddress else Inr (take 4 body))
      else if ae = AEIPv6 then (if length body < 16 then Inl ShortAddress else Inr (take 16 body))
      else if ae = AEIPv6LinkLocal then
        (if length body < 8 then Inl ShortAddress
         else Inr (put_at 8 (take 8 body) ((replicate 16 0)[0 := 0xfe, 1 := 0x80])))
      else Inl UnsupportedAE)"

subsection \<open>Router-Id, Next Hop, acknowledgments\<close>

type_synonym routerid = u64

definition EncodeRouterID :: "routerid \<Rightarrow> RawTLV" where
  "EncodeRouterID rid = \<lparr>tlv_Type = TLVRouterID, tlv_Body = put_at 2 (put64 rid) (replicate 10 0)\<rparr>"

definition DecodeRouterID :: "bytes \<Rightarrow> (tlv_error, routerid \<times> bool) result" where
  "DecodeRouterID body =
     (if length body < 10 then Inl ShortTLV
      else let rid = rd64 (slice 2 10 body)
      in case decodeOptionalSubTLVs (drop 10 body) of Inl _ \<Rightarrow> Inr (rid, True) | Inr _ \<Rightarrow> Inr (rid, False))"

definition EncodeNextHop :: "bytes \<Rightarrow> RawTLV" where
  "EncodeNextHop a =
     (let (ae, raw) = encodeAddress a
      in \<lparr>tlv_Type = TLVNextHop, tlv_Body = put_at 2 raw ((replicate (2 + length raw) 0)[0 := ae])\<rparr>)"

definition DecodeNextHop :: "bytes \<Rightarrow> (tlv_error, bytes \<times> byte \<times> bool) result" where
  "DecodeNextHop body =
     (if length body < 2 then Inl ShortTLV
      else let ae = body ! 0
      in case decodeAddress ae (drop 2 body) of
           Inl e \<Rightarrow> Inl e
         | Inr a \<Rightarrow>
             let len = (if ae = AEIPv6LinkLocal then 8 else length a)
             in case decodeOptionalSubTLVs (drop (2 + len) body) of
                  Inl _ \<Rightarrow> Inr (a, ae, True) | Inr _ \<Rightarrow> Inr (a, ae, False))"

definition EncodeAckReq :: "u16 \<Rightarrow> u16 \<Rightarrow> RawTLV" where
  "EncodeAckReq nonce interval =
     \<lparr>tlv_Type = TLVAckReq, tlv_Body = put_at 4 (put16 interval) (put_at 2 (put16 nonce) (replicate 6 0))\<rparr>"

definition DecodeAckReq :: "bytes \<Rightarrow> (tlv_error, u16) result" where
  "DecodeAckReq body =
     (if length body < 6 then Inl ShortTLV
      else case decodeOptionalSubTLVs (drop 6 body) of
        Inl e \<Rightarrow> Inl e | Inr _ \<Rightarrow> Inr (rd16 (slice 2 4 body)))"

definition EncodeAck :: "u16 \<Rightarrow> RawTLV" where
  "EncodeAck nonce = \<lparr>tlv_Type = TLVAck, tlv_Body = put_at 0 (put16 nonce) (replicate 2 0)\<rparr>"

subsection \<open>Hello and IHU\<close>

record Hello =
  h_Seqno :: u16
  h_Interval :: u16
  h_Unicast :: bool
  h_TxTS :: u32
  h_HasTS :: bool

definition EncodeHello :: "Hello \<Rightarrow> RawTLV" where
  "EncodeHello h =
     (let body = replicate 6 0;
          body = (if h_Unicast h then put_at 0 (put16 0x8000) body else body);
          body = put_at 2 (put16 (h_Seqno h)) body;
          body = put_at 4 (put16 (h_Interval h)) body;
          body = (if h_HasTS h
                  then body @ encodeSubTLVs [\<lparr>sub_Type = SubTLVTimestamp, sub_Body = put_at 0 (put32 (h_TxTS h)) (replicate 4 0)\<rparr>]
                  else body)
      in \<lparr>tlv_Type = TLVHello, tlv_Body = body\<rparr>)"

definition DecodeHello :: "bytes \<Rightarrow> (tlv_error, Hello) result" where
  "DecodeHello body =
     (if length body < 6 then Inl ShortTLV
      else let h = \<lparr>h_Seqno = rd16 (slice 2 4 body), h_Interval = rd16 (slice 4 6 body),
                    h_Unicast = (rd16 (slice 0 2 body) AND 0x8000 \<noteq> 0), h_TxTS = 0, h_HasTS = False\<rparr>
      in case decodeOptionalSubTLVs (drop 6 body) of
           Inl e \<Rightarrow> Inl e
         | Inr subs \<Rightarrow>
             (case findSubTLV subs SubTLVTimestamp of
                Some ts \<Rightarrow> Inr (if length ts \<ge> 4 then h\<lparr>h_TxTS := rd32 ts, h_HasTS := True\<rparr> else h)
              | None \<Rightarrow> Inr h))"

record IHU =
  i_RxCost :: u16
  i_Interval :: u16
  i_OriginTS :: u32
  i_ReceiveTS :: u32
  i_HasTS :: bool

definition EncodeIHU :: "IHU \<Rightarrow> RawTLV" where
  "EncodeIHU ihu =
     (let body = (replicate 6 0)[0 := AEWildcard];
          body = put_at 2 (put16 (i_RxCost ihu)) body;
          body = put_at 4 (put16 (i_Interval ihu)) body;
          body = (if i_HasTS ihu
                  then body @ encodeSubTLVs [\<lparr>sub_Type = SubTLVTimestamp,
                    sub_Body = put_at 4 (put32 (i_ReceiveTS ihu)) (put_at 0 (put32 (i_OriginTS ihu)) (replicate 8 0))\<rparr>]
                  else body)
      in \<lparr>tlv_Type = TLVIHU, tlv_Body = body\<rparr>)"

definition DecodeIHU :: "bytes \<Rightarrow> (tlv_error, IHU \<times> bytes) result" where
  "DecodeIHU body =
     (if length body < 6 then Inl ShortTLV
      else let ae = body ! 0;
               ihu = \<lparr>i_RxCost = rd16 (slice 2 4 body), i_Interval = rd16 (slice 4 6 body),
                      i_OriginTS = 0, i_ReceiveTS = 0, i_HasTS = False\<rparr>;
               rest = drop 6 body
      in case (if ae \<noteq> AEWildcard
               then (case decodeAddress ae rest of
                       Inl e \<Rightarrow> Inl e
                     | Inr a \<Rightarrow> Inr (a, drop (if ae = AEIPv6 then 16 else if ae = AEIPv6LinkLocal then 8 else 4) rest))
               else Inr ([], rest)) of
           Inl e \<Rightarrow> Inl e
         | Inr (a, rest) \<Rightarrow>
             (case decodeOptionalSubTLVs rest of
                Inl e \<Rightarrow> Inl e
              | Inr subs \<Rightarrow>
                  (case findSubTLV subs SubTLVTimestamp of
                     Some ts \<Rightarrow> Inr (if length ts \<ge> 8
                       then ihu\<lparr>i_OriginTS := rd32 (slice 0 4 ts), i_ReceiveTS := rd32 (slice 4 8 ts), i_HasTS := True\<rparr>
                       else ihu, a)
                   | None \<Rightarrow> Inr (ihu, a))))"

subsection \<open>Prefixes on the wire\<close>

text \<open>
  \<open>prefixByteLen\<close> is called with lengths of at least -1, for which Go's quotient is the mathematical
  one. A call that would panic is \<open>None\<close>.
\<close>

definition prefixByteLen :: "int \<Rightarrow> nat" where "prefixByteLen plen = nat ((plen + 7) div 8)"

definition encodeSourcePrefix :: "byte \<Rightarrow> prefix \<Rightarrow> bytes option" where
  "encodeSourcePrefix ae source =
     (if p_Bits source = 0 \<or> Is4 (p_ip source) \<noteq> (ae = AEIPv4 \<or> ae = AEIPv4ViaIPv6) then None
      else let body = [of_int (p_Bits source)] @ take (prefixByteLen (p_Bits source)) (AsSlice (p_ip source))
        in Some (encodeSubTLVs [\<lparr>sub_Type = SubTLVSourcePrefix, sub_Body = body\<rparr>]))"

definition decodeSourcePrefix :: "byte \<Rightarrow> bytes \<Rightarrow> prefix option" where
  "decodeSourcePrefix ae body =
     (if length body < 1 then None
      else let plen = int (unat (body ! 0))
      in if plen = 0 then None
      else let n = prefixByteLen plen
      in if length body - 1 < n then None
      else let raw = slice 1 (1 + n) body
      in if ae = AEIPv4 \<or> ae = AEIPv4ViaIPv6 then
           (if plen > 32 then None else Some (Masked (PrefixFrom (Addr4 (be_acc 0 (go_copy (replicate 4 0) raw))) plen)))
         else if ae = AEIPv6 then
           (if plen > 128 then None else Some (Masked (PrefixFrom (Addr6 (be_acc 0 (go_copy (replicate 16 0) raw))) plen)))
         else None)"

subsection \<open>Requests\<close>

record RouteRequest =
  rr_AE :: byte
  rr_Prefix :: prefix
  rr_SourcePrefix :: prefix

definition appendSource :: "bytes \<Rightarrow> byte \<Rightarrow> prefix \<Rightarrow> bytes option" where
  "appendSource body ae source =
     (if p_IsValid source then map_option (\<lambda>s. body @ s) (encodeSourcePrefix ae source) else Some body)"

definition EncodeRouteRequest :: "RouteRequest \<Rightarrow> RawTLV option" where
  "EncodeRouteRequest r =
     (if rr_AE r = AEWildcard \<or> \<not> p_IsValid (rr_Prefix r)
      then Some \<lparr>tlv_Type = TLVRouteRequest, tlv_Body = [AEWildcard, 0]\<rparr>
      else let p = Masked (rr_Prefix r);
               raw = AsSlice (p_ip p);
               body = [rr_AE r, of_int (p_Bits p)] @ take (prefixByteLen (p_Bits p)) raw
      in map_option (\<lambda>body. \<lparr>tlv_Type = TLVRouteRequest, tlv_Body = body\<rparr>)
           (appendSource body (rr_AE r) (rr_SourcePrefix r)))"

fun requestSubsLoop :: "byte \<Rightarrow> prefix \<Rightarrow> SubTLV list \<Rightarrow> (tlv_error, prefix) result" where
  "requestSubsLoop ae source [] = Inr source"
| "requestSubsLoop ae source (sub # rest) =
     (if sub_Type sub < 128 then requestSubsLoop ae source rest
      else if sub_Type sub \<noteq> SubTLVSourcePrefix then Inl MandatorySubTLV
      else if p_IsValid source then Inl TwoSources
      else case decodeSourcePrefix ae (sub_Body sub) of
             None \<Rightarrow> Inl MalformedSource
           | Some decoded \<Rightarrow> requestSubsLoop ae decoded rest)"

definition decodeRequestSubTLVs :: "byte \<Rightarrow> bytes \<Rightarrow> (tlv_error, prefix) result" where
  "decodeRequestSubTLVs ae raw =
     (case decodeSubTLVs raw of Inl e \<Rightarrow> Inl e | Inr subs \<Rightarrow> requestSubsLoop ae noPrefix subs)"

definition decodeRequestPrefix :: "byte \<Rightarrow> int \<Rightarrow> bytes \<Rightarrow> (tlv_error, prefix \<times> prefix) result" where
  "decodeRequestPrefix ae plen raw =
     (if ae = AEWildcard then
        (if plen \<noteq> 0 then Inl WildcardPrefix
         else case decodeRequestSubTLVs ae raw of Inl e \<Rightarrow> Inl e | Inr _ \<Rightarrow> Inr (noPrefix, noPrefix))
      else if \<not> (ae = AEIPv4 \<or> ae = AEIPv4ViaIPv6) \<and> ae \<noteq> AEIPv6 then Inl UnsupportedAE
      else let bits = (if ae = AEIPv4 \<or> ae = AEIPv4ViaIPv6 then 32 else 128 :: int)
      in if plen > bits \<or> length raw < prefixByteLen plen then Inl MalformedPrefix
      else case decodeRequestSubTLVs ae (drop (prefixByteLen plen) raw) of
             Inl e \<Rightarrow> Inl e
           | Inr source \<Rightarrow>
               let buf = go_copy (replicate (nat (bits div 8)) 0) (take (prefixByteLen plen) raw);
                   address = (case AddrFromSlice buf of Some a \<Rightarrow> a | None \<Rightarrow> AddrZ);
                   prefix = Masked (PrefixFrom (Unmap address) plen)
               in if \<not> p_IsValid prefix then Inl LengthMisfit
                  else if p_IsValid source \<and> Is4 (p_ip source) \<noteq> Is4 (p_ip prefix) then Inl SourceFamily
                  else Inr (prefix, source))"

definition DecodeRouteRequest :: "bytes \<Rightarrow> (tlv_error, RouteRequest) result" where
  "DecodeRouteRequest body =
     (if length body < 2 then Inl ShortTLV
      else case decodeRequestPrefix (body ! 0) (int (unat (body ! 1))) (drop 2 body) of
        Inl e \<Rightarrow> Inl e
      | Inr (prefix, source) \<Rightarrow> Inr \<lparr>rr_AE = body ! 0, rr_Prefix = prefix, rr_SourcePrefix = source\<rparr>)"

record SeqnoRequest =
  sr_AE :: byte
  sr_Prefix :: prefix
  sr_SourcePrefix :: prefix
  sr_Seqno :: u16
  sr_HopCount :: byte
  sr_RouterID :: routerid

definition EncodeSeqnoRequest :: "SeqnoRequest \<Rightarrow> RawTLV option" where
  "EncodeSeqnoRequest r =
     (let p = Masked (sr_Prefix r);
          raw = AsSlice (p_ip p);
          body = (replicate 14 0)[0 := sr_AE r, 1 := of_int (p_Bits p)];
          body = put_at 2 (put16 (sr_Seqno r)) body;
          body = body[4 := sr_HopCount r];
          body = put_at 6 (put64 (sr_RouterID r)) body;
          body = body @ take (prefixByteLen (p_Bits p)) raw
      in map_option (\<lambda>body. \<lparr>tlv_Type = TLVSeqnoRequest, tlv_Body = body\<rparr>)
           (appendSource body (sr_AE r) (sr_SourcePrefix r)))"

definition DecodeSeqnoRequest :: "bytes \<Rightarrow> (tlv_error, SeqnoRequest) result" where
  "DecodeSeqnoRequest body =
     (if length body < 14 then Inl ShortTLV
      else case decodeRequestPrefix (body ! 0) (int (unat (body ! 1))) (drop 14 body) of
        Inl e \<Rightarrow> Inl e
      | Inr (prefix, source) \<Rightarrow>
          if \<not> p_IsValid prefix then Inl MalformedPrefix
          else Inr \<lparr>sr_AE = body ! 0, sr_Prefix = prefix, sr_SourcePrefix = source,
                    sr_Seqno = rd16 (slice 2 4 body), sr_HopCount = body ! 4, sr_RouterID = rd64 (slice 6 14 body)\<rparr>)"

subsection \<open>Updates\<close>

record Update =
  u_AE :: byte
  u_Plen :: int
  u_Interval :: u16
  u_Seqno :: u16
  u_Metric :: u16
  u_Prefix :: bytes
  u_RouterID :: routerid
  u_HasRouterID :: bool
  u_Ignore :: bool
  u_SourcePrefix :: prefix

definition EncodeUpdate :: "Update \<Rightarrow> RawTLV option" where
  "EncodeUpdate u =
     (let total = prefixByteLen (u_Plen u)
      in case (if u_AE u = AEIPv4 \<or> u_AE u = AEIPv4ViaIPv6 then Some (To4 (u_Prefix u))
               else if u_AE u = AEIPv6 then Some (To16 (u_Prefix u)) else None) of
           None \<Rightarrow> None
         | Some raw \<Rightarrow>
             if total > length raw then None
             else let body = (replicate (10 + total) 0)[0 := u_AE u, 1 := updateFlagPrefix, 2 := of_int (u_Plen u), 3 := 0];
                      body = put_at 4 (put16 (u_Interval u)) body;
                      body = put_at 6 (put16 (u_Seqno u)) body;
                      body = put_at 8 (put16 (u_Metric u)) body;
                      body = put_at 10 (take total raw) body
                  in map_option (\<lambda>body. \<lparr>tlv_Type = TLVUpdate, tlv_Body = body\<rparr>)
                       (appendSource body (u_AE u) (u_SourcePrefix u)))"

record prefixState =
  ps_last :: bytes
  ps_have :: bool

text \<open>The decoder is the array of one state per address encoding, 0 to 4.\<close>

type_synonym PrefixDecoder = "prefixState list"

definition newPrefixDecoder :: PrefixDecoder where
  "newPrefixDecoder = replicate 5 \<lparr>ps_last = replicate 16 0, ps_have = False\<rparr>"

definition clearPrefixTail :: "bytes \<Rightarrow> nat \<Rightarrow> bytes" where
  "clearPrefixTail raw plen =
     (if plen > 0 \<and> plen mod 8 \<noteq> 0
      then raw[plen div 8 := (raw ! (plen div 8)) AND push_bit (8 - plen mod 8) 0xff] else raw)"

fun updateSubsLoop :: "byte \<Rightarrow> nat \<Rightarrow> Update \<Rightarrow> SubTLV list \<Rightarrow> Update" where
  "updateSubsLoop ae sourcePrefixes u [] = u"
| "updateSubsLoop ae sourcePrefixes u (s # rest) =
     (if sub_Type s < 128 then updateSubsLoop ae sourcePrefixes u rest
      else if sub_Type s \<noteq> SubTLVSourcePrefix then updateSubsLoop ae sourcePrefixes (u\<lparr>u_Ignore := True\<rparr>) rest
      else if sourcePrefixes + 1 > 1 then updateSubsLoop ae (sourcePrefixes + 1) (u\<lparr>u_Ignore := True\<rparr>) rest
      else case decodeSourcePrefix ae (sub_Body s) of
             Some sp \<Rightarrow> updateSubsLoop ae (sourcePrefixes + 1) (u\<lparr>u_SourcePrefix := sp\<rparr>) rest
           | None \<Rightarrow> updateSubsLoop ae (sourcePrefixes + 1) (u\<lparr>u_Ignore := True\<rparr>) rest)"

definition checkUpdateHeader :: "PrefixDecoder \<Rightarrow> byte \<Rightarrow> nat \<Rightarrow> nat \<Rightarrow> nat \<Rightarrow> tlv_error option" where
  "checkUpdateHeader d ae plen omitted sent =
     (case (if ae = AEWildcard then (if plen \<noteq> 0 \<or> omitted \<noteq> 0 then Some WildcardPrefix else None)
            else if ae = AEIPv4 \<or> ae = AEIPv4ViaIPv6 then
              (if plen > 32 then Some PrefixTooLong
               else if omitted > 0 \<and> \<not> ps_have (d ! unat ae) then Some NoDefaultPrefix else None)
            else if ae = AEIPv6 then
              (if plen > 128 then Some PrefixTooLong
               else if omitted > 0 \<and> \<not> ps_have (d ! unat ae) then Some NoDefaultPrefix else None)
            else Some UnsupportedAE) of
       Some e \<Rightarrow> Some e
     | None \<Rightarrow>
         let total = prefixByteLen (int plen)
         in if omitted > total then Some OmittedExceeds
            else if sent < total - omitted then Some PrefixTruncated else None)"

definition Decode :: "PrefixDecoder \<Rightarrow> bytes \<Rightarrow> (tlv_error, Update) result \<times> PrefixDecoder" where
  "Decode d body =
     (if length body < 10 then (Inl ShortTLV, d)
      else let ae = body ! 0; flags = body ! 1; plen = unat (body ! 2); omitted = unat (body ! 3);
               interval = rd16 (slice 4 6 body); seqno = rd16 (slice 6 8 body); metric = rd16 (slice 8 10 body);
               sent = drop 10 body
      in case checkUpdateHeader d ae plen omitted (length sent) of
           Some e \<Rightarrow> (Inl e, d)
         | None \<Rightarrow>
             let total = prefixByteLen (int plen);
                 sentLen = total - omitted;
                 v4 = (ae = AEIPv4 \<or> ae = AEIPv4ViaIPv6);
                 size = (if v4 then 4 else 16);
                 buf = go_copy (replicate size 0) (take omitted (ps_last (d ! unat ae)));
                 buf = put_at omitted (take sentLen sent) buf;
                 buf = clearPrefixTail buf plen;
                 ip = (if ae = AEWildcard then replicate 10 0 @ [0xff, 0xff] @ replicate 4 0 else buf);
                 d' = (if ae \<noteq> AEWildcard \<and> flags AND updateFlagPrefix \<noteq> 0
                       then d[unat ae := \<lparr>ps_last = go_copy (replicate 16 0) buf, ps_have = True\<rparr>] else d);
                 u = \<lparr>u_AE = ae, u_Plen = int plen, u_Interval = interval, u_Seqno = seqno, u_Metric = metric,
                      u_Prefix = ip, u_RouterID = 0, u_HasRouterID = False, u_Ignore = False, u_SourcePrefix = noPrefix\<rparr>;
                 u = (if flags AND updateFlagRouterID \<noteq> 0 \<and> ae \<noteq> AEWildcard
                      then let raw = (if v4 then To4 ip else To16 ip)
                           in u\<lparr>u_RouterID := be_acc 0 (drop (length raw - 8) raw), u_HasRouterID := True\<rparr>
                      else u);
                 u = (if interval = 0 \<and> metric \<noteq> MetricInfinity then u\<lparr>u_Ignore := True\<rparr> else u);
                 u = (if ae = AEWildcard \<and> metric \<noteq> MetricInfinity then u\<lparr>u_Ignore := True\<rparr> else u)
             in (case decodeSubTLVs (drop sentLen sent) of
                   Inl _ \<Rightarrow> (Inr (u\<lparr>u_Ignore := True\<rparr>), d')
                 | Inr subs \<Rightarrow> (Inr (updateSubsLoop ae 0 u subs), d')))"

section \<open>Framing\<close>

definition is_pad :: "byte \<Rightarrow> bool" where "is_pad t \<longleftrightarrow> t = TLVPad1 \<or> t = TLVPadN"

definition tlv_ok :: "RawTLV \<Rightarrow> bool" where "tlv_ok t \<longleftrightarrow> length (tlv_Body t) \<le> 255"

definition frame_of :: "RawTLV \<Rightarrow> framedTLV" where
  "frame_of t = \<lparr>fr_typeByte = tlv_Type t, fr_body = tlv_Body t\<rparr>"

lemma unat_length: "length b \<le> 255 \<Longrightarrow> unat (of_nat (length b) :: byte) = length b"
  by (simp add: unsigned_of_nat take_bit_nat_eq_self)

lemma decodeFramesLoop_tlv:
  assumes "t \<noteq> TLVPad1" "length b \<le> 255"
  shows "decodeFramesLoop out ([t, of_nat (length b)] @ b @ rest) =
    decodeFramesLoop (if t \<noteq> TLVPadN then out @ [\<lparr>fr_typeByte = t, fr_body = b\<rparr>] else out) rest"
  using assms by (simp add: unat_length slice_def)

lemma decodeFramesLoop_encode:
  "list_all tlv_ok ts \<Longrightarrow>
   decodeFramesLoop out (encodeBody ts) = Inr (out @ map frame_of (filter (\<lambda>t. \<not> is_pad (tlv_Type t)) ts))"
proof (induction ts arbitrary: out)
  case (Cons t ts)
  show ?case
  proof (cases "tlv_Type t = TLVPad1")
    case True
    then show ?thesis using Cons by (simp add: is_pad_def)
  next
    case False
    then have "decodeFramesLoop out (encodeBody (t # ts)) =
        decodeFramesLoop (if tlv_Type t \<noteq> TLVPadN then out @ [frame_of t] else out) (encodeBody ts)"
      using decodeFramesLoop_tlv [OF False, of "tlv_Body t" out "encodeBody ts"] Cons.prems
      by (simp add: tlv_ok_def frame_of_def del: decodeFramesLoop.simps)
    then show ?thesis using Cons False by (simp add: is_pad_def)
  qed
qed simp

lemma decodeSubTLVs_Nil [simp]: "decodeSubTLVs [] = Inr []"
  by (simp add: decodeSubTLVs_def decodeTLVFrames_def)

lemma decodeSubTLVs_one:
  assumes "t \<noteq> TLVPad1" "t \<noteq> TLVPadN" "length b \<le> 255"
  shows "decodeSubTLVs (encodeSubTLVs [\<lparr>sub_Type = t, sub_Body = b\<rparr>]) = Inr [\<lparr>sub_Type = t, sub_Body = b\<rparr>]"
  using assms decodeFramesLoop_tlv [of t b "[]" "[]"]
  by (simp add: decodeSubTLVs_def decodeTLVFrames_def del: decodeFramesLoop.simps(2))

lemma EncodePacket_eq: "EncodePacket ts = [b_Magic, b_Version] @ put16 (of_nat (length (encodeBody ts))) @ encodeBody ts"
proof -
  let ?z = "replicate (4 + length (encodeBody ts)) (0 :: byte)"
  have "?z[0 := b_Magic, 1 := b_Version] = fill [b_Magic, b_Version] ?z"
    by (simp add: fill_def eval_nat_numeral)
  then show ?thesis
    by (simp add: EncodePacket_def Let_def b_headerLen_def put_at_fill fill_all)
qed

text \<open>
  C15. A packet is what its TLVs say: for TLVs within the length field and a body within 65535 bytes,
  \<open>DecodePacket\<close> returns exactly the TLVs given to \<open>EncodePacket\<close> in order, without the padding.
\<close>

theorem babel_packet_roundtrip:
  assumes "list_all tlv_ok ts" "length (encodeBody ts) \<le> 65535"
  shows "DecodePacket (EncodePacket ts) = Inr (filter (\<lambda>t. \<not> is_pad (tlv_Type t)) ts)"
proof -
  let ?b = "encodeBody ts"
  have len: "unat (of_nat (length ?b) :: u16) = length ?b" using assms(2) by (simp add: unsigned_of_nat take_bit_nat_eq_self)
  have s: "slice 2 4 (EncodePacket ts) = put16 (of_nat (length ?b))" "slice 4 (4 + length ?b) (EncodePacket ts) = ?b"
    "EncodePacket ts ! 0 = b_Magic" "EncodePacket ts ! 1 = b_Version" "length (EncodePacket ts) = 4 + length ?b"
    by (simp_all add: EncodePacket_eq slice_def put16_eq)
  have m: "map (\<lambda>f. \<lparr>tlv_Type = fr_typeByte f, tlv_Body = fr_body f\<rparr>) (map frame_of xs) = xs" for xs
    by (induction xs) (simp_all add: frame_of_def)
  show ?thesis
    unfolding DecodePacket_def Let_def b_headerLen_def s rd_put len decodeTLVFrames_def
      decodeFramesLoop_encode [OF assms(1)] by (simp add: m del: map_map)
qed

theorem babel_packet_roundtrip_witness:
  "let ts = [EncodeAck 7, \<lparr>tlv_Type = TLVPadN, tlv_Body = [0, 0]\<rparr>, EncodeRouterID 9]
   in DecodePacket (EncodePacket ts) = Inr [EncodeAck 7, EncodeRouterID 9]"
proof -
  let ?ts = "[EncodeAck 7, \<lparr>tlv_Type = TLVPadN, tlv_Body = [0, 0]\<rparr>, EncodeRouterID 9]"
  have "list_all tlv_ok ?ts" "length (encodeBody ?ts) \<le> 65535"
    by (simp_all add: tlv_ok_def EncodeAck_def EncodeRouterID_def tlv_consts)
  from babel_packet_roundtrip [OF this] show ?thesis
    by (simp add: is_pad_def EncodeAck_def EncodeRouterID_def tlv_consts)
qed

section \<open>Hello, IHU, Router-Id\<close>

lemma put_at_z:
  "put_at 2 (put16 a) (replicate 6 0) = [0, 0] @ put16 a @ [0, 0]"
  "put_at 4 (put16 b) ([x, y] @ put16 a @ [0, 0]) = [x, y] @ put16 a @ put16 b"
  by (simp_all add: put_at_def go_copy_def put16_eq eval_nat_numeral)

lemma EncodeHello_eq:
  "tlv_Body (EncodeHello h) = (if h_Unicast h then [0x80, 0] else [0, 0]) @ put16 (h_Seqno h) @ put16 (h_Interval h) @
     (if h_HasTS h then [3, 4] @ put32 (h_TxTS h) else [])"
proof -
  have u: "put16 (0x8000 :: u16) = [0x80, 0]" by code_simp
  have "put_at 2 (put16 a) (put_at 0 (put16 0x8000) (replicate 6 0)) = [0x80, 0] @ put16 a @ [0, 0]" for a
    unfolding u by (simp add: put_at_def go_copy_def put16_eq eval_nat_numeral)
  moreover have "put_at 0 (put32 x) (replicate 4 0) = put32 x" for x :: u32
    by (simp add: put_at_def go_copy_def)
  ultimately show ?thesis
    unfolding EncodeHello_def Let_def
    by (simp add: put_at_z [simplified] tlv_consts)
qed


lemma optional_timestamp:
  assumes "length b \<le> 255"
  shows "decodeOptionalSubTLVs (3 # of_nat (length b) # b) = Inr [\<lparr>sub_Type = 3, sub_Body = b\<rparr>]"
  using decodeSubTLVs_one [of 3 b] assms by (simp add: decodeOptionalSubTLVs_def tlv_consts)

lemma optional_Nil [simp]: "decodeOptionalSubTLVs [] = Inr []"
  by (simp add: decodeOptionalSubTLVs_def)

lemma EncodeIHU_eq:
  "tlv_Body (EncodeIHU i) = [0, 0] @ put16 (i_RxCost i) @ put16 (i_Interval i) @
     (if i_HasTS i then [3, 8] @ put32 (i_OriginTS i) @ put32 (i_ReceiveTS i) else [])"
proof -
  have z: "(replicate 6 0)[0 := AEWildcard] = replicate 6 0" by (simp add: ae_consts eval_nat_numeral)
  have "put_at 0 (put32 a) (replicate 8 0) = put32 a @ replicate 4 0" for a
    by (simp add: put_at_def go_copy_def)
  then have "put_at 4 (put32 b) (put_at 0 (put32 a) (replicate 8 0)) = put32 a @ put32 b" for a b
    by (simp add: put_at_def go_copy_def)
  then show ?thesis
    unfolding EncodeIHU_def Let_def z by (simp add: put_at_z [simplified] tlv_consts)
qed

lemma slice_bytes:
  "slice 0 2 (x # y # b) = [x, y]" "slice 2 4 (x # y # put16 v @ b) = put16 v"
  "slice 4 6 (x # y # put16 v @ put16 w @ b) = put16 w"
  "slice 2 10 (x # y # put64 r @ b) = put64 r"
  by (simp_all add: slice_def put16_eq)

lemma rd16_put: "rd16 (ucast (drop_bit 8 c) # ucast c # b) = c"
  using rd_put(1) [of c b] by (simp add: put16_eq)

text \<open>
  The neighbour TLVs round-trip: Hello and IHU are read back with their timestamps, a Router-Id is
  read back and not ignored, and a request for acknowledgment yields its nonce.
\<close>

theorem neighbour_tlv_roundtrip:
  "DecodeHello (tlv_Body (EncodeHello h)) = Inr (if h_HasTS h then h else h\<lparr>h_TxTS := 0\<rparr>) \<and>
   DecodeIHU (tlv_Body (EncodeIHU i)) = Inr (if i_HasTS i then i else i\<lparr>i_OriginTS := 0, i_ReceiveTS := 0\<rparr>, []) \<and>
   DecodeRouterID (tlv_Body (EncodeRouterID rid)) = Inr (rid, False) \<and>
   DecodeAckReq (tlv_Body (EncodeAckReq nonce interval)) = Inr nonce"
proof (intro conjI)
  have u: "rd16 [0x80, 0] AND 0x8000 \<noteq> 0" "rd16 [0, 0] AND 0x8000 = 0" by code_simp+
  show "DecodeHello (tlv_Body (EncodeHello h)) = Inr (if h_HasTS h then h else h\<lparr>h_TxTS := 0\<rparr>)"
    using optional_timestamp [of "put32 (h_TxTS h)"] u
    by (cases "h_Unicast h"; cases "h_HasTS h"; cases h)
      (simp_all add: EncodeHello_eq DecodeHello_def Let_def tlv_consts slice_def rd16_put)
  show "DecodeIHU (tlv_Body (EncodeIHU i)) = Inr (if i_HasTS i then i else i\<lparr>i_OriginTS := 0, i_ReceiveTS := 0\<rparr>, [])"
    using optional_timestamp [of "put32 (i_OriginTS i) @ put32 (i_ReceiveTS i)"]
    by (cases "i_HasTS i"; cases i)
      (simp_all add: EncodeIHU_eq DecodeIHU_def Let_def tlv_consts ae_consts slice_def rd16_put put16_eq)
  have "put_at 2 (put64 rid) (replicate 10 0) = 0 # 0 # put64 rid @ []"
    by (simp add: put_at_def go_copy_def eval_nat_numeral)
  then show "DecodeRouterID (tlv_Body (EncodeRouterID rid)) = Inr (rid, False)"
    by (simp add: EncodeRouterID_def DecodeRouterID_def slice_bytes(4) [of 0 0 rid "[]", simplified])
  show "DecodeAckReq (tlv_Body (EncodeAckReq nonce interval)) = Inr nonce"
    by (simp add: EncodeAckReq_def DecodeAckReq_def put_at_z [simplified] slice_bytes)
qed

section \<open>Prefixes on the wire\<close>

lemma take_be_bytes: "n \<le> k \<Longrightarrow> take n (be_bytes k w) = be_bytes n (drop_bit (8 * (k - n)) (w :: 'a::len word))"
proof (induction n arbitrary: k)
  case (Suc n)
  then obtain k' where k: "k = Suc k'" "n \<le> k'" by (cases k) auto
  then have "8 * n + 8 * (k' - n) = 8 * k'" by simp
  then show ?case using Suc.IH [of k'] k by (simp add: drop_bit_drop_bit add.commute)
qed simp

lemma be_acc_zeros: "be_acc a (replicate m 0) = push_bit (8 * m) (a :: 'a::len word)"
  by (induction m arbitrary: a) (simp_all add: add.commute)

text \<open>Reading back the first \<open>n\<close> bytes of an address keeps its bits above them.\<close>

lemma be_acc_front:
  fixes w :: "'a::len word"
  assumes "8 * k = LENGTH('a)" "n \<le> k"
  shows "be_acc 0 (go_copy (replicate k 0) (take n (be_bytes k w))) = push_bit (8 * (k - n)) (drop_bit (8 * (k - n)) w)"
proof -
  have t: "take_bit (8 * n) (drop_bit (8 * (k - n)) w) = drop_bit (8 * (k - n)) w"
    by (rule bit_word_eqI) (use assms in \<open>auto simp: bit_simps dest: bit_imp_le_length\<close>)
  have "go_copy (replicate k 0) (take n (be_bytes k w)) = be_bytes n (drop_bit (8 * (k - n)) w) @ replicate (k - n) 0"
    using assms(2) by (simp add: go_copy_def take_be_bytes)
  then show ?thesis using t by (simp add: be_acc_append be_acc_be_bytes be_acc_zeros)
qed

lemma mask_front6:
  fixes w :: u128
  assumes "b \<le> 8 * n" "n \<le> 16"
  shows "push_bit (8 * (16 - n)) (drop_bit (8 * (16 - n)) w) AND mask6 b = w AND mask6 b"
  by (rule bit_word_eqI) (use assms in \<open>auto simp: bit_simps mask6_bit\<close>)

lemma mask_front4:
  fixes w :: u32
  assumes "b \<le> 8 * n" "n \<le> 4"
  shows "push_bit (8 * (4 - n)) (drop_bit (8 * (4 - n)) w) AND ucast (mask6 (b + 96)) = w AND ucast (mask6 (b + 96))"
  by (rule bit_word_eqI) (use assms in \<open>auto simp: bit_simps mask6_bit\<close>)

lemma prefixByteLen_bounds:
  "0 \<le> b \<Longrightarrow> nat b \<le> 8 * prefixByteLen b" "0 \<le> b \<Longrightarrow> b \<le> 8 * int k \<Longrightarrow> prefixByteLen b \<le> k"
  by (simp_all add: prefixByteLen_def)

text \<open>The bytes of a prefix and what a decoder makes of them under the encoding of its family.\<close>

definition wireBytes :: "prefix \<Rightarrow> bytes" where
  "wireBytes p = take (prefixByteLen (p_Bits p)) (AsSlice (p_ip p))"

definition ae_of :: "byte \<Rightarrow> addr \<Rightarrow> bool" where
  "ae_of ae a \<longleftrightarrow> (if Is4 a then ae = AEIPv4 \<or> ae = AEIPv4ViaIPv6 else ae = AEIPv6)"

definition wire_prefix :: "byte \<Rightarrow> prefix \<Rightarrow> bool" where
  "wire_prefix ae p \<longleftrightarrow> prefix_ok p \<and> p_IsValid p \<and> Masked p = p \<and> ae_of ae (p_ip p)"

lemma wire_prefix_cases:
  assumes "wire_prefix ae p"
  obtains (v4) v b where "p = PrefixFrom (Addr4 v) b" "0 \<le> b" "b \<le> 32" "ae = AEIPv4 \<or> ae = AEIPv4ViaIPv6"
  | (v6) v b where "p = PrefixFrom (Addr6 v) b" "0 \<le> b" "b \<le> 128" "ae = AEIPv6"
proof -
  have "prefix_ok p" "p_IsValid p" "ae_of ae (p_ip p)" using assms by (simp_all add: wire_prefix_def)
  from this(1,2) this(3) v4 v6 show thesis by (cases rule: prefix_cases) (auto simp: ae_of_def)
qed

lemma wireBytes_read:
  assumes "wire_prefix ae p"
  shows "length (wireBytes p) = prefixByteLen (p_Bits p)" "0 \<le> p_Bits p" "p_Bits p \<le> int (BitLen (p_ip p))"
    "Is4 (p_ip p) \<Longrightarrow> Masked (PrefixFrom (Addr4 (be_acc 0 (go_copy (replicate 4 0) (wireBytes p)))) (p_Bits p)) = p"
    "\<not> Is4 (p_ip p) \<Longrightarrow> Masked (PrefixFrom (Addr6 (be_acc 0 (go_copy (replicate 16 0) (wireBytes p)))) (p_Bits p)) = p"
proof -
  have m: "Masked p = p" using assms by (simp add: wire_prefix_def)
  have "length (wireBytes p) = prefixByteLen (p_Bits p) \<and> 0 \<le> p_Bits p \<and> p_Bits p \<le> int (BitLen (p_ip p)) \<and>
    (Is4 (p_ip p) \<longrightarrow> Masked (PrefixFrom (Addr4 (be_acc 0 (go_copy (replicate 4 0) (wireBytes p)))) (p_Bits p)) = p) \<and>
    (\<not> Is4 (p_ip p) \<longrightarrow> Masked (PrefixFrom (Addr6 (be_acc 0 (go_copy (replicate 16 0) (wireBytes p)))) (p_Bits p)) = p)"
    using assms
  proof (cases rule: wire_prefix_cases)
    case (v4 v b)
    have n: "prefixByteLen b \<le> 4" "nat b \<le> 8 * prefixByteLen b"
      using prefixByteLen_bounds(2) [of b 4] prefixByteLen_bounds(1) [of b] v4 by simp_all
    show ?thesis using v4 m n be_acc_front [of 4 "prefixByteLen b" v] mask_front4 [OF n(2,1), of v]
      by (simp add: wireBytes_def)
  next
    case (v6 v b)
    have n: "prefixByteLen b \<le> 16" "nat b \<le> 8 * prefixByteLen b"
      using prefixByteLen_bounds(2) [of b 16] prefixByteLen_bounds(1) [of b] v6 by simp_all
    show ?thesis using v6 m n be_acc_front [of 16 "prefixByteLen b" v] mask_front6 [OF n(2,1), of v]
      by (simp add: wireBytes_def)
  qed
  then show "length (wireBytes p) = prefixByteLen (p_Bits p)" "0 \<le> p_Bits p" "p_Bits p \<le> int (BitLen (p_ip p))"
    "Is4 (p_ip p) \<Longrightarrow> Masked (PrefixFrom (Addr4 (be_acc 0 (go_copy (replicate 4 0) (wireBytes p)))) (p_Bits p)) = p"
    "\<not> Is4 (p_ip p) \<Longrightarrow> Masked (PrefixFrom (Addr6 (be_acc 0 (go_copy (replicate 16 0) (wireBytes p)))) (p_Bits p)) = p"
    by simp_all
qed

lemma unat_plen: "0 \<le> b \<Longrightarrow> b \<le> 255 \<Longrightarrow> int (unat (of_int b :: byte)) = b"
  by (simp add: unsigned_of_int take_bit_int_eq_self)

lemma BitLen_le: "BitLen a \<le> 128"
  by (cases a) simp_all

lemma decodeSourcePrefix_wire:
  assumes "wire_prefix ae p" "p_Bits p \<noteq> 0"
  shows "decodeSourcePrefix ae (of_int (p_Bits p) # wireBytes p) = Some p"
proof -
  note w = wireBytes_read [OF assms(1)]
  have pl: "int (unat (of_int (p_Bits p) :: byte)) = p_Bits p"
    using w(2,3) BitLen_le [of "p_ip p"] by (intro unat_plen) auto
  have s: "slice 1 (1 + prefixByteLen (p_Bits p)) (of_int (p_Bits p) # wireBytes p) = wireBytes p"
    using w(1) by (simp add: slice_def)
  show ?thesis
    using assms(1)
  proof (cases rule: wire_prefix_cases)
    case (v4 v b)
    then show ?thesis unfolding decodeSourcePrefix_def Let_def nth_Cons_0 pl s
      using w assms(2) by (auto simp: ae_consts)
  next
    case (v6 v b)
    then show ?thesis unfolding decodeSourcePrefix_def Let_def nth_Cons_0 pl s
      using w assms(2) by (auto simp: ae_consts)
  qed
qed

text \<open>A prefix with no bits below its length is read back bit for bit.\<close>

lemma be_acc_exact:
  fixes v :: "'a::len word"
  assumes k: "8 * k = LENGTH('a)" and n: "n \<le> k" and z: "\<And>i. i < 8 * (k - n) \<Longrightarrow> \<not> bit v i"
  shows "be_acc 0 (go_copy (replicate k 0) (take n (be_bytes k v))) = v"
    "go_copy (replicate k 0) (take n (be_bytes k v)) = be_bytes k v"
proof -
  have "push_bit (8 * (k - n)) (drop_bit (8 * (k - n)) v) = v"
  proof (rule bit_word_eqI)
    fix i assume "i < LENGTH('a)"
    then show "bit (push_bit (8 * (k - n)) (drop_bit (8 * (k - n)) v)) i = bit v i"
      using z [of i] by (cases "i < 8 * (k - n)") (auto simp: bit_simps)
  qed
  then show e: "be_acc 0 (go_copy (replicate k 0) (take n (be_bytes k v))) = v"
    using be_acc_front [OF k n] by simp
  have l: "length (go_copy (replicate k 0) (take n (be_bytes k v))) = k" by simp
  have "be_bytes k (be_acc (0 :: 'a word) (go_copy (replicate k 0) (take n (be_bytes k v)))) =
      go_copy (replicate k 0) (take n (be_bytes k v))"
    using be_bytes_be_acc [of "go_copy (replicate k 0) (take n (be_bytes k v))" "0 :: 'a word"] k l by simp
  then show "go_copy (replicate k 0) (take n (be_bytes k v)) = be_bytes k v" unfolding e ..
qed

lemma canonical_bits:
  "Masked (PrefixFrom (Addr6 v) b) = PrefixFrom (Addr6 v) b \<Longrightarrow> 0 \<le> b \<Longrightarrow> b \<le> 128 \<Longrightarrow> i < 128 - nat b \<Longrightarrow> \<not> bit v i"
  "Masked (PrefixFrom (Addr4 w) c) = PrefixFrom (Addr4 w) c \<Longrightarrow> 0 \<le> c \<Longrightarrow> c \<le> 32 \<Longrightarrow> i < 32 - nat c \<Longrightarrow> \<not> bit w i"
proof -
  assume a: "Masked (PrefixFrom (Addr6 v) b) = PrefixFrom (Addr6 v) b" "0 \<le> b" "b \<le> 128" "i < 128 - nat b"
  then have "v AND mask6 (nat b) = v" by (simp add: PrefixFrom_eq)
  then have "bit v i \<Longrightarrow> bit (mask6 (nat b)) i" by (metis bit_and_iff)
  then show "\<not> bit v i" using a(4) by (auto simp: mask6_bit)
next
  assume a: "Masked (PrefixFrom (Addr4 w) c) = PrefixFrom (Addr4 w) c" "0 \<le> c" "c \<le> 32" "i < 32 - nat c"
  then have "w AND ucast (mask6 (nat c + 96)) = w" by (simp add: PrefixFrom_eq)
  then have "bit w i \<Longrightarrow> bit (ucast (mask6 (nat c + 96)) :: u32) i" by (metis bit_and_iff)
  then show "\<not> bit w i" using a(4) by (auto simp: mask6_bit bit_simps)
qed

lemma wireBytes_exact:
  assumes "wire_prefix ae p" "k = BitLen (p_ip p) div 8"
  shows "go_copy (replicate k 0) (wireBytes p) = AsSlice (p_ip p)"
  using assms(1)
proof (cases rule: wire_prefix_cases)
  case (v4 v b)
  have m: "Masked p = p" using assms by (simp add: wire_prefix_def)
  have n: "prefixByteLen b \<le> 4" "nat b \<le> 8 * prefixByteLen b"
    using prefixByteLen_bounds(2) [of b 4] prefixByteLen_bounds(1) [of b] v4 by simp_all
  have "\<not> bit v i" if "i < 8 * (4 - prefixByteLen b)" for i
    using canonical_bits(2) [of v b i] m v4 that n by auto
  then show ?thesis using be_acc_exact(2) [of 4 "prefixByteLen b" v] n v4 assms(2) by (simp add: wireBytes_def)
next
  case (v6 v b)
  have m: "Masked p = p" using assms by (simp add: wire_prefix_def)
  have n: "prefixByteLen b \<le> 16" "nat b \<le> 8 * prefixByteLen b"
    using prefixByteLen_bounds(2) [of b 16] prefixByteLen_bounds(1) [of b] v6 by simp_all
  have "\<not> bit v i" if "i < 8 * (16 - prefixByteLen b)" for i
    using canonical_bits(1) [of v b i] m v6 that n by auto
  then show ?thesis using be_acc_exact(2) [of 16 "prefixByteLen b" v] n v6 assms(2) by (simp add: wireBytes_def)
qed

section \<open>Requests\<close>

definition source_ok :: "byte \<Rightarrow> prefix \<Rightarrow> bool" where
  "source_ok ae s \<longleftrightarrow> s = noPrefix \<or> wire_prefix ae s \<and> p_Bits s \<noteq> 0"

definition sourceWire :: "prefix \<Rightarrow> bytes" where
  "sourceWire s = (if p_IsValid s
     then encodeSubTLVs [\<lparr>sub_Type = SubTLVSourcePrefix, sub_Body = of_int (p_Bits s) # wireBytes s\<rparr>] else [])"

lemma ae_family: "wire_prefix ae p \<Longrightarrow> Is4 (p_ip p) \<longleftrightarrow> ae = AEIPv4 \<or> ae = AEIPv4ViaIPv6"
  by (auto simp: wire_prefix_def ae_of_def ae_consts split: if_splits)

lemma appendSource_ok:
  assumes "source_ok ae s"
  shows "appendSource body ae s = Some (body @ sourceWire s)"
proof (cases "p_IsValid s")
  case True
  then have w: "wire_prefix ae s" "p_Bits s \<noteq> 0" using assms by (auto simp: source_ok_def)
  then show ?thesis using True ae_family [OF w(1)]
    by (simp add: appendSource_def sourceWire_def encodeSourcePrefix_def wireBytes_def Let_def)
qed (simp add: appendSource_def sourceWire_def)

lemma sourceWire_subs:
  assumes "source_ok ae s"
  shows "decodeSubTLVs (sourceWire s) =
    Inr (if p_IsValid s then [\<lparr>sub_Type = SubTLVSourcePrefix, sub_Body = of_int (p_Bits s) # wireBytes s\<rparr>] else [])"
proof (cases "p_IsValid s")
  case True
  then have w: "wire_prefix ae s" using assms by (auto simp: source_ok_def)
  have "prefixByteLen (p_Bits s) \<le> 16"
    using wireBytes_read(2,3) [OF w] BitLen_le [of "p_ip s"] by (intro prefixByteLen_bounds(2)) auto
  then show ?thesis using True wireBytes_read(1) [OF w]
    by (simp add: sourceWire_def decodeSubTLVs_one tlv_consts del: encodeSubTLVs.simps)
qed (simp add: sourceWire_def)

lemma decodeRequestSubTLVs_ok: "source_ok ae s \<Longrightarrow> decodeRequestSubTLVs ae (sourceWire s) = Inr s"
  using decodeSourcePrefix_wire [of ae s]
  by (auto simp: decodeRequestSubTLVs_def sourceWire_subs tlv_consts source_ok_def wire_prefix_def)

lemma decodeRequestPrefix_wire:
  assumes p: "wire_prefix ae p" "\<not> Is4In6 (p_ip p)" and s: "source_ok ae s"
  shows "decodeRequestPrefix ae (p_Bits p) (wireBytes p @ sourceWire s) = Inr (p, s)"
proof -
  note w = wireBytes_read [OF p(1)]
  have ae: "ae \<noteq> AEWildcard" using p(1) by (auto simp: wire_prefix_def ae_of_def ae_consts split: if_splits)
  let ?bits = "if ae = AEIPv4 \<or> ae = AEIPv4ViaIPv6 then 32 else 128 :: int"
  have b: "?bits = int (BitLen (p_ip p))" using p(1) by (cases rule: wire_prefix_cases) (auto simp: ae_consts)
  have sup: "\<not> (\<not> (ae = AEIPv4 \<or> ae = AEIPv4ViaIPv6) \<and> ae \<noteq> AEIPv6)"
    using p(1) by (cases rule: wire_prefix_cases) auto
  have bits: "int (BitLen (p_ip p)) div 8 = int (BitLen (p_ip p) div 8)" by (simp add: zdiv_int)
  have valid: "a_IsValid (p_ip p)" "p_IsValid p" "Masked p = p" "prefix_ok p"
    using p(1) by (auto simp: wire_prefix_def prefix_ok_def)
  have u: "Unmap (p_ip p) = p_ip p" using p(2) by (auto simp: Unmap_def Is4In6_def split: addr.split)
  have pf: "PrefixFrom (p_ip p) (p_Bits p) = p"
    using valid(2) by (cases p) (use valid in \<open>auto simp: PrefixFrom_def p_Bits_def p_IsValid_def prefix_ok_def\<close>)
  have fam: "p_IsValid s \<Longrightarrow> Is4 (p_ip s) = Is4 (p_ip p)"
    using s ae_family [of ae s] ae_family [OF p(1)] by (auto simp: source_ok_def)
  show ?thesis
    unfolding decodeRequestPrefix_def Let_def b bits nat_int
    using w(1,3) ae sup fam
    by (simp add: wireBytes_exact [OF p(1) refl] decodeRequestSubTLVs_ok [OF s] valid u pf)
qed

text \<open>
  Requests round-trip: a route request and a seqno request for a canonical prefix of the encoding's
  family, source-specific or not, are read back field for field; a wildcard request is read back as
  a wildcard.
\<close>

theorem request_roundtrip:
  assumes "wire_prefix ae p" "\<not> Is4In6 (p_ip p)" "source_ok ae s"
  shows "(\<exists>t. EncodeRouteRequest \<lparr>rr_AE = ae, rr_Prefix = p, rr_SourcePrefix = s\<rparr> = Some t \<and>
      DecodeRouteRequest (tlv_Body t) = Inr \<lparr>rr_AE = ae, rr_Prefix = p, rr_SourcePrefix = s\<rparr>) \<and>
    (\<exists>t. EncodeSeqnoRequest \<lparr>sr_AE = ae, sr_Prefix = p, sr_SourcePrefix = s, sr_Seqno = q, sr_HopCount = h, sr_RouterID = r\<rparr> = Some t \<and>
      DecodeSeqnoRequest (tlv_Body t) =
        Inr \<lparr>sr_AE = ae, sr_Prefix = p, sr_SourcePrefix = s, sr_Seqno = q, sr_HopCount = h, sr_RouterID = r\<rparr>) \<and>
    (\<exists>t. EncodeRouteRequest \<lparr>rr_AE = AEWildcard, rr_Prefix = p, rr_SourcePrefix = s\<rparr> = Some t \<and>
      DecodeRouteRequest (tlv_Body t) = Inr \<lparr>rr_AE = AEWildcard, rr_Prefix = noPrefix, rr_SourcePrefix = noPrefix\<rparr>)"
proof (intro conjI)
  have m: "Masked p = p" "p_IsValid p" using assms(1) by (simp_all add: wire_prefix_def)
  have ae: "ae \<noteq> AEWildcard" using assms(1) by (auto simp: wire_prefix_def ae_of_def ae_consts split: if_splits)
  have pl: "int (unat (of_int (p_Bits p) :: byte)) = p_Bits p"
    using wireBytes_read(2,3) [OF assms(1)] BitLen_le [of "p_ip p"] by (intro unat_plen) auto
  note d = decodeRequestPrefix_wire [OF assms]
  show "\<exists>t. EncodeRouteRequest \<lparr>rr_AE = ae, rr_Prefix = p, rr_SourcePrefix = s\<rparr> = Some t \<and>
      DecodeRouteRequest (tlv_Body t) = Inr \<lparr>rr_AE = ae, rr_Prefix = p, rr_SourcePrefix = s\<rparr>"
    using ae m d by (simp add: EncodeRouteRequest_def Let_def appendSource_ok [OF assms(3)] DecodeRouteRequest_def pl [simplified]
        wireBytes_def [symmetric])
  let ?q = "\<lparr>sr_AE = ae, sr_Prefix = p, sr_SourcePrefix = s, sr_Seqno = q, sr_HopCount = h, sr_RouterID = r\<rparr>"
  let ?h = "ae # of_int (p_Bits p) # put16 q @ [h, 0] @ put64 r"
  have "put_at 6 (put64 r) ((put_at 2 (put16 q) ((replicate 14 0)[0 := ae, 1 := of_int (p_Bits p)]))[4 := h]) = ?h"
  proof -
    have "(replicate 14 0)[0 := ae, 1 := of_int (p_Bits p)] = fill [ae, of_int (p_Bits p)] (replicate 14 0)"
      by (simp add: fill_def eval_nat_numeral)
    then have "(put_at 2 (put16 q) ((replicate 14 0)[0 := ae, 1 := of_int (p_Bits p)]))[4 := h] =
        fill ([ae, of_int (p_Bits p)] @ put16 q @ [h]) (replicate 14 0)"
      by (simp add: put_at_fill update_fill)
    also have "\<dots> = fill ([ae, of_int (p_Bits p)] @ put16 q @ [h, 0]) (replicate 14 0)"
      by (simp add: fill_def eval_nat_numeral)
    finally show ?thesis by (simp add: put_at_fill fill_all)
  qed
  then have e: "EncodeSeqnoRequest ?q = Some \<lparr>tlv_Type = TLVSeqnoRequest, tlv_Body = ?h @ wireBytes p @ sourceWire s\<rparr>"
    by (simp add: EncodeSeqnoRequest_def Let_def appendSource_ok [OF assms(3)] m wireBytes_def [symmetric])
  have b: "(?h @ x) ! 0 = ae" "(?h @ x) ! 1 = of_int (p_Bits p)" "(?h @ x) ! 4 = h" "drop 14 (?h @ x) = x"
    "slice 2 4 (?h @ x) = put16 q" "slice 6 14 (?h @ x) = put64 r" "length (?h @ x) = 14 + length x" for x
    by (simp_all add: slice_def put16_eq)
  have "DecodeSeqnoRequest (?h @ wireBytes p @ sourceWire s) = Inr ?q"
    unfolding DecodeSeqnoRequest_def b pl d using m by simp
  then show "\<exists>t. EncodeSeqnoRequest ?q = Some t \<and> DecodeSeqnoRequest (tlv_Body t) = Inr ?q"
    using e by simp
  show "\<exists>t. EncodeRouteRequest \<lparr>rr_AE = AEWildcard, rr_Prefix = p, rr_SourcePrefix = s\<rparr> = Some t \<and>
      DecodeRouteRequest (tlv_Body t) = Inr \<lparr>rr_AE = AEWildcard, rr_Prefix = noPrefix, rr_SourcePrefix = noPrefix\<rparr>"
    by (simp add: EncodeRouteRequest_def DecodeRouteRequest_def decodeRequestPrefix_def decodeRequestSubTLVs_def)
qed

theorem request_roundtrip_witness:
  "let p = PrefixFrom (Addr6 (push_bit 64 5)) 64; s = PrefixFrom (Addr6 (push_bit 64 7)) 64
   in \<exists>t. EncodeRouteRequest \<lparr>rr_AE = AEIPv6, rr_Prefix = p, rr_SourcePrefix = s\<rparr> = Some t \<and>
      DecodeRouteRequest (tlv_Body t) = Inr \<lparr>rr_AE = AEIPv6, rr_Prefix = p, rr_SourcePrefix = s\<rparr>"
proof -
  let ?p = "PrefixFrom (Addr6 (push_bit 64 5)) 64" and ?s = "PrefixFrom (Addr6 (push_bit 64 7)) 64"
  have m: "Masked ?p = ?p" "Masked ?s = ?s" by code_simp+
  have "\<not> Is4In6 (Addr6 (push_bit 64 5))" by code_simp
  then have "\<not> Is4In6 (p_ip ?p)" by simp
  moreover have "wire_prefix AEIPv6 ?p" "source_ok AEIPv6 ?s"
    using m by (simp_all add: wire_prefix_def source_ok_def ae_of_def)
  ultimately show ?thesis unfolding Let_def using request_roundtrip [THEN conjunct1] by blast
qed

section \<open>Updates\<close>

lemma nth_be_bytes: "j < k \<Longrightarrow> be_bytes k w ! j = ucast (drop_bit (8 * (k - 1 - j)) (w :: 'a::len word))"
proof (induction k arbitrary: j)
  case (Suc k)
  then show ?case by (cases j) auto
qed simp

lemma clearPrefixTail_canonical:
  fixes v :: "'a::len word"
  assumes k: "8 * k = LENGTH('a)" and b: "b \<le> 8 * k" and z: "\<And>i. i < 8 * k - b \<Longrightarrow> \<not> bit v i"
  shows "clearPrefixTail (be_bytes k v) b = be_bytes k v"
proof (cases "b mod 8 = 0")
  case False
  then have j: "b div 8 < k" using b by (metis div_less_iff_less_mult le_neq_implies_less mod_mult_self1_is_0 mult.commute zero_less_numeral)
  let ?x = "be_bytes k v ! (b div 8)"
  have "?x AND push_bit (8 - b mod 8) 0xff = ?x"
  proof (rule bit_word_eqI)
    fix i assume i: "i < LENGTH(8)"
    have e: "bit (0xff :: byte) n \<longleftrightarrow> n < 8" for n
    proof -
      have "(0xff :: byte) = mask 8" by (simp add: mask_eq_exp_minus_1)
      then show ?thesis by (simp only: bit_mask_iff) simp
    qed
    have "i \<ge> 8 - b mod 8" if "bit ?x i"
    proof (rule ccontr)
      assume "\<not> i \<ge> 8 - b mod 8"
      moreover have "b = 8 * (b div 8) + b mod 8" by simp
      ultimately have "8 * (k - 1 - b div 8) + i < 8 * k - b" using j by linarith
      then show False using z that by (auto simp: nth_be_bytes [OF j] bit_simps)
    qed
    moreover have "bit (?x AND push_bit (8 - b mod 8) 0xff) i \<longleftrightarrow> bit ?x i \<and> 8 - b mod 8 \<le> i \<and> i - (8 - b mod 8) < 8"
      using i by (simp only: bit_and_iff bit_push_bit_iff e possible_bit_word simp_thms)
    ultimately show "bit (?x AND push_bit (8 - b mod 8) 0xff) i = bit ?x i" using i by auto
  qed
  then show ?thesis by (simp add: clearPrefixTail_def)
qed (simp add: clearPrefixTail_def)

lemma clear_wire:
  assumes "wire_prefix ae p"
  shows "clearPrefixTail (AsSlice (p_ip p)) (nat (p_Bits p)) = AsSlice (p_ip p)"
  using assms
proof (cases rule: wire_prefix_cases)
  case (v4 v b)
  have "Masked p = p" using assms by (simp add: wire_prefix_def)
  then have z: "\<not> bit v i" if "i < 8 * 4 - nat b" for i using canonical_bits(2) [of v b i] v4 that by simp
  show ?thesis using clearPrefixTail_canonical [of 4 "nat b" v, OF _ _ z] v4 by simp
next
  case (v6 v b)
  have "Masked p = p" using assms by (simp add: wire_prefix_def)
  then have z: "\<not> bit v i" if "i < 8 * 16 - nat b" for i using canonical_bits(1) [of v b i] v6 that by simp
  show ?thesis using clearPrefixTail_canonical [of 16 "nat b" v, OF _ _ z] v6 by simp
qed

definition updateWire :: "Update \<Rightarrow> bytes \<Rightarrow> bytes" where
  "updateWire u raw = [u_AE u, updateFlagPrefix, of_int (u_Plen u), 0] @ put16 (u_Interval u) @ put16 (u_Seqno u) @
     put16 (u_Metric u) @ raw"

lemma EncodeUpdate_wire:
  assumes "wire_prefix (u_AE u) p" "u_Plen u = p_Bits p" "u_Prefix u = AsSlice (p_ip p)" "source_ok (u_AE u) (u_SourcePrefix u)"
  shows "EncodeUpdate u = Some \<lparr>tlv_Type = TLVUpdate, tlv_Body = updateWire u (wireBytes p @ sourceWire (u_SourcePrefix u))\<rparr>"
proof -
  let ?n = "prefixByteLen (p_Bits p)" and ?z = "replicate (10 + prefixByteLen (p_Bits p)) (0 :: byte)"
  let ?raw = "AsSlice (p_ip p)"
  have raw: "(if u_AE u = AEIPv4 \<or> u_AE u = AEIPv4ViaIPv6 then Some (To4 (u_Prefix u))
       else if u_AE u = AEIPv6 then Some (To16 (u_Prefix u)) else None) = Some ?raw"
    using assms(1)
  proof (cases rule: wire_prefix_cases)
    case (v4 v b)
    then show ?thesis by (simp add: assms(3) To4_def)
  next
    case (v6 v b)
    then show ?thesis by (simp add: assms(3) To16_def ae_consts)
  qed
  have n: "\<not> ?n > length ?raw"
    using wireBytes_read(1) [OF assms(1)] by (simp add: wireBytes_def)
  have "?z[0 := u_AE u, 1 := updateFlagPrefix, 2 := of_int (u_Plen u), 3 := 0] =
      fill [u_AE u, updateFlagPrefix, of_int (u_Plen u), 0] ?z"
    by (simp add: fill_def eval_nat_numeral)
  then have "put_at 10 (wireBytes p) (put_at 8 (put16 (u_Metric u)) (put_at 6 (put16 (u_Seqno u)) (put_at 4 (put16 (u_Interval u))
      (?z[0 := u_AE u, 1 := updateFlagPrefix, 2 := of_int (u_Plen u), 3 := 0])))) = updateWire u (wireBytes p)"
    using wireBytes_read(1) [OF assms(1)] by (simp add: put_at_fill fill_all updateWire_def)
  then show ?thesis
    unfolding EncodeUpdate_def Let_def raw option.case assms(2)
    using n by (simp add: wireBytes_def [symmetric] appendSource_ok [OF assms(4)] updateWire_def assms(2))
qed

lemma updateWire_sel:
  "updateWire u raw ! 0 = u_AE u" "updateWire u raw ! 1 = updateFlagPrefix" "updateWire u raw ! 2 = of_int (u_Plen u)"
  "updateWire u raw ! 3 = 0" "slice 4 6 (updateWire u raw) = put16 (u_Interval u)" "slice 6 8 (updateWire u raw) = put16 (u_Seqno u)"
  "slice 8 10 (updateWire u raw) = put16 (u_Metric u)" "drop 10 (updateWire u raw) = raw" "length (updateWire u raw) = 10 + length raw"
  by (simp_all add: updateWire_def slice_def put16_eq)

lemma updateSubsLoop_source:
  assumes "source_ok ae s" "u_SourcePrefix u = noPrefix"
  shows "updateSubsLoop ae 0 u (if p_IsValid s then [\<lparr>sub_Type = SubTLVSourcePrefix, sub_Body = of_int (p_Bits s) # wireBytes s\<rparr>] else []) =
    u\<lparr>u_SourcePrefix := s\<rparr>"
  using assms decodeSourcePrefix_wire [of ae s] by (cases u) (auto simp: source_ok_def tlv_consts wire_prefix_def)

text \<open>
  C16. Updates round-trip: for a canonical prefix of the encoding's family, a source prefix of that family
  or none, and an interval the receiver honours, \<open>EncodeUpdate\<close> succeeds, fits a TLV, and whatever the
  compression state of the packet so far, the receiver reads the Update back field for field and remembers its
  prefix as the default of its encoding.
\<close>

theorem update_roundtrip:
  assumes "wire_prefix (u_AE u) p" "u_Plen u = p_Bits p" "u_Prefix u = AsSlice (p_ip p)"
    and "source_ok (u_AE u) (u_SourcePrefix u)" "u_Interval u \<noteq> 0 \<or> u_Metric u = MetricInfinity"
    and "\<not> u_HasRouterID u" "u_RouterID u = 0" "\<not> u_Ignore u"
  shows "\<exists>t. EncodeUpdate u = Some t \<and> length (tlv_Body t) \<le> 255 \<and>
    Decode d (tlv_Body t) = (Inr u, d[unat (u_AE u) := \<lparr>ps_last = go_copy (replicate 16 0) (u_Prefix u), ps_have = True\<rparr>])"
proof -
  let ?raw = "wireBytes p @ sourceWire (u_SourcePrefix u)" and ?n = "prefixByteLen (p_Bits p)"
  note w = wireBytes_read [OF assms(1)]
  have ae: "u_AE u \<noteq> AEWildcard" using assms(1) by (auto simp: wire_prefix_def ae_of_def ae_consts split: if_splits)
  have pl: "unat (of_int (u_Plen u) :: byte) = nat (p_Bits p)"
  proof -
    have "int (unat (of_int (p_Bits p) :: byte)) = p_Bits p" using w(2,3) BitLen_le [of "p_ip p"] by (intro unat_plen) auto
    then show ?thesis unfolding assms(2) by (metis nat_int)
  qed
  have nb: "int (nat (p_Bits p)) = p_Bits p" using w(2) by simp
  have n16: "?n \<le> 16" using w(2,3) BitLen_le [of "p_ip p"] by (intro prefixByteLen_bounds(2)) auto
  have chk: "checkUpdateHeader d (u_AE u) (nat (p_Bits p)) 0 (length ?raw) = None"
    using assms(1) w(1) nb by (cases rule: wire_prefix_cases) (auto simp: checkUpdateHeader_def Let_def ae_consts)
  let ?size = "if u_AE u = AEIPv4 \<or> u_AE u = AEIPv4ViaIPv6 then 4 else 16"
  have size: "?size = BitLen (p_ip p) div 8" using assms(1) by (cases rule: wire_prefix_cases) (auto simp: ae_consts)
  have buf: "put_at 0 (take (?n - 0) ?raw) (go_copy (replicate ?size 0) (take 0 x)) = u_Prefix u" for x
    using wireBytes_exact [OF assms(1) refl] size w(1) by (simp add: put_at_def assms(3) go_copy_def [of _ "[]"])
  have clear: "clearPrefixTail (u_Prefix u) (nat (p_Bits p)) = u_Prefix u"
    using clear_wire [OF assms(1)] by (simp add: assms(3))
  have flags: "updateFlagPrefix AND updateFlagPrefix \<noteq> 0" "updateFlagPrefix AND updateFlagRouterID = 0" by code_simp+
  have subs: "decodeSubTLVs (drop (?n - 0) ?raw) = Inr (if p_IsValid (u_SourcePrefix u)
      then [\<lparr>sub_Type = SubTLVSourcePrefix, sub_Body = of_int (p_Bits (u_SourcePrefix u)) # wireBytes (u_SourcePrefix u)\<rparr>] else [])"
    using w(1) sourceWire_subs [OF assms(4)] by simp
  let ?d = "d[unat (u_AE u) := \<lparr>ps_last = go_copy (replicate 16 0) (u_Prefix u), ps_have = True\<rparr>]"
  have "Decode d (updateWire u ?raw) = (Inr u, ?d)"
    unfolding Decode_def updateWire_sel(1-8) Let_def pl unat_0 chk nb buf clear rd_put option.case subs sum.case
    using assms(5-8) ae flags updateSubsLoop_source [OF assms(4)] nb assms(2) w(2)
    by (auto simp: updateWire_sel(9))
  moreover have "length (updateWire u ?raw) \<le> 255"
  proof -
    have "length (sourceWire s) \<le> 19" if "source_ok ae s" for ae s
    proof (cases "p_IsValid s")
      case True
      then have ws: "wire_prefix ae s" using that by (auto simp: source_ok_def)
      have "prefixByteLen (p_Bits s) \<le> 16"
        using wireBytes_read(2,3) [OF ws] BitLen_le [of "p_ip s"] by (intro prefixByteLen_bounds(2)) auto
      then show ?thesis using wireBytes_read(1) [OF ws] by (simp add: sourceWire_def)
    qed (simp add: sourceWire_def)
    then show ?thesis using w(1) n16 assms(4) by (fastforce simp: updateWire_sel(9))
  qed
  ultimately show ?thesis using EncodeUpdate_wire [OF assms(1-4)] by simp
qed

definition sampleUpdate :: Update where
  "sampleUpdate = \<lparr>u_AE = AEIPv4, u_Plen = 12, u_Interval = 400, u_Seqno = 7, u_Metric = 96, u_Prefix = AsSlice (Addr4 0x0a100000),
     u_RouterID = 0, u_HasRouterID = False, u_Ignore = False, u_SourcePrefix = noPrefix\<rparr>"

theorem update_roundtrip_witness:
  "\<exists>t. EncodeUpdate sampleUpdate = Some t \<and> fst (Decode newPrefixDecoder (tlv_Body t)) = Inr sampleUpdate"
proof -
  let ?p = "PrefixFrom (Addr4 0x0a100000) 12"
  have "Masked ?p = ?p" by code_simp
  then have "wire_prefix (u_AE sampleUpdate) ?p"
    by (simp add: wire_prefix_def ae_of_def sampleUpdate_def)
  then show ?thesis
    using update_roundtrip [of sampleUpdate ?p newPrefixDecoder] by (auto simp: sampleUpdate_def source_ok_def)
qed

subsection \<open>What a decoded Update is\<close>

text \<open>The address bytes \<open>Decode\<close> assembles: what the default prefix supplies, what was sent, zeros.\<close>

definition assembled :: "nat \<Rightarrow> bytes \<Rightarrow> nat \<Rightarrow> nat \<Rightarrow> bytes \<Rightarrow> bytes" where
  "assembled sz last_p omitted tot sent =
     put_at omitted (take (tot - omitted) sent) (go_copy (replicate sz 0) (take omitted last_p))"

lemma assembled_eq:
  assumes "length last_p = 16" "omitted \<le> tot" "tot \<le> sz" "sz \<le> 16" "tot - omitted \<le> length sent"
  shows "assembled sz last_p omitted tot sent = take omitted last_p @ take (tot - omitted) sent @ replicate (sz - tot) 0"
  using assms by (simp add: assembled_def put_at_def go_copy_def min_absorb2)

lemma bit_be_acc:
  assumes "8 * length buf = LENGTH('a::len)" "i < LENGTH('a)"
  shows "bit (be_acc 0 buf :: 'a word) i \<longleftrightarrow> bit (buf ! (length buf - 1 - i div 8)) (i mod 8)"
proof -
  let ?v = "be_acc 0 buf :: 'a word" and ?j = "length buf - 1 - i div 8"
  have j: "?j < length buf" "length buf - 1 - ?j = i div 8" using assms by auto
  have "be_bytes (length buf) ?v = buf" using be_bytes_be_acc [of buf "0 :: 'a word"] assms(1) by simp
  then have "buf ! ?j = ucast (drop_bit (8 * (i div 8)) ?v)" using nth_be_bytes [OF j(1), of ?v] j(2) by metis
  then have "bit (buf ! ?j) (i mod 8) \<longleftrightarrow> bit ?v (8 * (i div 8) + i mod 8)" by (simp add: bit_simps)
  then show ?thesis by simp
qed

lemma clear_tail_bits:
  assumes "8 * length x = LENGTH('a::len)" "plen \<le> LENGTH('a)"
    and zero: "\<And>j. (plen + 7) div 8 \<le> j \<Longrightarrow> j < length x \<Longrightarrow> x ! j = 0"
    and i: "i < LENGTH('a) - plen"
  shows "\<not> bit (be_acc 0 (clearPrefixTail x plen) :: 'a word) i"
proof -
  let ?j = "length x - 1 - i div 8" and ?b = "clearPrefixTail x plen"
  have len: "length ?b = length x" by (simp add: clearPrefixTail_def)
  have il: "i < LENGTH('a)" using i by simp
  have "\<not> bit (?b ! ?j) (i mod 8)"
  proof (cases "(plen + 7) div 8 \<le> ?j")
    case True
    have "?j < length x" using assms(1) il by simp
    then have "x ! ?j = 0" using zero True by blast
    then have "?b ! ?j = 0" using \<open>?j < length x\<close>
      by (cases "plen div 8 = ?j") (simp_all add: clearPrefixTail_def)
    then show ?thesis by simp
  next
    case False
    define q r where "q = plen div 8" and "r = plen mod 8"
    define a b where "a = i div 8" and "b = i mod 8"
    have pq: "plen = 8 * q + r" "r < 8" "i = 8 * a + b" "b < 8" by (simp_all add: q_def r_def a_def b_def)
    have n: "8 * length x = LENGTH('a)" by (rule assms(1))
    have "(plen + 7) div 8 \<le> q + 1" using pq(1,2) by simp
    then have jq: "?j = q \<and> r \<noteq> 0 \<and> b < 8 - r"
      using False i n pq by (cases "r = 0") (auto simp: a_def [symmetric])
    have "bit (?b ! ?j) b \<longleftrightarrow> bit (x ! q) b \<and> 8 - r \<le> b \<and> bit (0xff :: byte) (b - (8 - r))"
      using jq pq n i by (simp add: clearPrefixTail_def q_def [symmetric] r_def [symmetric] bit_and_iff bit_push_bit_iff a_def [symmetric])
    then show ?thesis using jq by (simp add: b_def)
  qed
  then show ?thesis using bit_be_acc [where 'a = 'a, of ?b i] len assms(1) il by simp
qed


lemma canonical_bits_conv:
  "0 \<le> b \<Longrightarrow> b \<le> 128 \<Longrightarrow> (\<And>i. i < 128 - nat b \<Longrightarrow> \<not> bit v i) \<Longrightarrow> Masked (PrefixFrom (Addr6 v) b) = PrefixFrom (Addr6 v) b"
  "0 \<le> b \<Longrightarrow> b \<le> 32 \<Longrightarrow> (\<And>i. i < 32 - nat b \<Longrightarrow> \<not> bit w i) \<Longrightarrow> Masked (PrefixFrom (Addr4 w) b) = PrefixFrom (Addr4 w) b"
proof -
  assume a: "0 \<le> b" "b \<le> 128" "\<And>i. i < 128 - nat b \<Longrightarrow> \<not> bit v i"
  have "v AND mask6 (nat b) = v"
    by (rule bit_word_eqI) (use a(3) in \<open>auto simp: bit_and_iff mask6_bit not_less [symmetric]\<close>)
  then show "Masked (PrefixFrom (Addr6 v) b) = PrefixFrom (Addr6 v) b" using a by simp
next
  assume a: "0 \<le> b" "b \<le> 32" "\<And>i. i < 32 - nat b \<Longrightarrow> \<not> bit w i"
  have "w AND ucast (mask6 (nat b + 96)) = w"
    by (rule bit_word_eqI) (use a(2,3) in \<open>auto simp: bit_and_iff bit_ucast_iff mask6_bit not_less [symmetric]\<close>)
  then show "Masked (PrefixFrom (Addr4 w) b) = PrefixFrom (Addr4 w) b" using a by simp
qed

definition decoder_ok :: "PrefixDecoder \<Rightarrow> bool" where
  "decoder_ok d \<longleftrightarrow> length d = 5 \<and> (\<forall>s\<in>set d. length (ps_last s) = 16)"

lemma decoder_ok_new: "decoder_ok newPrefixDecoder"
  by (simp add: decoder_ok_def newPrefixDecoder_def)

definition addressed :: "byte \<Rightarrow> bytes \<Rightarrow> nat \<Rightarrow> bool" where
  "addressed ae raw plen \<longleftrightarrow> wire_prefix ae (PrefixFrom (the (AddrFromSlice raw)) (int plen)) \<and>
     length raw = (if ae = AEIPv4 \<or> ae = AEIPv4ViaIPv6 then 4 else 16)"

lemma cleared_addressed:
  assumes "8 * length x = w" "plen \<le> w" "\<And>j. (plen + 7) div 8 \<le> j \<Longrightarrow> j < length x \<Longrightarrow> x ! j = 0"
    and "w = 32 \<and> (ae = AEIPv4 \<or> ae = AEIPv4ViaIPv6) \<or> w = 128 \<and> ae = AEIPv6"
  shows "addressed ae (clearPrefixTail x plen) plen"
proof -
  have l: "length (clearPrefixTail x plen) = length x" by (simp add: clearPrefixTail_def)
  from assms(4) show ?thesis
  proof (elim disjE conjE)
    assume w: "w = 32"
    have "\<not> bit (be_acc 0 (clearPrefixTail x plen) :: u32) i" if "i < 32 - plen" for i
      using clear_tail_bits [where 'a = 32, of x plen i] assms w that by simp
    from canonical_bits_conv(2) [of "int plen", OF _ _ this] assms w l
    show "ae = AEIPv4 \<Longrightarrow> addressed ae (clearPrefixTail x plen) plen"
      "ae = AEIPv4ViaIPv6 \<Longrightarrow> addressed ae (clearPrefixTail x plen) plen"
      by (simp_all add: addressed_def wire_prefix_def AddrFromSlice_def ae_of_def)
  next
    assume w: "w = 128" and ae: "ae = AEIPv6"
    have "\<not> bit (be_acc 0 (clearPrefixTail x plen) :: u128) i" if "i < 128 - plen" for i
      using clear_tail_bits [where 'a = 128, of x plen i] assms w that by simp
    from canonical_bits_conv(1) [of "int plen", OF _ _ this] assms w l ae
    show ?thesis by (simp add: addressed_def wire_prefix_def AddrFromSlice_def ae_of_def ae_consts)
  qed
qed

lemma decodeSourcePrefix_ok: "decodeSourcePrefix ae body = Some s \<Longrightarrow> source_ok ae s"
proof -
  assume a: "decodeSourcePrefix ae body = Some s"
  define plen where "plen = int (unat (body ! 0))"
  have p0: "0 \<le> plen" by (simp add: plen_def)
  from a obtain v where v: "plen \<noteq> 0" "0 \<le> plen" "s = Masked (PrefixFrom v plen)"
    "Is4 v \<and> plen \<le> 32 \<and> (ae = AEIPv4 \<or> ae = AEIPv4ViaIPv6) \<or> Is6 v \<and> plen \<le> 128 \<and> ae = AEIPv6"
  proof -
    obtain k where "(ae = AEIPv4 \<or> ae = AEIPv4ViaIPv6) \<and> plen \<le> 32 \<and> s = Masked (PrefixFrom (Addr4 (be_acc 0 (go_copy (replicate 4 0) k))) plen) \<or>
        ae = AEIPv6 \<and> plen \<le> 128 \<and> s = Masked (PrefixFrom (Addr6 (be_acc 0 (go_copy (replicate 16 0) k))) plen)" "plen \<noteq> 0"
      using a unfolding decodeSourcePrefix_def Let_def plen_def [symmetric]
      by (auto simp del: Masked_4 Masked_6 split: if_splits)
    then show thesis using that p0
      by (elim disjE conjE) (simp_all add: Is6_def del: Masked_4 Masked_6)
  qed
  let ?p = "PrefixFrom v plen"
  have valid: "p_IsValid ?p" using v by (cases v) (auto simp: Is6_def)
  have "p_Bits s = plen" using Masked_props(4) [of ?p] valid v(3) by simp
  moreover have "prefix_ok s" "p_IsValid s" "Masked s = s" using Masked_props(1,2,3) [of ?p] valid v(3) by simp_all
  moreover have "ae_of ae (p_ip s)"
    using v(3,4) v(2) by (cases v) (auto simp: ae_of_def Is6_def)
  ultimately show ?thesis using v(1) by (simp add: source_ok_def wire_prefix_def)
qed

lemma updateSubsLoop_ok:
  assumes "u_AE u = ae" "source_ok ae (u_SourcePrefix u)"
  shows "source_ok ae (u_SourcePrefix (updateSubsLoop ae k u subs)) \<and> u_AE (updateSubsLoop ae k u subs) = ae \<and>
    u_Plen (updateSubsLoop ae k u subs) = u_Plen u \<and> u_Prefix (updateSubsLoop ae k u subs) = u_Prefix u"
  using assms
  by (induction subs arbitrary: k u) (auto dest: decodeSourcePrefix_ok split: option.split)

text \<open>
  \<open>Decode\<close> after the prefix has been assembled into \<open>buf\<close>: the Update without its sub-TLVs, the state
  it leaves, and the Update with the sub-TLVs in \<open>extra\<close>.
\<close>

definition decodeHead :: "byte \<Rightarrow> byte \<Rightarrow> nat \<Rightarrow> u16 \<Rightarrow> u16 \<Rightarrow> u16 \<Rightarrow> bytes \<Rightarrow> Update" where
  "decodeHead ae flags plen interval seqno metric buf =
     (let v4 = (ae = AEIPv4 \<or> ae = AEIPv4ViaIPv6);
         ip = (if ae = AEWildcard then replicate 10 0 @ [0xff, 0xff] @ replicate 4 0 else buf);
         u = \<lparr>u_AE = ae, u_Plen = int plen, u_Interval = interval, u_Seqno = seqno, u_Metric = metric,
              u_Prefix = ip, u_RouterID = 0, u_HasRouterID = False, u_Ignore = False, u_SourcePrefix = noPrefix\<rparr>;
         u = (if flags AND updateFlagRouterID \<noteq> 0 \<and> ae \<noteq> AEWildcard
              then let raw = (if v4 then To4 ip else To16 ip)
                   in u\<lparr>u_RouterID := be_acc 0 (drop (length raw - 8) raw), u_HasRouterID := True\<rparr>
              else u);
         u = (if interval = 0 \<and> metric \<noteq> MetricInfinity then u\<lparr>u_Ignore := True\<rparr> else u)
     in (if ae = AEWildcard \<and> metric \<noteq> MetricInfinity then u\<lparr>u_Ignore := True\<rparr> else u))"

definition decodeState :: "PrefixDecoder \<Rightarrow> byte \<Rightarrow> byte \<Rightarrow> bytes \<Rightarrow> PrefixDecoder" where
  "decodeState d ae flags buf =
     (if ae \<noteq> AEWildcard \<and> flags AND updateFlagPrefix \<noteq> 0
      then d[unat ae := \<lparr>ps_last = go_copy (replicate 16 0) buf, ps_have = True\<rparr>] else d)"

definition decodeExtra :: "Update \<Rightarrow> bytes \<Rightarrow> Update" where
  "decodeExtra u extra =
     (case decodeSubTLVs extra of Inl _ \<Rightarrow> u\<lparr>u_Ignore := True\<rparr> | Inr subs \<Rightarrow> updateSubsLoop (u_AE u) 0 u subs)"

lemma decodeHead_sel [simp]:
  "u_AE (decodeHead ae flags plen i s m buf) = ae" "u_Plen (decodeHead ae flags plen i s m buf) = int plen"
  "u_SourcePrefix (decodeHead ae flags plen i s m buf) = noPrefix"
  "ae \<noteq> AEWildcard \<Longrightarrow> u_Prefix (decodeHead ae flags plen i s m buf) = buf"
  by (simp_all add: decodeHead_def Let_def)

lemma Decode_rest:
  "Decode d body =
     (if length body < 10 then (Inl ShortTLV, d)
      else case checkUpdateHeader d (body ! 0) (unat (body ! 2)) (unat (body ! 3)) (length body - 10) of
        Some e \<Rightarrow> (Inl e, d)
      | None \<Rightarrow>
          let tot = prefixByteLen (int (unat (body ! 2))); omitted = unat (body ! 3);
              buf = clearPrefixTail (assembled (if body ! 0 = AEIPv4 \<or> body ! 0 = AEIPv4ViaIPv6 then 4 else 16)
                (ps_last (d ! unat (body ! 0))) omitted tot (drop 10 body)) (unat (body ! 2))
          in (Inr (decodeExtra (decodeHead (body ! 0) (body ! 1) (unat (body ! 2))
                (rd16 (slice 4 6 body)) (rd16 (slice 6 8 body)) (rd16 (slice 8 10 body)) buf)
                (drop (tot - omitted) (drop 10 body))),
              decodeState d (body ! 0) (body ! 1) buf))"
proof -
  have e: "(case decodeSubTLVs extra of Inl _ \<Rightarrow> (Inr (u\<lparr>u_Ignore := True\<rparr>), d') | Inr subs \<Rightarrow> (Inr (updateSubsLoop ae 0 u subs), d')) =
      (Inr (decodeExtra u extra), d')" if "u_AE u = ae" for u extra ae d'
    using that by (simp add: decodeExtra_def split: sum.split)
  show ?thesis
    unfolding Decode_def Let_def length_drop assembled_def [symmetric] decodeState_def [symmetric] decodeHead_def
    by (subst e) simp_all
qed

lemma decodeExtra_ok:
  assumes "u_SourcePrefix u = noPrefix"
  shows "source_ok (u_AE u) (u_SourcePrefix (decodeExtra u extra))" "u_AE (decodeExtra u extra) = u_AE u"
    "u_Plen (decodeExtra u extra) = u_Plen u" "u_Prefix (decodeExtra u extra) = u_Prefix u"
  using updateSubsLoop_ok [of u "u_AE u" 0] assms
  by (auto simp: decodeExtra_def source_ok_def split: sum.split)

lemma decodeState_ok: "decoder_ok d \<Longrightarrow> decoder_ok (decodeState d ae flags buf)"
  by (auto simp: decodeState_def decoder_ok_def dest!: set_update_subset_insert [THEN subsetD])

lemma checkUpdateHeader_None:
  assumes "checkUpdateHeader d ae plen omitted sent = None" "decoder_ok d"
  shows "omitted \<le> prefixByteLen (int plen)" "prefixByteLen (int plen) - omitted \<le> sent"
    "ae = AEWildcard \<and> plen = 0 \<and> omitted = 0 \<or> (ae = AEIPv4 \<or> ae = AEIPv4ViaIPv6) \<and> plen \<le> 32 \<or> ae = AEIPv6 \<and> plen \<le> 128"
    "length (ps_last (d ! unat ae)) = 16" "unat ae < length d" "omitted = 0 \<or> ps_have (d ! unat ae)"
proof -
  have *: "omitted \<le> prefixByteLen (int plen) \<and> prefixByteLen (int plen) - omitted \<le> sent \<and>
    (ae = AEWildcard \<and> plen = 0 \<and> omitted = 0 \<or> (ae = AEIPv4 \<or> ae = AEIPv4ViaIPv6) \<and> plen \<le> 32 \<or> ae = AEIPv6 \<and> plen \<le> 128) \<and>
    (omitted = 0 \<or> ps_have (d ! unat ae))"
    using assms(1) by (auto simp: checkUpdateHeader_def Let_def not_less split: if_splits option.splits)
  then have "unat ae < 5" by (auto simp: ae_consts)
  then show "omitted \<le> prefixByteLen (int plen)" "prefixByteLen (int plen) - omitted \<le> sent"
    "ae = AEWildcard \<and> plen = 0 \<and> omitted = 0 \<or> (ae = AEIPv4 \<or> ae = AEIPv4ViaIPv6) \<and> plen \<le> 32 \<or> ae = AEIPv6 \<and> plen \<le> 128"
    "length (ps_last (d ! unat ae)) = 16" "unat ae < length d" "omitted = 0 \<or> ps_have (d ! unat ae)"
    using * assms(2) by (auto simp: decoder_ok_def)
qed

lemma checkUpdateHeader_spelled:
  "checkUpdateHeader d ae plen omitted n = None \<Longrightarrow> checkUpdateHeader d ae plen 0 (n + omitted) = None"
  unfolding checkUpdateHeader_def Let_def
  by (cases "ae = AEWildcard"; cases "ae = AEIPv4 \<or> ae = AEIPv4ViaIPv6"; cases "ae = AEIPv6")
    (simp_all split: if_split_asm)

lemma prefixByteLen_nat: "prefixByteLen (int n) = (n + 7) div 8"
  by (simp add: prefixByteLen_def nat_div_distrib)

lemma nth_zeros: "length a = n \<Longrightarrow> n \<le> j \<Longrightarrow> j < n + m \<Longrightarrow> (a @ replicate m 0) ! j = 0"
  by (simp add: nth_append)

lemma assembled_addressed:
  assumes "checkUpdateHeader d ae plen omitted (length sent) = None" "decoder_ok d" "ae \<noteq> AEWildcard"
  shows "addressed ae (clearPrefixTail (assembled (if ae = AEIPv4 \<or> ae = AEIPv4ViaIPv6 then 4 else 16)
    (ps_last (d ! unat ae)) omitted (prefixByteLen (int plen)) sent) plen) plen"
proof -
  note c = checkUpdateHeader_None [OF assms(1,2)]
  let ?sz = "if ae = AEIPv4 \<or> ae = AEIPv4ViaIPv6 then 4 else 16 :: nat" and ?n = "prefixByteLen (int plen)"
  have w: "8 * ?sz = 32 \<and> (ae = AEIPv4 \<or> ae = AEIPv4ViaIPv6) \<or> 8 * ?sz = 128 \<and> ae = AEIPv6" "plen \<le> 8 * ?sz"
    using c(3) assms(3) by (auto simp: ae_consts)
  have n: "?n = (plen + 7) div 8" by (rule prefixByteLen_nat)
  have sz: "?n \<le> ?sz" "?sz \<le> 16" using w(2) n by auto
  note a = assembled_eq [OF c(4) c(1) sz c(2)]
  have l: "length (assembled ?sz (ps_last (d ! unat ae)) omitted ?n sent) = ?sz"
    unfolding a using c(1,2,4) sz by simp
  show ?thesis
  proof (rule cleared_addressed [OF _ w(2) _ w(1)])
    show "8 * length (assembled ?sz (ps_last (d ! unat ae)) omitted ?n sent) = 8 * ?sz" using l by simp
    fix j assume j: "(plen + 7) div 8 \<le> j" "j < length (assembled ?sz (ps_last (d ! unat ae)) omitted ?n sent)"
    have "length (take omitted (ps_last (d ! unat ae)) @ take (?n - omitted) sent) = ?n" using c(1,2,4) sz by simp
    then show "assembled ?sz (ps_last (d ! unat ae)) omitted ?n sent ! j = 0"
      unfolding a append_assoc [symmetric] by (rule nth_zeros) (use j l n sz(1) in auto)
  qed
qed

text \<open>
  C17. Whatever bytes arrive, a decoded Update is well formed: its prefix is a canonical prefix of its
  encoding's family, of the width of that family, with no bits below its length (or the Update is a
  wildcard of length zero), its source prefix is absent or a canonical nonempty prefix of the same family,
  and the compression state stays an array of five sixteen-byte prefixes.
\<close>

theorem decoded_update_wellformed:
  assumes "decoder_ok d" "Decode d body = (r, d')"
  shows "decoder_ok d' \<and> (\<forall>u. r = Inr u \<longrightarrow> source_ok (u_AE u) (u_SourcePrefix u) \<and>
    (u_AE u = AEWildcard \<and> u_Plen u = 0 \<or>
     wire_prefix (u_AE u) (PrefixFrom (the (AddrFromSlice (u_Prefix u))) (u_Plen u)) \<and>
     length (u_Prefix u) = (if u_AE u = AEIPv4 \<or> u_AE u = AEIPv4ViaIPv6 then 4 else 16)))"
proof (cases "length body < 10 \<or> checkUpdateHeader d (body ! 0) (unat (body ! 2)) (unat (body ! 3)) (length body - 10) \<noteq> None")
  case True
  then show ?thesis using assms by (auto simp: Decode_rest split: if_splits option.splits)
next
  case False
  let ?ae = "body ! 0" and ?plen = "unat (body ! 2)"
  let ?buf = "clearPrefixTail (assembled (if ?ae = AEIPv4 \<or> ?ae = AEIPv4ViaIPv6 then 4 else 16)
    (ps_last (d ! unat ?ae)) (unat (body ! 3)) (prefixByteLen (int ?plen)) (drop 10 body)) ?plen"
  have c: "checkUpdateHeader d ?ae ?plen (unat (body ! 3)) (length (drop 10 body)) = None" using False by simp
  obtain h extra where h: "r = Inr (decodeExtra h extra)" "d' = decodeState d ?ae (body ! 1) ?buf"
    "u_AE h = ?ae" "u_Plen h = int ?plen" "u_SourcePrefix h = noPrefix" "?ae \<noteq> AEWildcard \<longrightarrow> u_Prefix h = ?buf"
    using assms(2) False unfolding Decode_rest Let_def by auto
  note x = decodeExtra_ok [OF h(5)]
  have "?ae = AEWildcard \<Longrightarrow> ?plen = 0" using checkUpdateHeader_None(3) [OF c assms(1)] by (auto simp: ae_consts)
  moreover have "?ae \<noteq> AEWildcard \<Longrightarrow> addressed ?ae ?buf ?plen" by (rule assembled_addressed [OF c assms(1)])
  ultimately show ?thesis
    using h x decodeState_ok [OF assms(1)] unfolding addressed_def by (cases "?ae = AEWildcard") auto
qed

theorem decoded_update_wellformed_witness:
  "let body = [1, 0x80, 12, 0, 0, 1, 0, 2, 0, 3, 10, 0xff, 128, 2, 8, 10]
   in decoder_ok (snd (Decode newPrefixDecoder body))"
  using decoded_update_wellformed [OF decoder_ok_new, of "[1, 0x80, 12, 0, 0, 1, 0, 2, 0, 3, 10, 0xff, 128, 2, 8, 10]"]
  unfolding Let_def by (metis prod.collapse)

definition spelledOut :: "PrefixDecoder \<Rightarrow> bytes \<Rightarrow> bytes" where
  "spelledOut d body = take 3 body @ [0] @ slice 4 10 body @ take (unat (body ! 3)) (ps_last (d ! unat (body ! 0))) @ drop 10 body"

text \<open>
  C18. Prefix compression changes nothing: an Update that omits the first bytes of its prefix decodes, state
  included, exactly as the Update that spells those bytes out, provided the packet has set a default for its
  encoding.
\<close>

theorem compression_exact:
  assumes "decoder_ok d" "Decode d body = (Inr u, d')"
  shows "Decode d (spelledOut d body) = (Inr u, d')"
proof -
  let ?ae = "body ! 0" and ?plen = "unat (body ! 2)" and ?om = "unat (body ! 3)" and ?b = "spelledOut d body"
  let ?n = "prefixByteLen (int ?plen)" and ?last = "ps_last (d ! unat ?ae)"
  let ?sz = "if ?ae = AEIPv4 \<or> ?ae = AEIPv4ViaIPv6 then 4 else 16 :: nat"
  have len: "\<not> length body < 10" and c: "checkUpdateHeader d ?ae ?plen ?om (length (drop 10 body)) = None"
    using assms(2) by (auto simp: Decode_rest split: if_splits option.splits)
  note k = checkUpdateHeader_None [OF c assms(1)]
  have n16: "?n \<le> 16" using k(3) unfolding prefixByteLen_nat by auto
  have sel: "?b ! 0 = ?ae" "?b ! 1 = body ! 1" "?b ! 2 = body ! 2" "?b ! 3 = 0"
    "slice 4 6 ?b = slice 4 6 body" "slice 6 8 ?b = slice 6 8 body" "slice 8 10 ?b = slice 8 10 body"
    "drop 10 ?b = take ?om ?last @ drop 10 body" "length ?b = length body + ?om"
    using len k(1,4) n16 by (auto simp: spelledOut_def slice_def nth_append take_drop)
  have c': "checkUpdateHeader d ?ae ?plen 0 (length ?b - 10) = None"
    using checkUpdateHeader_spelled [OF c] len sel(9) by simp
  have sz: "?n \<le> ?sz" "?sz \<le> 16" using k(3) unfolding prefixByteLen_nat by (auto simp: ae_consts)
  have om: "length (take ?om ?last) = ?om" using k(1,4) n16 by simp
  have a: "assembled ?sz ?last 0 ?n (take ?om ?last @ drop 10 body) = assembled ?sz ?last ?om ?n (drop 10 body)"
    using assembled_eq [OF k(4) k(1) sz k(2)] assembled_eq [OF k(4) _ sz, of 0 "take ?om ?last @ drop 10 body"] k(1,2) om by simp
  have x: "drop (?n - 0) (take ?om ?last @ drop 10 body) = drop (?n - ?om) (drop 10 body)" using om k(1) by simp
  have "Decode d ?b = Decode d body"
    unfolding Decode_rest [of d ?b] Decode_rest [of d body] sel unat_0 Let_def a x
    using len c c' sel(9) by simp
  then show ?thesis using assms(2) by simp
qed

definition compressed :: bytes where
  "compressed = [1, 0, 16, 1, 0, 1, 0, 2, 0, 3, 7]"

lemma compressed_decodes:
  "let d = snd (Decode newPrefixDecoder [1, 0x80, 8, 0, 0, 1, 0, 2, 0, 3, 10]) in
   case Decode d compressed of (Inr u, _) \<Rightarrow> u_Prefix u = [10, 7, 0, 0] | _ \<Rightarrow> False"
  by code_simp

theorem compression_exact_witness:
  "\<exists>d u d'. Decode d compressed = (Inr u, d') \<and> u_Prefix u = [10, 7, 0, 0] \<and> Decode d (spelledOut d compressed) = (Inr u, d')"
proof -
  define d where "d = snd (Decode newPrefixDecoder [1, 0x80, 8, 0, 0, 1, 0, 2, 0, 3, 10])"
  have ok: "decoder_ok d"
    using decodeState_ok [OF decoder_ok_new] decoder_ok_new unfolding d_def Decode_rest
    by (auto simp: Let_def split: option.split)
  obtain u d' where "Decode d compressed = (Inr u, d')" "u_Prefix u = [10, 7, 0, 0]"
    using compressed_decodes by (auto simp: d_def [symmetric] Let_def split: prod.splits sum.splits)
  with compression_exact [OF ok] show ?thesis by blast
qed

end
