(* ===== verification/Babel_Cost.thy ===== *)
theory Babel_Cost
  imports Babel_Tlv
begin

unbundle bit_operations_syntax

text \<open>
  What a Babel link costs: the Hello history and the ETX estimator (\<open>internal/babel/etx.go\<close>), the
  round-trip penalty and its parameters (\<open>rtt.go\<close>), the \<open>cap.babel\<close> configuration (\<open>config.go\<close>), and
  the neighbour state with its liveness and link cost (\<open>neighbor.go\<close>). Instants and durations are
  integers of nanoseconds; the sets \<open>owed\<close> and \<open>advertised\<close> of a neighbour are lists of keys.
\<close>

section \<open>Model\<close>

subsection \<open>Hello history\<close>

record helloHistory =
  hh_bits :: u16
  hh_expected :: u16
  hh_started :: bool
  hh_samples :: nat

definition noHistory :: helloHistory where
  "noHistory = \<lparr>hh_bits = 0, hh_expected = 0, hh_started = False, hh_samples = 0\<rparr>"

definition historyDepth :: nat where "historyDepth = 16"
definition rebootDrift :: u16 where "rebootDrift = 16"
definition betaWindow :: nat where "betaWindow = historyDepth"

definition shiftIn :: "helloHistory \<Rightarrow> u16 \<Rightarrow> nat \<Rightarrow> helloHistory" where
  "shiftIn h b count =
     (if count \<ge> historyDepth
      then h\<lparr>hh_bits := (if b \<noteq> 0 then NOT 0 else 0), hh_samples := historyDepth\<rparr>
      else h\<lparr>hh_bits := push_bit count (hh_bits h) OR b, hh_samples := min (hh_samples h + count) historyDepth\<rparr>)"

definition hh_record :: "helloHistory \<Rightarrow> u16 \<Rightarrow> bool \<times> helloHistory" where
  "hh_record h seqno =
     (if \<not> hh_started h
      then (True, \<lparr>hh_bits = 1, hh_expected = seqno + 1, hh_started = True, hh_samples = 1\<rparr>)
      else let ahead = seqno - hh_expected h; behind = hh_expected h - seqno
      in if ahead \<le> rebootDrift
         then (True, (shiftIn (shiftIn h 0 (unat ahead)) 1 1)\<lparr>hh_expected := seqno + 1\<rparr>)
         else if behind \<le> rebootDrift
         then let h = h\<lparr>hh_bits := drop_bit (unat behind) (hh_bits h), hh_samples := hh_samples h - unat behind\<rparr>
              in (True, (shiftIn h 1 1)\<lparr>hh_expected := seqno + 1\<rparr>)
         else (False, h))"

definition missed :: "helloHistory \<Rightarrow> helloHistory" where
  "missed h = (if \<not> hh_started h then h else (shiftIn h 0 1)\<lparr>hh_expected := hh_expected h + 1\<rparr>)"

definition beta :: "helloHistory \<Rightarrow> (nat \<times> nat) option" where
  "beta h = (if \<not> hh_started h then None
     else let window = min betaWindow (hh_samples h)
       in Some (foldl (\<lambda>received i. if hh_bits h AND push_bit i 1 \<noteq> 0 then received + 1 else received) 0 [0..<window], window))"

subsection \<open>Costs\<close>

text \<open>Durations and instants are nanoseconds; the zero \<open>time.Time\<close> is 0.\<close>

type_synonym duration = int
type_synonym time = int

abbreviation (input) millisecond :: duration where "millisecond \<equiv> 1000000"

datatype LinkQuality = LinkQualityETX | LinkQualityNone

record RTTCost =
  rtt_Weight :: u16
  rtt_Min :: duration
  rtt_Max :: duration

record CostParams =
  cp_RxCost :: u16
  cp_RTT :: RTTCost
  cp_Quality :: LinkQuality

definition DefaultCostParams :: CostParams where
  "DefaultCostParams = \<lparr>cp_RxCost = 96,
     cp_RTT = \<lparr>rtt_Weight = 1024, rtt_Min = 10 * millisecond, rtt_Max = 1024 * millisecond\<rparr>, cp_Quality = LinkQualityETX\<rparr>"

record CostOptions =
  co_Rx :: "u16 option"
  co_Weight :: "u16 option"
  co_Min :: "duration option"
  co_Max :: "duration option"

definition Params :: "CostOptions \<Rightarrow> CostParams" where
  "Params opts =
     (let params = DefaultCostParams;
          params = (case co_Rx opts of Some rx \<Rightarrow> params\<lparr>cp_RxCost := rx\<rparr> | None \<Rightarrow> params);
          params = (case co_Weight opts of Some w \<Rightarrow> params\<lparr>cp_RTT := (cp_RTT params)\<lparr>rtt_Weight := w\<rparr>\<rparr> | None \<Rightarrow> params);
          params = (case co_Min opts of Some d \<Rightarrow> params\<lparr>cp_RTT := (cp_RTT params)\<lparr>rtt_Min := d\<rparr>\<rparr> | None \<Rightarrow> params);
          params = (case co_Max opts of Some d \<Rightarrow> params\<lparr>cp_RTT := (cp_RTT params)\<lparr>rtt_Max := d\<rparr>\<rparr> | None \<Rightarrow> params)
      in params)"

definition scaleCost :: "u16 \<Rightarrow> nat \<Rightarrow> nat \<Rightarrow> u16" where
  "scaleCost base window received =
     (let scaled = ucast base * of_nat window div of_nat received :: u64
      in if scaled \<ge> ucast MetricInfinity then MetricInfinity else ucast scaled)"

definition saturatingAdd :: "u16 \<Rightarrow> u16 \<Rightarrow> u16" where
  "saturatingAdd a b =
     (if a = MetricInfinity \<or> b = MetricInfinity then MetricInfinity
      else let sum = ucast a + ucast b :: u32
        in if sum \<ge> ucast MetricInfinity then MetricInfinity else ucast sum)"

definition RTTPenalty :: "CostParams \<Rightarrow> duration \<Rightarrow> bool \<Rightarrow> u16" where
  "RTTPenalty p rtt haveRTT =
     (let low = rtt_Min (cp_RTT p); high = rtt_Max (cp_RTT p)
      in if \<not> haveRTT \<or> rtt_Weight (cp_RTT p) = 0 \<or> high \<le> low \<or> rtt \<le> low then 0
         else if rtt \<ge> high then rtt_Weight (cp_RTT p)
         else ucast (ucast (rtt_Weight (cp_RTT p)) * of_int (rtt - low) div of_int (high - low) :: u64))"

definition Cost :: "CostParams \<Rightarrow> duration \<Rightarrow> bool \<Rightarrow> u16" where
  "Cost p rtt haveRTT = saturatingAdd (cp_RxCost p) (RTTPenalty p rtt haveRTT)"

definition rxCost :: "CostParams \<Rightarrow> helloHistory \<Rightarrow> u16" where
  "rxCost p history =
     (case beta history of
        None \<Rightarrow> cp_RxCost p
      | Some (received, window) \<Rightarrow>
          if cp_Quality p \<noteq> LinkQualityETX then cp_RxCost p
          else if received = 0 then MetricInfinity
          else scaleCost (cp_RxCost p) window received)"

definition linkQualityCost :: "CostParams \<Rightarrow> helloHistory \<Rightarrow> u16 \<Rightarrow> u16" where
  "linkQualityCost p history txcost =
     (if txcost = MetricInfinity then MetricInfinity
      else if cp_Quality p \<noteq> LinkQualityETX then txcost
      else case beta history of
        None \<Rightarrow> txcost
      | Some (received, window) \<Rightarrow>
          if received = 0 then MetricInfinity else scaleCost txcost window received)"

text \<open>RFC 9616 timestamps: a wrapping 32-bit microsecond difference read as signed.\<close>

definition microDelta :: "u32 \<Rightarrow> u32 \<Rightarrow> duration" where
  "microDelta b a = sint (b - a) * 1000"

definition rttTimestampHorizon :: duration where "rttTimestampHorizon = 180000 * millisecond"

definition validTimestampGap :: "duration \<Rightarrow> bool" where
  "validTimestampGap gap = (gap \<ge> 0 \<and> gap \<le> rttTimestampHorizon)"

subsection \<open>Configuration\<close>

record Config =
  cf_Hello :: duration
  cf_Update :: duration
  cf_Quality :: LinkQuality
  cf_Cost :: CostOptions

definition maxInterval :: duration where "maxInterval = 65535 * 10 * millisecond"

definition HelloInterval :: "Config \<Rightarrow> duration" where
  "HelloInterval c = (if cf_Hello c = 0 then 4000 * millisecond else cf_Hello c)"

definition UpdateInterval :: "Config \<Rightarrow> duration" where
  "UpdateInterval c = (if cf_Update c = 0 then 4 * min (HelloInterval c) (maxInterval div 4) else cf_Update c)"

definition CostEffective :: "Config \<Rightarrow> CostParams" where
  "CostEffective c = (Params (cf_Cost c))\<lparr>cp_Quality := cf_Quality c\<rparr>"

datatype config_error = BadInterval | BadRTTRange | BadCost

definition Config_Validate :: "Config \<Rightarrow> config_error option" where
  "Config_Validate c =
     (if list_ex (\<lambda>interval. interval < 10 * millisecond \<or> interval > maxInterval) [HelloInterval c, UpdateInterval c]
      then Some BadInterval
      else let cost = CostEffective c
      in if rtt_Min (cp_RTT cost) < 0 \<or> rtt_Max (cp_RTT cost) < rtt_Min (cp_RTT cost) then Some BadRTTRange
         else if cp_RxCost cost = 0 \<or> saturatingAdd (cp_RxCost cost) (rtt_Weight (cp_RTT cost)) = MetricInfinity
         then Some BadCost else None)"

subsection \<open>Neighbours\<close>

text \<open>A route is indexed by its source prefix, invalid for an ordinary route, and its destination.\<close>

record routeKey =
  rk_source :: prefix
  rk_dest :: prefix

record neighborState =
  nb_peer :: nat
  nb_peerID :: string
  nb_addr :: addr
  nb_alive :: bool
  nb_lastHelloTime :: time
  nb_helloInterval :: duration
  nb_unicastHelloTime :: time
  nb_unicastHelloInterval :: duration
  nb_history :: helloHistory
  nb_nextHelloDue :: time
  nb_heard :: bool
  nb_theirHelloTxTS :: u32
  nb_theirHelloRxTS :: u32
  nb_haveTheirHello :: bool
  nb_sentHello :: bool
  nb_helloSeqno :: u16
  nb_owed :: "routeKey list"
  nb_reportedCost :: u16
  nb_haveReportedCost :: bool
  nb_ihuExpiry :: time
  nb_measuredRTT :: duration
  nb_haveRTT :: bool
  nb_rttExpiry :: time
  nb_lastFullDump :: time
  nb_advertised :: "routeKey list"

definition deadTimeout :: "duration \<Rightarrow> duration" where "deadTimeout interval = interval * 7 div 2"

definition helloExpiry :: "neighborState \<Rightarrow> time" where
  "helloExpiry n =
     (let deadline = (if nb_helloInterval n > 0 then nb_lastHelloTime n + deadTimeout (nb_helloInterval n) else 0)
      in if nb_unicastHelloInterval n > 0
         then let unicast = nb_unicastHelloTime n + deadTimeout (nb_unicastHelloInterval n)
              in if unicast > deadline then unicast else deadline
         else deadline)"

definition isAlive :: "neighborState \<Rightarrow> time \<Rightarrow> bool" where
  "isAlive n now = (nb_alive n \<and> now < helloExpiry n)"

definition forgetLink :: "neighborState \<Rightarrow> neighborState" where
  "forgetLink n = n\<lparr>nb_history := noHistory, nb_nextHelloDue := 0, nb_lastHelloTime := 0, nb_helloInterval := 0,
     nb_unicastHelloTime := 0, nb_unicastHelloInterval := 0\<rparr>"

definition linkCost :: "neighborState \<Rightarrow> time \<Rightarrow> CostParams \<Rightarrow> u16" where
  "linkCost n now cost =
     (if \<not> isAlive n now \<or> \<not> nb_haveReportedCost n \<or> \<not> now < nb_ihuExpiry n then MetricInfinity
      else saturatingAdd (linkQualityCost cost (nb_history n) (nb_reportedCost n))
             (RTTPenalty cost (nb_measuredRTT n) (nb_haveRTT n)))"

section \<open>The history as a list of outcomes\<close>

text \<open>Most recent outcome first; at most sixteen are kept.\<close>

definition hist :: "helloHistory \<Rightarrow> bool list" where
  "hist h = map (bit (hh_bits h)) [0..<hh_samples h]"

definition hist_ok :: "helloHistory \<Rightarrow> bool" where
  "hist_ok h \<longleftrightarrow> hh_samples h \<le> 16 \<and> (\<forall>i\<ge>hh_samples h. \<not> bit (hh_bits h) i)"

datatype hello_event = Arrived u16 | Missed

definition hello_step :: "helloHistory \<Rightarrow> hello_event \<Rightarrow> helloHistory" where
  "hello_step h ev = (case ev of
     Arrived s \<Rightarrow> (case hh_record h s of (True, h') \<Rightarrow> h' | (False, _) \<Rightarrow> snd (hh_record noHistory s))
   | Missed \<Rightarrow> missed h)"

fun outcome_step :: "(u16 \<times> bool list) option \<Rightarrow> hello_event \<Rightarrow> (u16 \<times> bool list) option" where
  "outcome_step None (Arrived s) = Some (s + 1, [True])"
| "outcome_step None Missed = None"
| "outcome_step (Some (e, l)) (Arrived s) =
     (if s - e \<le> 16 then Some (s + 1, take 16 (True # replicate (unat (s - e)) False @ l))
      else if e - s \<le> 16 then Some (s + 1, take 16 (True # drop (unat (e - s)) l))
      else Some (s + 1, [True]))"
| "outcome_step (Some (e, l)) Missed = Some (e + 1, take 16 (False # l))"

definition outcomes :: "helloHistory \<Rightarrow> (u16 \<times> bool list) option" where
  "outcomes h = (if hh_started h then Some (hh_expected h, hist h) else None)"

lemma length_hist [simp]: "length (hist h) = hh_samples h"
  by (simp add: hist_def)

lemma hist_nth: "i < hh_samples h \<Longrightarrow> hist h ! i = bit (hh_bits h) i"
  by (simp add: hist_def)

lemma shiftIn_sel [simp]: "hh_started (shiftIn h b k) = hh_started h" "hh_expected (shiftIn h b k) = hh_expected h"
  by (simp_all add: shiftIn_def)

lemma shiftIn_hist:
  assumes ok: "hist_ok h" and b: "b = 0 \<or> b = 1 \<and> k = 1"
  shows "hist_ok (shiftIn h b k)" "hist (shiftIn h b k) = take 16 (replicate k (b = 1) @ hist h)"
proof -
  have s16: "hh_samples h \<le> 16" and hi: "\<And>i. hh_samples h \<le> i \<Longrightarrow> \<not> bit (hh_bits h) i"
    using ok by (auto simp: hist_ok_def)
  have b1: "bit b i \<longleftrightarrow> b = 1 \<and> i = 0" for i using b by (auto simp: bit_1_iff)
  have "hist_ok (shiftIn h b k) \<and> hist (shiftIn h b k) = take 16 (replicate k (b = 1) @ hist h)"
  proof (cases "k \<ge> 16")
    case True
    then have "b = 0" using b by auto
    then have z: "hh_bits (shiftIn h b k) = 0" "hh_samples (shiftIn h b k) = 16"
      using True by (simp_all add: shiftIn_def historyDepth_def)
    have h: "hist (shiftIn h b k) = replicate 16 False"
      by (rule nth_equalityI) (simp_all add: z hist_nth)
    have "hist_ok (shiftIn h b k)" by (simp add: hist_ok_def z)
    moreover note h
    moreover
    have "take 16 (replicate k (b = 1) @ hist h) = replicate 16 False" using True \<open>b = 0\<close> by (simp add: min_def)
    ultimately show ?thesis by simp
  next
    case False
    let ?h = "shiftIn h b k"
    have sel: "hh_bits ?h = push_bit k (hh_bits h) OR b" "hh_samples ?h = min (hh_samples h + k) 16"
      using False by (simp_all add: shiftIn_def historyDepth_def)
    have bits: "bit (hh_bits ?h) i \<longleftrightarrow> i < 16 \<and> k \<le> i \<and> bit (hh_bits h) (i - k) \<or> b = 1 \<and> i = 0" for i
      unfolding sel by (auto simp: bit_or_iff bit_push_bit_iff b1)
    have "hist_ok ?h"
      unfolding hist_ok_def sel(2) using hi b by (auto simp: bits)
    moreover have "hist ?h = take 16 (replicate k (b = 1) @ hist h)"
    proof (rule nth_equalityI)
      show "length (hist ?h) = length (take 16 (replicate k (b = 1) @ hist h))" by (simp add: sel(2) add.commute)
      fix i assume "i < length (hist ?h)"
      then have i: "i < 16" "i < hh_samples h + k" by (simp_all add: sel(2))
      then show "hist ?h ! i = take 16 (replicate k (b = 1) @ hist h) ! i"
        using b by (cases "i < k") (auto simp: hist_nth sel(2) bits nth_append)
    qed
    ultimately show ?thesis ..
  qed
  then show "hist_ok (shiftIn h b k)" "hist (shiftIn h b k) = take 16 (replicate k (b = 1) @ hist h)" by simp_all
qed

lemma hist_cong: "hh_bits h = hh_bits g \<Longrightarrow> hh_samples h = hh_samples g \<Longrightarrow> hist h = hist g \<and> hist_ok h = hist_ok g"
  by (simp add: hist_def hist_ok_def)

lemma hist_expected [simp]: "hist (h\<lparr>hh_expected := e\<rparr>) = hist h" "hist_ok (h\<lparr>hh_expected := e\<rparr>) = hist_ok h"
  by (simp_all add: hist_def hist_ok_def)

lemma undo_hist:
  assumes "hist_ok h"
  shows "hist_ok (h\<lparr>hh_bits := drop_bit k (hh_bits h), hh_samples := hh_samples h - k\<rparr>)"
    "hist (h\<lparr>hh_bits := drop_bit k (hh_bits h), hh_samples := hh_samples h - k\<rparr>) = drop k (hist h)"
proof -
  show "hist_ok (h\<lparr>hh_bits := drop_bit k (hh_bits h), hh_samples := hh_samples h - k\<rparr>)"
    using assms by (auto simp: hist_ok_def bit_drop_bit_eq)
  show "hist (h\<lparr>hh_bits := drop_bit k (hh_bits h), hh_samples := hh_samples h - k\<rparr>) = drop k (hist h)"
    by (rule nth_equalityI) (auto simp: hist_def bit_drop_bit_eq)
qed

lemma first_hist:
  "hist_ok \<lparr>hh_bits = 1, hh_expected = e, hh_started = True, hh_samples = 1\<rparr>"
  "hist \<lparr>hh_bits = 1, hh_expected = e, hh_started = True, hh_samples = 1\<rparr> = [True]"
  by (auto simp: hist_ok_def hist_def bit_1_iff)

lemma hello_step_refines:
  assumes "hist_ok h"
  shows "hist_ok (hello_step h ev) \<and> outcomes (hello_step h ev) = outcome_step (outcomes h) ev"
proof (cases ev)
  case (Arrived s)
  show ?thesis
  proof (cases "hh_started h")
    case False
    then show ?thesis using Arrived by (simp add: hello_step_def hh_record_def outcomes_def first_hist [simplified])
  next
    case True
    let ?a = "s - hh_expected h" and ?b = "hh_expected h - s"
    consider "?a \<le> 16" | "\<not> ?a \<le> 16" "?b \<le> 16" | "\<not> ?a \<le> 16" "\<not> ?b \<le> 16" by blast
    then show ?thesis
    proof cases
      case 1
      note z = shiftIn_hist [OF assms, of 0 "unat ?a", simplified]
      note o = shiftIn_hist [OF z(1), of 1 1, simplified]
      have "min 15 (min 16 x) = min 15 x" "15 - min 16 x = 15 - x" for x :: nat by auto
      then show ?thesis using 1 True Arrived o z
        by (simp add: hello_step_def hh_record_def outcomes_def rebootDrift_def Let_def)
    next
      case 2
      note u = undo_hist [OF assms, of "unat ?b"]
      note o = shiftIn_hist [OF u(1), of 1 1, simplified]
      show ?thesis using 2 True Arrived o u
        by (simp add: hello_step_def hh_record_def outcomes_def rebootDrift_def Let_def)
    next
      case 3
      then show ?thesis using True Arrived
        by (simp add: hello_step_def hh_record_def outcomes_def rebootDrift_def noHistory_def first_hist [simplified])
    qed
  qed
next
  case Missed
  then show ?thesis using shiftIn_hist [OF assms, of 0 1, simplified] assms
    by (simp add: hello_step_def missed_def outcomes_def)
qed

lemma hello_history_refines:
  "hist_ok (foldl hello_step noHistory es) \<and> outcomes (foldl hello_step noHistory es) = foldl outcome_step None es"
proof (induction es rule: rev_induct)
  case Nil
  then show ?case by (simp add: hist_ok_def noHistory_def outcomes_def)
next
  case (snoc ev es)
  then show ?case using hello_step_refines by simp
qed

lemma beta_hist:
  assumes "hist_ok h" "outcomes h = Some (e, l)"
  shows "beta h = Some (length (filter id l), length l)" "length l \<le> 16"
proof -
  have l: "l = hist h" "hh_started h" using assms(2) by (auto simp: outcomes_def split: if_splits)
  have s: "hh_samples h \<le> 16" using assms(1) by (simp add: hist_ok_def)
  have t: "hh_bits h AND push_bit i 1 \<noteq> 0 \<longleftrightarrow> bit (hh_bits h) i" for i
    by (simp add: bit_iff_and_push_bit_not_eq_0)
  have "foldl (\<lambda>received i. if bit w i then received + 1 else received) c xs = c + length (filter id (map (bit w) xs))"
    for c xs and w :: u16 by (induction xs arbitrary: c) auto
  then show "beta h = Some (length (filter id l), length l)"
    unfolding beta_def t using s l by (simp add: betaWindow_def historyDepth_def Let_def hist_def min_absorb2)
  show "length l \<le> 16" using s l by simp
qed


section \<open>Costs as numbers\<close>

lemma u16_lt: "unat (x :: u16) < 65536"
  using unsigned_less [of x] by simp

lemma unat_up: "unat (ucast (x :: u16) :: u64) = unat x" "unat (ucast (x :: u16) :: u32) = unat x"
  using u16_lt [of x] by (simp_all add: unsigned_ucast_eq take_bit_nat_eq_self)

lemma metric_le: "unat (x :: u16) \<le> 65535" "x = MetricInfinity \<longleftrightarrow> unat x = 65535"
  using u16_lt [of x] by (auto simp: MetricInfinity_def word_unat_eq_iff)

lemma saturatingAdd_unat: "unat (saturatingAdd a b) = min 65535 (unat a + unat b)"
proof (cases "a = MetricInfinity \<or> b = MetricInfinity")
  case True
  then show ?thesis by (auto simp: saturatingAdd_def MetricInfinity_def)
next
  case False
  let ?s = "ucast a + ucast b :: u32"
  have s: "unat ?s = unat a + unat b" using u16_lt [of a] u16_lt [of b] by (subst unat_plus_le) (simp_all add: unat_up)
  have m: "?s \<ge> ucast MetricInfinity \<longleftrightarrow> 65535 \<le> unat a + unat b"
    by (simp add: word_le_nat_alt s unat_up MetricInfinity_def)
  show ?thesis
  proof (cases "65535 \<le> unat a + unat b")
    case True
    then show ?thesis using False m by (simp add: saturatingAdd_def MetricInfinity_def Let_def)
  next
    case l: False
    then have "unat (ucast ?s :: u16) = unat a + unat b" by (simp add: unsigned_ucast_eq take_bit_nat_eq_self s)
    then show ?thesis using False m l by (simp add: saturatingAdd_def Let_def)
  qed
qed

lemma scaleCost_unat:
  assumes "window \<le> 16" "0 < received" "received \<le> 16"
  shows "unat (scaleCost base window received) = min 65535 (unat base * window div received)"
proof -
  let ?s = "ucast base * of_nat window div of_nat received :: u64"
  have w: "unat (of_nat window :: u64) = window" "unat (of_nat received :: u64) = received"
    using assms by (simp_all add: unsigned_of_nat take_bit_nat_eq_self)
  have "unat base * window < 65536 * 17" using u16_lt [of base] assms(1) by (intro mult_strict_mono) auto
  then have "unat (ucast base * of_nat window :: u64) = unat base * window" by (simp add: unat_word_ariths w unat_up)
  then have s: "unat ?s = unat base * window div received" by (simp add: unat_div_word w)
  have m: "?s \<ge> ucast MetricInfinity \<longleftrightarrow> 65535 \<le> unat base * window div received"
    by (simp add: word_le_nat_alt s unat_up MetricInfinity_def)
  show ?thesis
  proof (cases "65535 \<le> unat base * window div received")
    case True
    then show ?thesis using m by (simp add: scaleCost_def Let_def MetricInfinity_def)
  next
    case False
    then have "unat (ucast ?s :: u16) = unat base * window div received"
      by (simp add: unsigned_ucast_eq take_bit_nat_eq_self s)
    then show ?thesis using False m by (simp add: scaleCost_def Let_def)
  qed
qed

text \<open>
  C19. The advertised cost is the ETX of what happened: after any sequence of Hellos that arrive and Hellos
  that are missed, with wrapping sequence numbers, corrections when the sender slowed down and restarts
  on a reboot, the cost in the IHU is the nominal cost times outcomes over arrivals, computed on the list of
  the last sixteen outcomes and saturating at infinity; a link that lost nothing costs exactly the
  nominal.
\<close>

theorem advertised_cost_exact:
  assumes "foldl outcome_step None es = Some (e, l)" "cp_Quality p = LinkQualityETX"
  shows "unat (rxCost p (foldl hello_step noHistory es)) =
      (if True \<in> set l then min 65535 (unat (cp_RxCost p) * length l div length (filter id l)) else 65535) \<and>
    (False \<notin> set l \<and> l \<noteq> [] \<longrightarrow> rxCost p (foldl hello_step noHistory es) = cp_RxCost p)"
proof -
  let ?h = "foldl hello_step noHistory es"
  have h: "hist_ok ?h" "outcomes ?h = Some (e, l)" using hello_history_refines [of es] assms(1) by simp_all
  note b = beta_hist [OF h]
  have pos: "length (filter id l) = 0 \<longleftrightarrow> True \<notin> set l" by (auto simp: filter_empty_conv)
  have le: "length (filter id l) \<le> 16" using b(2) length_filter_le [of id l] by linarith
  have c: "unat (rxCost p ?h) =
      (if True \<in> set l then min 65535 (unat (cp_RxCost p) * length l div length (filter id l)) else 65535)"
    using assms(2) b pos le scaleCost_unat [OF b(2), of "length (filter id l)" "cp_RxCost p"]
    by (auto simp: rxCost_def MetricInfinity_def)
  moreover have "rxCost p ?h = cp_RxCost p" if "False \<notin> set l" "l \<noteq> []"
  proof -
    have "filter id l = l" using that(1) by (induction l) auto
    moreover have "True \<in> set l" using that by (cases l) auto
    ultimately have "unat (rxCost p ?h) = min 65535 (unat (cp_RxCost p))" using c that(2) by simp
    then show ?thesis using metric_le(1) [of "cp_RxCost p"] by (simp add: word_unat_eq_iff)
  qed
  ultimately show ?thesis by blast
qed

theorem advertised_cost_exact_witness:
  "unat (rxCost DefaultCostParams (foldl hello_step noHistory [Arrived 65535, Missed, Arrived 1, Arrived 2])) = 128"
proof -
  have "foldl outcome_step None [Arrived 65535, Missed, Arrived 1, Arrived 2] = Some (3, [True, True, False, True])"
    by code_simp
  from advertised_cost_exact [OF this, of DefaultCostParams] show ?thesis by (simp add: DefaultCostParams_def)
qed

section \<open>The round-trip penalty\<close>

definition penalty :: "nat \<Rightarrow> int \<Rightarrow> int \<Rightarrow> int \<Rightarrow> int" where
  "penalty w low high rtt =
     (if high \<le> low \<or> rtt \<le> low then 0 else if high \<le> rtt then int w else int w * (rtt - low) div (high - low))"

lemma RTTPenalty_unat:
  assumes "0 \<le> rtt_Min (cp_RTT p)" "rtt_Max (cp_RTT p) < 2 ^ 63" "rtt \<le> rttTimestampHorizon"
  shows "int (unat (RTTPenalty p rtt True)) = penalty (unat (rtt_Weight (cp_RTT p))) (rtt_Min (cp_RTT p)) (rtt_Max (cp_RTT p)) rtt"
proof -
  let ?w = "rtt_Weight (cp_RTT p)" and ?low = "rtt_Min (cp_RTT p)" and ?high = "rtt_Max (cp_RTT p)"
  show ?thesis
  proof (cases "?high \<le> ?low \<or> rtt \<le> ?low \<or> ?high \<le> rtt \<or> ?w = 0")
    case True
    then show ?thesis by (auto simp: RTTPenalty_def penalty_def Let_def)
  next
    case False
    then have b: "?low < rtt" "rtt < ?high" by auto
    define a d where "a = nat (rtt - ?low)" and "d = nat (?high - ?low)"
    have ad: "int a = rtt - ?low" "int d = ?high - ?low" "a < d" "0 < d" using b by (auto simp: a_def d_def)
    have "rtt \<le> 180000000000" using assms(3) by (simp add: rttTimestampHorizon_def)
    then have a: "a \<le> 180000000000" using assms(1) by (simp add: a_def)
    have d: "d < 2 ^ 63" using assms(1,2) by (simp add: d_def)
    have u: "unat (of_int (rtt - ?low) :: u64) = a" "unat (of_int (?high - ?low) :: u64) = d"
      unfolding ad(1,2) [symmetric] using a d by (simp_all add: unsigned_of_nat take_bit_nat_eq_self)
    have "unat ?w * a < 65536 * 180000000001" using u16_lt [of ?w] a by (intro mult_strict_mono) auto
    then have "unat (ucast ?w * of_int (rtt - ?low) :: u64) = unat ?w * a"
      by (simp only: unat_word_ariths u unat_up) simp
    then have q: "unat (ucast ?w * of_int (rtt - ?low) div of_int (?high - ?low) :: u64) = unat ?w * a div d"
      by (simp only: unat_div_word u)
    have "unat ?w * a div d \<le> unat ?w"
    proof -
      have "unat ?w * a div d \<le> unat ?w * d div d" using ad(3) by (intro div_le_mono mult_le_mono2) simp
      then show ?thesis using ad(4) by simp
    qed
    then have "unat (ucast (ucast ?w * of_int (rtt - ?low) div of_int (?high - ?low) :: u64) :: u16) = unat ?w * a div d"
      using u16_lt [of ?w] by (simp only: unsigned_ucast_eq q) (simp add: take_bit_nat_eq_self)
    then show ?thesis using False
      by (simp add: RTTPenalty_def penalty_def Let_def ad(1,2) [symmetric] zdiv_int of_nat_mult)
  qed
qed

lemma penalty_le: "penalty w low high rtt \<le> int w" "0 \<le> penalty w low high rtt"
proof -
  have "int w * (rtt - low) div (high - low) \<le> int w" if "low < rtt" "rtt < high"
  proof -
    have "int w * (rtt - low) div (high - low) \<le> int w * (high - low) div (high - low)"
      using that by (intro zdiv_mono1 mult_left_mono) auto
    then show ?thesis using that by simp
  qed
  then show "penalty w low high rtt \<le> int w" by (auto simp: penalty_def)
  show "0 \<le> penalty w low high rtt" by (auto simp: penalty_def intro!: div_int_pos_iff [THEN iffD2])
qed

lemma penalty_mono: "rtt \<le> rtt' \<Longrightarrow> penalty w low high rtt \<le> penalty w low high rtt'"
proof -
  assume le: "rtt \<le> rtt'"
  show ?thesis
  proof (cases "low < rtt \<and> rtt' < high")
    case True
    then show ?thesis using le by (auto simp: penalty_def intro!: zdiv_mono1 mult_left_mono)
  next
    case False
    then have "penalty w low high rtt = 0 \<or> penalty w low high rtt' = int w" using le by (auto simp: penalty_def)
    then show ?thesis using penalty_le [of w low high] by auto
  qed
qed


definition emptyConfig :: Config where
  "emptyConfig = \<lparr>cf_Hello = 0, cf_Update = 0, cf_Quality = LinkQualityETX,
     cf_Cost = \<lparr>co_Rx = None, co_Weight = None, co_Min = None, co_Max = None\<rparr>\<rparr>"


end
