(* ===== verification/Babel_Route.thy ===== *)
theory Babel_Route
  imports Babel_Cost Complex_Main "HOL-Library.AList" "HOL-Library.List_Lexorder" "HOL-Library.Char_ord"
begin

text \<open>
  The Babel route and source tables, \<open>internal/babel/route.go\<close> and \<open>internal/babel/source.go\<close>:
  feasibility, acquisition, selection, expiry and retraction of routes, and the feasibility distances
  with the shares of the source table each prefix and neighbour has spent.

  A neighbour is the address of its state in a store \<open>nb\<close>; the maps that are iterated are association
  lists, whose order is the iteration order. The callbacks \<open>install\<close> and \<open>forget\<close> append to a list of events. The smoothed
  metric is a real number in place of a \<open>float64\<close>, and \<open>mexp elapsed tau\<close> stands for
  \<open>math.Exp(-elapsed/tau)\<close>. The flags that keep a warning from repeating in the log are left out.
\<close>

section \<open>Model\<close>

record advertisement =
  adv_routerID :: routerid
  adv_seqno :: u16
  adv_metric :: u16

record routeInfo =
  ri_routerID :: routerid
  ri_seqno :: u16
  ri_rxMetric :: u16
  ri_hold :: duration
  ri_expiresAt :: time
  ri_smoothed :: real
  ri_smoothedAt :: time

record routeSelection =
  sel_neighbor :: "nat option"
  sel_cost :: u16
  sel_routerID :: routerid
  sel_seqno :: u16

definition noSelection :: routeSelection where
  "noSelection = \<lparr>sel_neighbor = None, sel_cost = 0, sel_routerID = 0, sel_seqno = 0\<rparr>"

record keyEntry =
  ke_routes :: "(nat \<times> routeInfo) list"
  ke_selected :: routeSelection
  ke_retractID :: routerid
  ke_retractSeqno :: u16

definition maxRouteKeys :: nat where "maxRouteKeys = 16384"

record starveRequest =
  sv_key :: routeKey
  sv_neighbor :: nat
  sv_routerID :: routerid
  sv_seqno :: u16

type_synonym sourceKey = "routeKey \<times> routerid"

record sourceEntry =
  se_seqno :: u16
  se_metric :: u16
  se_gcAt :: time
  se_owner :: string

definition sourceGCTime :: duration where "sourceGCTime = 180000 * millisecond"
definition maxSources :: nat where "maxSources = 65536"
definition maxOriginsPerPrefix :: nat where "maxOriginsPerPrefix = 1024"
definition maxOriginsPerPrefixPerNeighbor :: nat where "maxOriginsPerPrefixPerNeighbor = 256"
definition maxSourcesPerNeighbor :: nat where "maxSourcesPerNeighbor = 8192"

type_synonym originShare = "routeKey \<times> string"

datatype route_event = Install routeKey routeSelection | Forget routeKey

record routeTable =
  rt_entries :: "(routeKey \<times> keyEntry) list"
  rt_sources :: "(sourceKey \<times> sourceEntry) list"
  rt_retracted :: "nat set"
  rt_originsPerKey :: "routeKey \<rightharpoonup> nat"
  rt_originsBy :: "originShare \<rightharpoonup> nat"
  rt_sourcesByPeer :: "string \<rightharpoonup> nat"
  rt_dirty :: "routeKey list"
  rt_starved :: "starveRequest list"
  rt_tau :: duration
  rt_trigger :: u16
  rt_cost :: CostParams
  rt_events :: "route_event list"
  rt_nextExpiryAt :: time

definition newRouteTable :: "duration \<Rightarrow> u16 \<Rightarrow> CostParams \<Rightarrow> routeTable" where
  "newRouteTable tau trigger cost = \<lparr>rt_entries = [], rt_sources = [], rt_retracted = {}, rt_originsPerKey = Map.empty,
     rt_originsBy = Map.empty, rt_sourcesByPeer = Map.empty, rt_dirty = [], rt_starved = [], rt_tau = tau,
     rt_trigger = trigger, rt_cost = cost, rt_events = [], rt_nextExpiryAt = 0\<rparr>"

subsection \<open>Source table\<close>

definition seqnoGT :: "u16 \<Rightarrow> u16 \<Rightarrow> bool" where "seqnoGT a b = (sint (a - b) > 0)"

definition better :: "sourceEntry \<Rightarrow> u16 \<Rightarrow> u16 \<Rightarrow> bool" where
  "better e seqno metric = (seqnoGT seqno (se_seqno e) \<or> (seqno = se_seqno e \<and> metric < se_metric e))"

definition feasible :: "routeTable \<Rightarrow> routeKey \<Rightarrow> advertisement \<Rightarrow> string \<Rightarrow> bool" where
  "feasible rt key adv from =
     (if adv_metric adv = MetricInfinity then True
      else case map_of (rt_sources rt) (key, adv_routerID adv) of
        None \<Rightarrow>
          if length (rt_sources rt) \<ge> maxSources then False
          else if count_of (rt_originsPerKey rt) key \<ge> maxOriginsPerPrefix then False
          else if count_of (rt_sourcesByPeer rt) from \<ge> maxSourcesPerNeighbor then False
          else if count_of (rt_originsBy rt) (key, from) \<ge> maxOriginsPerPrefixPerNeighbor then False
          else True
      | Some entry \<Rightarrow> better entry (adv_seqno adv) (adv_metric adv))"

definition releaseOrigin :: "routeTable \<Rightarrow> routeKey \<Rightarrow> string \<Rightarrow> routeTable" where
  "releaseOrigin rt key owner =
     rt\<lparr>rt_originsBy := count_dec (rt_originsBy rt) (key, owner),
        rt_sourcesByPeer := count_dec (rt_sourcesByPeer rt) owner\<rparr>"

definition observe :: "routeTable \<Rightarrow> routeKey \<Rightarrow> advertisement \<Rightarrow> string \<Rightarrow> time \<Rightarrow> routeTable" where
  "observe rt key adv from now =
     (if adv_metric adv = MetricInfinity then rt
      else let index = (key, adv_routerID adv)
      in case map_of (rt_sources rt) index of
        None \<Rightarrow>
          rt\<lparr>rt_sources := AList.update index \<lparr>se_seqno = adv_seqno adv, se_metric = adv_metric adv,
               se_gcAt = now + sourceGCTime, se_owner = from\<rparr> (rt_sources rt),
             rt_originsPerKey := count_inc (rt_originsPerKey rt) key,
             rt_originsBy := count_inc (rt_originsBy rt) (key, from),
             rt_sourcesByPeer := count_inc (rt_sourcesByPeer rt) from\<rparr>
      | Some entry \<Rightarrow>
          let entry = (if better entry (adv_seqno adv) (adv_metric adv)
                       then entry\<lparr>se_seqno := adv_seqno adv, se_metric := adv_metric adv\<rparr> else entry);
              rt = (if se_owner entry \<noteq> from
                    then let rt = releaseOrigin rt key (se_owner entry)
                         in rt\<lparr>rt_originsBy := count_inc (rt_originsBy rt) (key, from),
                               rt_sourcesByPeer := count_inc (rt_sourcesByPeer rt) from\<rparr>
                    else rt)
          in rt\<lparr>rt_sources := AList.update index (entry\<lparr>se_owner := from, se_gcAt := now + sourceGCTime\<rparr>) (rt_sources rt)\<rparr>)"

definition requestSeqno :: "routeTable \<Rightarrow> routeKey \<Rightarrow> advertisement \<Rightarrow> u16" where
  "requestSeqno rt key adv =
     (case map_of (rt_sources rt) (key, adv_routerID adv) of
        Some entry \<Rightarrow> se_seqno entry + 1 | None \<Rightarrow> adv_seqno adv + 1)"

definition sweepSource :: "time \<Rightarrow> routeTable \<Rightarrow> sourceKey \<times> sourceEntry \<Rightarrow> routeTable" where
  "sweepSource now rt = (\<lambda>(index, entry).
     if now < se_gcAt entry then rt
     else releaseOrigin
       (rt\<lparr>rt_sources := AList.delete index (rt_sources rt),
           rt_originsPerKey := count_dec (rt_originsPerKey rt) (fst index)\<rparr>) (fst index) (se_owner entry))"

definition sweepSources :: "routeTable \<Rightarrow> time \<Rightarrow> routeTable" where
  "sweepSources rt now = foldl (sweepSource now) rt (rt_sources rt)"

subsection \<open>Selection\<close>

definition selectionFor :: "(nat \<times> routeInfo) list \<Rightarrow> nat \<Rightarrow> u16 \<Rightarrow> routeSelection" where
  "selectionFor routes n cost =
     (case map_of routes n of
        Some route \<Rightarrow> \<lparr>sel_neighbor = Some n, sel_cost = cost, sel_routerID = ri_routerID route, sel_seqno = ri_seqno route\<rparr>
      | None \<Rightarrow> noSelection)"

definition advertised :: "routeInfo \<Rightarrow> advertisement" where
  "advertised r = \<lparr>adv_routerID = ri_routerID r, adv_seqno = ri_seqno r, adv_metric = ri_rxMetric r\<rparr>"

definition route_cost :: "routeInfo \<Rightarrow> neighborState \<Rightarrow> time \<Rightarrow> CostParams \<Rightarrow> u16" where
  "route_cost r n now cost = saturatingAdd (max 1 (linkCost n now cost)) (ri_rxMetric r)"

definition smooth :: "(int \<Rightarrow> int \<Rightarrow> real) \<Rightarrow> routeInfo \<Rightarrow> u16 \<Rightarrow> time \<Rightarrow> duration \<Rightarrow> routeInfo" where
  "smooth mexp r cost now tau =
     (let elapsed = now - ri_smoothedAt r; c = real (unat cost);
          s = (if ri_smoothedAt r = 0 \<or> tau \<le> 0 \<or> c \<ge> ri_smoothed r then c
               else if elapsed > 0 then c + (ri_smoothed r - c) * mexp elapsed tau
               else ri_smoothed r)
      in r\<lparr>ri_smoothed := max s c, ri_smoothedAt := now\<rparr>)"

definition earlier :: "time \<Rightarrow> time \<Rightarrow> time" where
  "earlier a b = (if a = 0 \<or> (b \<noteq> 0 \<and> b < a) then b else a)"

definition significant :: "u16 \<Rightarrow> routeSelection \<Rightarrow> routeSelection \<Rightarrow> bool" where
  "significant trigger old new =
     (if (sel_neighbor old = None) \<noteq> (sel_neighbor new = None) then True
      else if sel_neighbor new = None then False
      else if sel_neighbor old \<noteq> sel_neighbor new \<or> sel_routerID old \<noteq> sel_routerID new \<or> sel_seqno old \<noteq> sel_seqno new
      then True
      else sel_cost new > sel_cost old \<and> (ucast (sel_cost new) - ucast (sel_cost old) :: u32) \<ge> ucast trigger)"

text \<open>The candidates the selection loop has seen: neighbour, cost, smoothed cost.\<close>

type_synonym candidate = "nat \<times> u16 \<times> real"

record selectAcc =
  sa_best :: "candidate option"
  sa_incumbent :: "candidate option"
  sa_unfeasible :: "nat list"
  sa_expiry :: time

definition betterCandidate :: "(nat \<Rightarrow> neighborState) \<Rightarrow> candidate option \<Rightarrow> nat \<Rightarrow> u16 \<Rightarrow> bool" where
  "betterCandidate nb best n cost =
     (case best of None \<Rightarrow> True
      | Some (m, bestCost, _) \<Rightarrow> cost < bestCost \<or> (cost = bestCost \<and> nb_peerID (nb n) < nb_peerID (nb m)))"

fun selectLoop ::
  "(nat \<Rightarrow> neighborState) \<Rightarrow> (int \<Rightarrow> int \<Rightarrow> real) \<Rightarrow> routeTable \<Rightarrow> routeKey \<Rightarrow> nat option \<Rightarrow> time \<Rightarrow>
    (nat \<times> routeInfo) list \<Rightarrow> selectAcc \<Rightarrow> (nat \<times> routeInfo) list \<times> selectAcc" where
  "selectLoop nb mexp rt key selected now [] acc = ([], acc)"
| "selectLoop nb mexp rt key selected now ((n, route) # rest) acc =
     (if \<not> now < ri_expiresAt route \<and> ri_rxMetric route = MetricInfinity
      then selectLoop nb mexp rt key selected now rest acc
      else let route = (if \<not> now < ri_expiresAt route
                        then route\<lparr>ri_rxMetric := MetricInfinity, ri_expiresAt := now + ri_hold route\<rparr> else route);
               acc = acc\<lparr>sa_expiry := earlier (sa_expiry acc) (ri_expiresAt route)\<rparr>;
               cost = route_cost route (nb n) now (rt_cost rt);
               (route, acc) =
                 (if cost = MetricInfinity then (route, acc)
                  else let route = smooth mexp route cost now (rt_tau rt)
                    in if \<not> feasible rt key (advertised route) (nb_peerID (nb n))
                       then (route, acc\<lparr>sa_unfeasible := sa_unfeasible acc @ [n]\<rparr>)
                       else let acc = (if Some n = selected
                                       then acc\<lparr>sa_incumbent := Some (n, cost, ri_smoothed route)\<rparr> else acc);
                                acc = (if betterCandidate nb (sa_best acc) n cost
                                       then acc\<lparr>sa_best := Some (n, cost, ri_smoothed route)\<rparr> else acc)
                            in (route, acc));
               (routes, acc) = selectLoop nb mexp rt key selected now rest acc
           in ((n, route) # routes, acc))"

definition chooseSelection :: "(nat \<times> routeInfo) list \<Rightarrow> selectAcc \<Rightarrow> routeSelection" where
  "chooseSelection routes acc =
     (case sa_best acc of
        None \<Rightarrow> noSelection
      | Some (best, bestCost, bestSmoothed) \<Rightarrow>
          (case sa_incumbent acc of
             None \<Rightarrow> selectionFor routes best bestCost
           | Some (incumbent, incumbentCost, incumbentSmoothed) \<Rightarrow>
               if best = incumbent then selectionFor routes best bestCost
               else if bestCost < incumbentCost \<and> bestSmoothed < incumbentSmoothed then selectionFor routes best bestCost
               else selectionFor routes incumbent incumbentCost))"

definition starve :: "routeTable \<Rightarrow> routeKey \<Rightarrow> nat \<Rightarrow> advertisement \<Rightarrow> routeTable" where
  "starve rt key n adv =
     rt\<lparr>rt_starved := rt_starved rt @ [\<lparr>sv_key = key, sv_neighbor = n, sv_routerID = adv_routerID adv,
        sv_seqno = requestSeqno rt key adv\<rparr>]\<rparr>"

definition flush :: "routeTable \<Rightarrow> routeKey \<Rightarrow> routeTable" where
  "flush rt key = rt\<lparr>rt_events := rt_events rt @ [Forget key]\<rparr>"

definition selectRoute ::
  "(nat \<Rightarrow> neighborState) \<Rightarrow> (int \<Rightarrow> int \<Rightarrow> real) \<Rightarrow> routeTable \<Rightarrow> routeKey \<Rightarrow> keyEntry \<Rightarrow> time \<Rightarrow> routeTable" where
  "selectRoute nb mexp rt key entry now =
     (let previous = ke_selected entry;
          (routes, acc) = selectLoop nb mexp rt key (sel_neighbor previous) now (ke_routes entry)
            \<lparr>sa_best = None, sa_incumbent = None, sa_unfeasible = [], sa_expiry = rt_nextExpiryAt rt\<rparr>;
          rt = rt\<lparr>rt_nextExpiryAt := sa_expiry acc\<rparr>;
          selected = chooseSelection routes acc;
          rt = (if sel_neighbor selected \<noteq> sel_neighbor previous
                then rt\<lparr>rt_events := rt_events rt @ [Install key selected]\<rparr> else rt);
          rt = (if significant (rt_trigger rt) previous selected then rt\<lparr>rt_dirty := List.insert key (rt_dirty rt)\<rparr> else rt);
          entry = (if sel_neighbor selected \<noteq> None
                   then entry\<lparr>ke_retractID := sel_routerID selected, ke_retractSeqno := sel_seqno selected\<rparr> else entry);
          entry = entry\<lparr>ke_routes := routes, ke_selected := selected\<rparr>;
          rt = (if sel_neighbor selected = None \<and> sel_neighbor previous \<noteq> None
                then foldl (\<lambda>rt n. case map_of routes n of Some r \<Rightarrow> starve rt key n (advertised r) | None \<Rightarrow> rt) rt (sa_unfeasible acc)
                else rt)
      in if routes = []
         then flush (rt\<lparr>rt_entries := AList.delete key (rt_entries rt), rt_dirty := List.insert key (rt_dirty rt)\<rparr>) key
         else rt\<lparr>rt_entries := AList.update key entry (rt_entries rt)\<rparr>)"

subsection \<open>Acquisition and retraction\<close>

definition forgetRetraction :: "routeTable \<Rightarrow> nat \<Rightarrow> routeTable" where
  "forgetRetraction rt n = rt\<lparr>rt_retracted := rt_retracted rt - {n}\<rparr>"

definition newRoute :: routeInfo where
  "newRoute = \<lparr>ri_routerID = 0, ri_seqno = 0, ri_rxMetric = 0, ri_hold = 0, ri_expiresAt = 0, ri_smoothed = 0, ri_smoothedAt = 0\<rparr>"

definition newKeyEntry :: keyEntry where
  "newKeyEntry = \<lparr>ke_routes = [], ke_selected = noSelection, ke_retractID = 0, ke_retractSeqno = 0\<rparr>"

definition storeRoute :: "routeInfo \<Rightarrow> advertisement \<Rightarrow> duration \<Rightarrow> time \<Rightarrow> routeInfo" where
  "storeRoute route adv hold now =
     (let retracting = (adv_metric adv = MetricInfinity \<and> ri_rxMetric route \<noteq> MetricInfinity);
          route = route\<lparr>ri_routerID := adv_routerID adv, ri_seqno := adv_seqno adv, ri_rxMetric := adv_metric adv\<rparr>
      in if adv_metric adv \<noteq> MetricInfinity then route\<lparr>ri_hold := hold, ri_expiresAt := now + hold\<rparr>
         else if retracting \<and> ri_hold route > 0 then route\<lparr>ri_expiresAt := now + ri_hold route\<rparr>
         else route)"

definition acquire ::
  "(nat \<Rightarrow> neighborState) \<Rightarrow> (int \<Rightarrow> int \<Rightarrow> real) \<Rightarrow> routeTable \<Rightarrow> nat \<Rightarrow> routeKey \<Rightarrow> keyEntry \<Rightarrow> routeInfo \<Rightarrow>
    advertisement \<Rightarrow> bool \<Rightarrow> duration \<Rightarrow> time \<Rightarrow> routeTable" where
  "acquire nb mexp rt n key entry route adv feas hold now =
     (let selected = (sel_neighbor (ke_selected entry) = Some n);
          entry = entry\<lparr>ke_routes := AList.update n (storeRoute route adv hold now) (ke_routes entry)\<rparr>;
          rt = rt\<lparr>rt_entries := AList.update key entry (rt_entries rt)\<rparr>;
          rt = (if \<not> feas \<and> selected then starve rt key n adv else rt)
      in selectRoute nb mexp rt key entry now)"

definition rt_update ::
  "(nat \<Rightarrow> neighborState) \<Rightarrow> (int \<Rightarrow> int \<Rightarrow> real) \<Rightarrow> routeTable \<Rightarrow> nat \<Rightarrow> routeKey \<Rightarrow> advertisement \<Rightarrow> duration \<Rightarrow> time \<Rightarrow>
    routeTable" where
  "rt_update nb mexp rt n key adv hold now =
     (let rt = (if adv_metric adv \<noteq> MetricInfinity then forgetRetraction rt n else rt);
          feas = feasible rt key adv (nb_peerID (nb n))
      in case map_of (rt_entries rt) key of
           None \<Rightarrow>
             if \<not> feas \<or> adv_metric adv = MetricInfinity \<or> hold \<le> 0 then rt
             else if length (rt_entries rt) \<ge> maxRouteKeys then rt
             else acquire nb mexp rt n key newKeyEntry newRoute adv feas hold now
         | Some entry \<Rightarrow>
             (case map_of (ke_routes entry) n of
                None \<Rightarrow>
                  if \<not> feas \<or> adv_metric adv = MetricInfinity \<or> hold \<le> 0 then rt
                  else acquire nb mexp rt n key entry newRoute adv feas hold now
              | Some route \<Rightarrow> acquire nb mexp rt n key entry route adv feas hold now))"

text \<open>A range over the entries: each key is visited once, with its entry at that moment.\<close>

definition forEntries :: "routeTable \<Rightarrow> (routeTable \<Rightarrow> routeKey \<Rightarrow> keyEntry \<Rightarrow> routeTable) \<Rightarrow> routeTable" where
  "forEntries rt f =
     foldl (\<lambda>rt key. case map_of (rt_entries rt) key of Some entry \<Rightarrow> f rt key entry | None \<Rightarrow> rt) rt (map fst (rt_entries rt))"

definition rt_route :: "routeTable \<Rightarrow> nat \<Rightarrow> routeKey \<Rightarrow> routeInfo option" where
  "rt_route rt n key = (case map_of (rt_entries rt) key of None \<Rightarrow> None | Some entry \<Rightarrow> map_of (ke_routes entry) n)"

definition recomputeNeighbor ::
  "(nat \<Rightarrow> neighborState) \<Rightarrow> (int \<Rightarrow> int \<Rightarrow> real) \<Rightarrow> routeTable \<Rightarrow> nat \<Rightarrow> time \<Rightarrow> routeTable" where
  "recomputeNeighbor nb mexp rt n now = forEntries rt (\<lambda>rt key entry.
     case map_of (ke_routes entry) n of Some _ \<Rightarrow> selectRoute nb mexp rt key entry now | None \<Rightarrow> rt)"

definition expireNeighbor ::
  "(nat \<Rightarrow> neighborState) \<Rightarrow> (int \<Rightarrow> int \<Rightarrow> real) \<Rightarrow> routeTable \<Rightarrow> nat \<Rightarrow> time \<Rightarrow> routeTable" where
  "expireNeighbor nb mexp rt n now =
     forEntries (rt\<lparr>rt_retracted := rt_retracted rt - {n}\<rparr>) (\<lambda>rt key entry.
       case map_of (ke_routes entry) n of
         Some _ \<Rightarrow> selectRoute nb mexp rt key (entry\<lparr>ke_routes := AList.delete n (ke_routes entry)\<rparr>) now
       | None \<Rightarrow> rt)"

definition retractNeighbor ::
  "(nat \<Rightarrow> neighborState) \<Rightarrow> (int \<Rightarrow> int \<Rightarrow> real) \<Rightarrow> routeTable \<Rightarrow> nat \<Rightarrow> time \<Rightarrow> routeTable" where
  "retractNeighbor nb mexp rt n now =
     (if n \<in> rt_retracted rt then rt
      else forEntries (rt\<lparr>rt_retracted := insert n (rt_retracted rt)\<rparr>) (\<lambda>rt key entry.
        case map_of (ke_routes entry) n of
          Some route \<Rightarrow>
            let route = (if ri_rxMetric route \<noteq> MetricInfinity \<and> ri_hold route > 0
                         then route\<lparr>ri_expiresAt := now + ri_hold route\<rparr> else route);
                route = route\<lparr>ri_rxMetric := MetricInfinity\<rparr>
            in selectRoute nb mexp rt key (entry\<lparr>ke_routes := AList.update n route (ke_routes entry)\<rparr>) now
        | None \<Rightarrow> rt))"

definition sweepExpired ::
  "(nat \<Rightarrow> neighborState) \<Rightarrow> (int \<Rightarrow> int \<Rightarrow> real) \<Rightarrow> routeTable \<Rightarrow> time \<Rightarrow> routeTable" where
  "sweepExpired nb mexp rt now =
     sweepSources (forEntries (rt\<lparr>rt_nextExpiryAt := 0\<rparr>) (\<lambda>rt key entry. selectRoute nb mexp rt key entry now)) now"

definition takeDirty :: "routeTable \<Rightarrow> routeKey list \<times> routeTable" where
  "takeDirty rt = (rt_dirty rt, rt\<lparr>rt_dirty := []\<rparr>)"

definition takeStarved :: "routeTable \<Rightarrow> starveRequest list \<times> routeTable" where
  "takeStarved rt = (rt_starved rt, rt\<lparr>rt_starved := []\<rparr>)"

section \<open>Association lists\<close>

lemma alist_split:
  assumes "distinct (map fst al)" "map_of al k = Some v"
  shows "\<exists>xs ys. al = xs @ (k, v) # ys \<and> k \<notin> fst ` set xs \<and> k \<notin> fst ` set ys \<and>
    (\<forall>w. AList.update k w al = xs @ (k, w) # ys) \<and> AList.delete k al = xs @ ys"
proof -
  have "(k, v) \<in> set al" using assms(2) by (rule map_of_SomeD)
  then obtain xs ys where al: "al = xs @ (k, v) # ys" by (auto simp: in_set_conv_decomp)
  have k: "k \<notin> fst ` set xs" "k \<notin> fst ` set ys" using assms(1) al by auto
  have "AList.update k w (xs @ (k, v) # ys) = xs @ (k, w) # ys" for w
    using k(1) by (induction xs) auto
  moreover have "AList.delete k zs = zs" if "k \<notin> fst ` set zs" for zs :: "('a \<times> 'b) list"
    using that by (induction zs) (auto simp: AList.delete_eq)
  then have "AList.delete k (xs @ (k, v) # ys) = xs @ ys" using k by (simp add: AList.delete_eq)
  ultimately show ?thesis using al k by blast
qed

lemma alist_update_new: "map_of al k = None \<Longrightarrow> AList.update k v al = al @ [(k, v)]"
  by (induction al) (auto split: if_splits)

section \<open>Shares of the source table\<close>

text \<open>A map of counters holds \<open>f\<close>, keys with count zero absent.\<close>

definition tally :: "('k \<rightharpoonup> nat) \<Rightarrow> ('k \<Rightarrow> nat) \<Rightarrow> bool" where
  "tally m f \<longleftrightarrow> (\<forall>k. m k = (if f k = 0 then None else Some (f k)))"

lemma tally_inc: "tally m f \<Longrightarrow> tally (count_inc m k) (f(k := f k + 1))"
  by (auto simp: tally_def count_inc_def count_of_def)

lemma tally_dec: "tally m f \<Longrightarrow> tally (count_dec m k) (f(k := f k - 1))"
  by (auto simp: tally_def count_dec_def count_of_def split: option.splits)

lemma tally_count: "tally m f \<Longrightarrow> count_of m k = f k"
  by (simp add: tally_def count_of_def)

definition originCount :: "(sourceKey \<times> sourceEntry) list \<Rightarrow> routeKey \<Rightarrow> nat" where
  "originCount ss k = length (filter (\<lambda>(i, e). fst i = k) ss)"

definition shareCount :: "(sourceKey \<times> sourceEntry) list \<Rightarrow> originShare \<Rightarrow> nat" where
  "shareCount ss x = length (filter (\<lambda>(i, e). (fst i, se_owner e) = x) ss)"

definition peerCount :: "(sourceKey \<times> sourceEntry) list \<Rightarrow> string \<Rightarrow> nat" where
  "peerCount ss p = length (filter (\<lambda>(i, e). se_owner e = p) ss)"

lemmas share_defs = originCount_def shareCount_def peerCount_def

lemma count_mid:
  "originCount ((i, e) # ys) k = originCount ys k + (if fst i = k then 1 else 0)"
  "shareCount ((i, e) # ys) x = shareCount ys x + (if (fst i, se_owner e) = x then 1 else 0)"
  "peerCount ((i, e) # ys) q = peerCount ys q + (if se_owner e = q then 1 else 0)"
  "originCount (xs @ ys) k = originCount xs k + originCount ys k"
  "shareCount (xs @ ys) x = shareCount xs x + shareCount ys x"
  "peerCount (xs @ ys) q = peerCount xs q + peerCount ys q"
  "originCount [] k = 0" "shareCount [] x = 0" "peerCount [] q = 0"
  by (simp_all add: share_defs)

definition accounted :: "routeTable \<Rightarrow> bool" where
  "accounted rt \<longleftrightarrow> distinct (map fst (rt_sources rt)) \<and> tally (rt_originsPerKey rt) (originCount (rt_sources rt)) \<and>
     tally (rt_originsBy rt) (shareCount (rt_sources rt)) \<and> tally (rt_sourcesByPeer rt) (peerCount (rt_sources rt))"

lemma accounted_new: "accounted (newRouteTable tau trigger cost)"
  by (simp add: accounted_def newRouteTable_def tally_def share_defs)

lemma tally_cong: "tally m f \<Longrightarrow> (\<And>k. f k = g k) \<Longrightarrow> tally m g"
  by (simp add: tally_def)

lemma accounted_observe:
  assumes "accounted rt"
  shows "accounted (observe rt key adv from now)"
proof (cases "adv_metric adv = MetricInfinity")
  case True
  then show ?thesis using assms by (simp add: observe_def)
next
  case False
  let ?i = "(key, adv_routerID adv)" and ?ss = "rt_sources rt"
  have a: "distinct (map fst ?ss)" "tally (rt_originsPerKey rt) (originCount ?ss)"
    "tally (rt_originsBy rt) (shareCount ?ss)" "tally (rt_sourcesByPeer rt) (peerCount ?ss)"
    using assms by (simp_all add: accounted_def)
  show ?thesis
  proof (cases "map_of ?ss ?i")
    case None
    let ?e = "\<lparr>se_seqno = adv_seqno adv, se_metric = adv_metric adv, se_gcAt = now + sourceGCTime, se_owner = from\<rparr>"
    have u: "AList.update ?i ?e ?ss = ?ss @ [(?i, ?e)]" using None by (rule alist_update_new)
    have d: "distinct (map fst (?ss @ [(?i, ?e)]))" using a(1) None by (auto simp: map_of_eq_None_iff)
    have t: "tally (count_inc (rt_originsPerKey rt) key) (originCount (?ss @ [(?i, ?e)]))"
      "tally (count_inc (rt_originsBy rt) (key, from)) (shareCount (?ss @ [(?i, ?e)]))"
      "tally (count_inc (rt_sourcesByPeer rt) from) (peerCount (?ss @ [(?i, ?e)]))"
      by (rule tally_cong [OF tally_inc [OF a(2)]] tally_cong [OF tally_inc [OF a(3)]] tally_cong [OF tally_inc [OF a(4)]];
          simp add: count_mid)+
    show ?thesis using False None d t by (simp add: observe_def accounted_def Let_def u)
  next
    case (Some old)
    obtain xs ys where s: "?ss = xs @ (?i, old) # ys" "\<And>w. AList.update ?i w ?ss = xs @ (?i, w) # ys"
      using alist_split [OF a(1) Some] by blast
    let ?best = "if better old (adv_seqno adv) (adv_metric adv)
      then old\<lparr>se_seqno := adv_seqno adv, se_metric := adv_metric adv\<rparr> else old"
    obtain e where e: "e = ?best\<lparr>se_owner := from, se_gcAt := now + sourceGCTime\<rparr>" by simp
    have own: "se_owner ?best = se_owner old" "se_owner e = from" by (simp_all add: e)
    have d: "distinct (map fst (xs @ (?i, e) # ys))" using a(1) unfolding s(1) by simp
    have o: "tally (rt_originsPerKey rt) (originCount (xs @ (?i, e) # ys))"
      by (rule tally_cong [OF a(2)]) (simp add: s(1) count_mid)
    show ?thesis
    proof (cases "se_owner old = from")
      case True
      have t: "tally (rt_originsBy rt) (shareCount (xs @ (?i, e) # ys))"
        by (rule tally_cong [OF a(3)]) (simp add: s(1) count_mid own True)
      have p: "tally (rt_sourcesByPeer rt) (peerCount (xs @ (?i, e) # ys))"
        by (rule tally_cong [OF a(4)]) (simp add: s(1) count_mid own True)
      have "observe rt key adv from now = rt\<lparr>rt_sources := xs @ (?i, e) # ys\<rparr>"
        using False Some True own by (simp add: observe_def Let_def s(2) e)
      then show ?thesis using d o t p by (simp add: accounted_def)
    next
      case ne: False
      have t: "tally (count_inc (count_dec (rt_originsBy rt) (key, se_owner old)) (key, from)) (shareCount (xs @ (?i, e) # ys))"
        by (rule tally_cong [OF tally_inc [OF tally_dec [OF a(3)]]]) (use ne in \<open>auto simp: s(1) count_mid own\<close>)
      have p: "tally (count_inc (count_dec (rt_sourcesByPeer rt) (se_owner old)) from) (peerCount (xs @ (?i, e) # ys))"
        by (rule tally_cong [OF tally_inc [OF tally_dec [OF a(4)]]]) (use ne in \<open>auto simp: s(1) count_mid own\<close>)
      have "observe rt key adv from now = rt\<lparr>rt_originsBy := count_inc (count_dec (rt_originsBy rt) (key, se_owner old)) (key, from),
          rt_sourcesByPeer := count_inc (count_dec (rt_sourcesByPeer rt) (se_owner old)) from, rt_sources := xs @ (?i, e) # ys\<rparr>"
        using False Some ne own by (simp add: observe_def Let_def s(2) e releaseOrigin_def)
      then show ?thesis using d o t p by (simp add: accounted_def)
    qed
  qed
qed

lemma sweepSource_step:
  assumes "accounted rt" "map_of (rt_sources rt) i = Some e"
  shows "accounted (sweepSource now rt (i, e))"
    "rt_sources (sweepSource now rt (i, e)) = filter (\<lambda>(j, x). j = i \<longrightarrow> now < se_gcAt x) (rt_sources rt)"
proof -
  let ?ss = "rt_sources rt"
  have a: "distinct (map fst ?ss)" "tally (rt_originsPerKey rt) (originCount ?ss)"
    "tally (rt_originsBy rt) (shareCount ?ss)" "tally (rt_sourcesByPeer rt) (peerCount ?ss)"
    using assms by (simp_all add: accounted_def)
  obtain xs ys where s: "?ss = xs @ (i, e) # ys" "i \<notin> fst ` set xs" "i \<notin> fst ` set ys" "AList.delete i ?ss = xs @ ys"
    using alist_split [OF a(1) assms(2)] by blast
  have keep: "filter (\<lambda>(j, x). j = i \<longrightarrow> P x) zs = zs" if "i \<notin> fst ` set zs" for zs :: "(sourceKey \<times> sourceEntry) list" and P
    using that by (induction zs) auto
  have "accounted (sweepSource now rt (i, e)) \<and>
    rt_sources (sweepSource now rt (i, e)) = filter (\<lambda>(j, x). j = i \<longrightarrow> now < se_gcAt x) ?ss"
  proof (cases "now < se_gcAt e")
    case True
    then show ?thesis using assms(1) s by (simp add: sweepSource_def keep)
  next
    case False
    have t: "tally (count_dec (rt_originsPerKey rt) (fst i)) (originCount (xs @ ys))"
      "tally (count_dec (rt_originsBy rt) (fst i, se_owner e)) (shareCount (xs @ ys))"
      "tally (count_dec (rt_sourcesByPeer rt) (se_owner e)) (peerCount (xs @ ys))"
      by (rule tally_cong [OF tally_dec [OF a(2)]] tally_cong [OF tally_dec [OF a(3)]] tally_cong [OF tally_dec [OF a(4)]];
          simp add: s(1) count_mid)+
    have "distinct (map fst (xs @ ys))" using a(1) s(1) by simp
    then show ?thesis using False t s keep
      by (simp add: sweepSource_def releaseOrigin_def accounted_def)
  qed
  then show "accounted (sweepSource now rt (i, e))"
    "rt_sources (sweepSource now rt (i, e)) = filter (\<lambda>(j, x). j = i \<longrightarrow> now < se_gcAt x) ?ss" by simp_all
qed

lemma sweepSources_exact:
  assumes "accounted rt"
  shows "accounted (sweepSources rt now)" "rt_sources (sweepSources rt now) = filter (\<lambda>(i, e). now < se_gcAt e) (rt_sources rt)"
proof -
  have "accounted (foldl (sweepSource now) rt todo) \<and>
      rt_sources (foldl (sweepSource now) rt todo) = filter (\<lambda>(j, x). j \<in> fst ` set todo \<longrightarrow> now < se_gcAt x) (rt_sources rt)"
    if "accounted rt" "distinct (map fst todo)" "\<forall>(i, e)\<in>set todo. map_of (rt_sources rt) i = Some e" for todo
    using that
  proof (induction todo arbitrary: rt)
    case (Cons t todo)
    obtain i e where t: "t = (i, e)" by (cases t)
    have m: "map_of (rt_sources rt) i = Some e" using Cons.prems(3) t by simp
    note st = sweepSource_step [OF Cons.prems(1) m, of now]
    have "map_of (filter (\<lambda>(j, x). j = i \<longrightarrow> P x) zs) j = map_of zs j" if "j \<noteq> i"
      for zs :: "(sourceKey \<times> sourceEntry) list" and j P using that by (induction zs) auto
    then have "\<forall>(j, x)\<in>set todo. map_of (rt_sources (sweepSource now rt t)) j = Some x"
      using Cons.prems t st(2) by fastforce
    then show ?case using Cons.IH [of "sweepSource now rt t"] Cons.prems(2) st t
      by (auto intro!: filter_cong)
  qed simp
  moreover have "\<forall>(i, e)\<in>set (rt_sources rt). map_of (rt_sources rt) i = Some e"
    using assms by (auto simp: accounted_def)
  ultimately have "accounted (sweepSources rt now) \<and>
      rt_sources (sweepSources rt now) = filter (\<lambda>(j, x). j \<in> fst ` set (rt_sources rt) \<longrightarrow> now < se_gcAt x) (rt_sources rt)"
    using assms unfolding sweepSources_def accounted_def by blast
  moreover have "filter (\<lambda>(j, x). j \<in> fst ` set zs \<longrightarrow> P x) zs = filter (\<lambda>(j, x). P x) zs" for zs :: "(sourceKey \<times> sourceEntry) list" and P
    by (rule filter_cong) (auto intro: rev_image_eqI)
  ultimately show "accounted (sweepSources rt now)"
    "rt_sources (sweepSources rt now) = filter (\<lambda>(i, e). now < se_gcAt e) (rt_sources rt)" by simp_all
qed

section \<open>What selection leaves alone\<close>

definition sourceView :: "routeTable \<Rightarrow> _" where
  "sourceView rt = (rt_sources rt, rt_originsPerKey rt, rt_originsBy rt, rt_sourcesByPeer rt, rt_cost rt, rt_tau rt)"

lemma sourceView_updates [simp]:
  "sourceView (rt\<lparr>rt_entries := a\<rparr>) = sourceView rt" "sourceView (rt\<lparr>rt_dirty := b\<rparr>) = sourceView rt"
  "sourceView (rt\<lparr>rt_starved := c\<rparr>) = sourceView rt" "sourceView (rt\<lparr>rt_events := d\<rparr>) = sourceView rt"
  "sourceView (rt\<lparr>rt_nextExpiryAt := e\<rparr>) = sourceView rt" "sourceView (rt\<lparr>rt_retracted := f\<rparr>) = sourceView rt"
  by (simp_all add: sourceView_def)

lemma feasible_view: "sourceView rt = sourceView rt' \<Longrightarrow> feasible rt key adv from = feasible rt' key adv from"
  by (simp add: sourceView_def feasible_def)

lemma accounted_view: "sourceView rt = sourceView rt' \<Longrightarrow> accounted rt = accounted rt'"
  by (simp add: sourceView_def accounted_def)

lemma starve_view [simp]: "sourceView (starve rt key n adv) = sourceView rt" "rt_entries (starve rt key n adv) = rt_entries rt"
  by (simp_all add: starve_def)

lemma starve_fold [simp]:
  "sourceView (foldl (\<lambda>rt n. case map_of routes n of Some r \<Rightarrow> starve rt key n (advertised r) | None \<Rightarrow> rt) rt ns) = sourceView rt"
  "rt_entries (foldl (\<lambda>rt n. case map_of routes n of Some r \<Rightarrow> starve rt key n (advertised r) | None \<Rightarrow> rt) rt ns) = rt_entries rt"
  by (induction ns arbitrary: rt) (auto split: option.split)

text \<open>The loop as a map over the routes followed by a fold of the candidates.\<close>

definition refresh :: "time \<Rightarrow> routeInfo \<Rightarrow> routeInfo option" where
  "refresh now r =
     (if now < ri_expiresAt r then Some r
      else if ri_rxMetric r = MetricInfinity then None
      else Some (r\<lparr>ri_rxMetric := MetricInfinity, ri_expiresAt := now + ri_hold r\<rparr>))"

definition smoothed :: "(nat \<Rightarrow> neighborState) \<Rightarrow> (int \<Rightarrow> int \<Rightarrow> real) \<Rightarrow> routeTable \<Rightarrow> time \<Rightarrow> nat \<Rightarrow> routeInfo \<Rightarrow> routeInfo" where
  "smoothed nb mexp rt now n r =
     (let cost = route_cost r (nb n) now (rt_cost rt)
      in if cost = MetricInfinity then r else smooth mexp r cost now (rt_tau rt))"

definition passRoute ::
  "(nat \<Rightarrow> neighborState) \<Rightarrow> (int \<Rightarrow> int \<Rightarrow> real) \<Rightarrow> routeTable \<Rightarrow> time \<Rightarrow> nat \<times> routeInfo \<Rightarrow> (nat \<times> routeInfo) list" where
  "passRoute nb mexp rt now = (\<lambda>(n, r). case refresh now r of None \<Rightarrow> [] | Some r \<Rightarrow> [(n, smoothed nb mexp rt now n r)])"

definition passRoutes where
  "passRoutes nb mexp rt now routes = concat (map (passRoute nb mexp rt now) routes)"

definition candidateRoute :: "(nat \<Rightarrow> neighborState) \<Rightarrow> routeTable \<Rightarrow> routeKey \<Rightarrow> time \<Rightarrow> nat \<Rightarrow> routeInfo \<Rightarrow> bool" where
  "candidateRoute nb rt key now n r \<longleftrightarrow>
     route_cost r (nb n) now (rt_cost rt) \<noteq> MetricInfinity \<and> feasible rt key (advertised r) (nb_peerID (nb n))"

definition accStep ::
  "(nat \<Rightarrow> neighborState) \<Rightarrow> routeTable \<Rightarrow> routeKey \<Rightarrow> nat option \<Rightarrow> time \<Rightarrow> selectAcc \<Rightarrow> nat \<times> routeInfo \<Rightarrow> selectAcc" where
  "accStep nb rt key selected now acc x = (case x of (n, r) \<Rightarrow>
     let acc = acc\<lparr>sa_expiry := earlier (sa_expiry acc) (ri_expiresAt r)\<rparr>;
         cost = route_cost r (nb n) now (rt_cost rt)
     in if cost = MetricInfinity then acc
        else if \<not> feasible rt key (advertised r) (nb_peerID (nb n)) then acc\<lparr>sa_unfeasible := sa_unfeasible acc @ [n]\<rparr>
        else let acc = (if Some n = selected then acc\<lparr>sa_incumbent := Some (n, cost, ri_smoothed r)\<rparr> else acc)
             in if betterCandidate nb (sa_best acc) n cost then acc\<lparr>sa_best := Some (n, cost, ri_smoothed r)\<rparr> else acc)"

lemma smooth_sel [simp]:
  "ri_rxMetric (smooth mexp r c now tau) = ri_rxMetric r" "ri_expiresAt (smooth mexp r c now tau) = ri_expiresAt r"
  "ri_routerID (smooth mexp r c now tau) = ri_routerID r" "ri_seqno (smooth mexp r c now tau) = ri_seqno r"
  by (simp_all add: smooth_def Let_def)

lemma advertised_smooth [simp]:
  "advertised (smooth mexp r c now tau) = advertised r"
  "route_cost (smooth mexp r c now tau) n now' p = route_cost r n now' p"
  by (simp_all add: advertised_def route_cost_def)

lemmas accStep_pair = accStep_def [of nb rt key selected now acc "(n, r)" for nb rt key selected now acc n r, simplified]

lemma selectLoop_eq:
  "selectLoop nb mexp rt key selected now routes acc =
     (passRoutes nb mexp rt now routes, foldl (accStep nb rt key selected now) acc (passRoutes nb mexp rt now routes))"
proof (induction routes arbitrary: acc)
  case (Cons x rest)
  obtain n r where x: "x = (n, r)" by (cases x)
  show ?case
  proof (cases "refresh now r")
    case None
    then have "\<not> now < ri_expiresAt r \<and> ri_rxMetric r = MetricInfinity" by (auto simp: refresh_def split: if_splits)
    then show ?thesis using Cons None by (simp add: x passRoutes_def passRoute_def)
  next
    case (Some r')
    then have c: "\<not> (\<not> now < ri_expiresAt r \<and> ri_rxMetric r = MetricInfinity)"
      and r': "(if \<not> now < ri_expiresAt r then r\<lparr>ri_rxMetric := MetricInfinity, ri_expiresAt := now + ri_hold r\<rparr> else r) = r'"
      by (auto simp: refresh_def split: if_splits)
    have p: "passRoutes nb mexp rt now (x # rest) = (n, smoothed nb mexp rt now n r') # passRoutes nb mexp rt now rest"
      by (simp add: passRoutes_def passRoute_def x Some)
    show ?thesis
      unfolding p foldl.simps
      by (simp add: x c r' Cons smoothed_def accStep_pair Let_def split: if_split)
  qed
qed (simp add: passRoutes_def)

section \<open>What selection chooses\<close>

abbreviation routeCost where
  "routeCost nb rt now n r \<equiv> route_cost r (nb n) now (rt_cost rt)"

definition startAcc :: "time \<Rightarrow> selectAcc" where
  "startAcc x = \<lparr>sa_best = None, sa_incumbent = None, sa_unfeasible = [], sa_expiry = x\<rparr>"

definition bestOf where
  "bestOf nb rt key now rs best \<longleftrightarrow> (case best of
     None \<Rightarrow> \<forall>(n, r)\<in>set rs. \<not> candidateRoute nb rt key now n r
   | Some (b, c, s) \<Rightarrow> (\<exists>r. (b, r) \<in> set rs \<and> candidateRoute nb rt key now b r \<and> c = routeCost nb rt now b r \<and> s = ri_smoothed r) \<and>
       (\<forall>(n, r)\<in>set rs. candidateRoute nb rt key now n r \<longrightarrow> c \<le> routeCost nb rt now n r))"

definition incumbentOf where
  "incumbentOf nb rt key now rs selected inc \<longleftrightarrow> (case inc of
     None \<Rightarrow> \<forall>(n, r)\<in>set rs. selected = Some n \<longrightarrow> \<not> candidateRoute nb rt key now n r
   | Some (i, c, s) \<Rightarrow> selected = Some i \<and>
       (\<exists>r. (i, r) \<in> set rs \<and> candidateRoute nb rt key now i r \<and> c = routeCost nb rt now i r \<and> s = ri_smoothed r))"

lemma accStep_skip:
  assumes "\<not> candidateRoute nb rt key now n r"
  shows "sa_best (accStep nb rt key selected now acc (n, r)) = sa_best acc"
    "sa_incumbent (accStep nb rt key selected now acc (n, r)) = sa_incumbent acc"
  using assms by (auto simp: accStep_pair candidateRoute_def Let_def)

lemma accStep_take:
  assumes "candidateRoute nb rt key now n r"
  shows "sa_best (accStep nb rt key selected now acc (n, r)) =
      (if betterCandidate nb (sa_best acc) n (routeCost nb rt now n r)
       then Some (n, routeCost nb rt now n r, ri_smoothed r) else sa_best acc)"
    "sa_incumbent (accStep nb rt key selected now acc (n, r)) =
      (if Some n = selected then Some (n, routeCost nb rt now n r, ri_smoothed r) else sa_incumbent acc)"
  using assms by (auto simp: accStep_pair candidateRoute_def Let_def)

lemma loop_best:
  "bestOf nb rt key now rs (sa_best (foldl (accStep nb rt key selected now) (startAcc x) rs))"
proof (induction rs rule: rev_induct)
  case (snoc p rs)
  obtain n r where p: "p = (n, r)" by (cases p)
  let ?acc = "foldl (accStep nb rt key selected now) (startAcc x) rs"
  let ?c = "routeCost nb rt now n r"
  show ?case
  proof (cases "candidateRoute nb rt key now n r")
    case False
    then show ?thesis using snoc by (auto simp: p bestOf_def accStep_skip split: option.splits)
  next
    case t: True
    show ?thesis
    proof (cases "betterCandidate nb (sa_best ?acc) n ?c")
      case True
      have "?c \<le> routeCost nb rt now m r'" if "(m, r') \<in> set rs" "candidateRoute nb rt key now m r'" for m r'
      proof (cases "sa_best ?acc")
        case None
        then show ?thesis using snoc that by (auto simp: bestOf_def)
      next
        case (Some b)
        obtain b1 c1 s1 where b: "b = (b1, c1, s1)" by (cases b)
        then have "?c \<le> c1" using True Some by (auto simp: betterCandidate_def)
        moreover have "c1 \<le> routeCost nb rt now m r'" using snoc Some b that by (auto simp: bestOf_def)
        ultimately show ?thesis by simp
      qed
      then show ?thesis using t True by (auto simp: p bestOf_def accStep_take)
    next
      case False
      then obtain b1 c1 s1 where b: "sa_best ?acc = Some (b1, c1, s1)" by (cases "sa_best ?acc") (auto simp: betterCandidate_def)
      then have "c1 \<le> ?c" using False by (auto simp: betterCandidate_def)
      then show ?thesis using snoc t False b by (auto simp: p bestOf_def accStep_take)
    qed
  qed
qed (simp add: bestOf_def startAcc_def)

lemma loop_incumbent:
  assumes "distinct (map fst rs)"
  shows "incumbentOf nb rt key now rs selected (sa_incumbent (foldl (accStep nb rt key selected now) (startAcc x) rs))"
  using assms
proof (induction rs rule: rev_induct)
  case (snoc p rs)
  obtain n r where p: "p = (n, r)" by (cases p)
  have d: "n \<notin> fst ` set rs" using snoc.prems p by simp
  have ih: "incumbentOf nb rt key now rs selected (sa_incumbent (foldl (accStep nb rt key selected now) (startAcc x) rs))"
    using snoc by simp
  show ?case
  proof (cases "candidateRoute nb rt key now n r")
    case False
    then show ?thesis using ih by (auto simp: p incumbentOf_def accStep_skip split: option.splits)
  next
    case True
    then show ?thesis using ih by (auto simp: p incumbentOf_def accStep_take split: option.splits)
  qed
qed (simp add: incumbentOf_def startAcc_def)

text \<open>
  The choice among the refreshed routes \<open>rs\<close>: nothing only if there is no candidate; otherwise a candidate
  \<open>n\<close> that is the cheapest one \<open>b\<close>, or the previous choice while \<open>b\<close> is not better on both metrics.
\<close>

definition chosen where
  "chosen nb rt key now rs selected sel \<longleftrightarrow> (case sel_neighbor sel of
     None \<Rightarrow> sel = noSelection \<and> (\<forall>(n, r)\<in>set rs. \<not> candidateRoute nb rt key now n r)
   | Some n \<Rightarrow> \<exists>r b rb. map_of rs n = Some r \<and> candidateRoute nb rt key now n r \<and>
       sel = \<lparr>sel_neighbor = Some n, sel_cost = routeCost nb rt now n r, sel_routerID = ri_routerID r, sel_seqno = ri_seqno r\<rparr> \<and>
       map_of rs b = Some rb \<and> candidateRoute nb rt key now b rb \<and>
       (\<forall>(m, r')\<in>set rs. candidateRoute nb rt key now m r' \<longrightarrow> routeCost nb rt now b rb \<le> routeCost nb rt now m r') \<and>
       (n = b \<or> selected = Some n \<and> \<not> (sel_cost sel > routeCost nb rt now b rb \<and> ri_smoothed r > ri_smoothed rb)))"

lemma chooseSelection_chosen:
  assumes "distinct (map fst rs)"
  shows "chosen nb rt key now rs selected
    (chooseSelection rs (foldl (accStep nb rt key selected now) (startAcc x) rs))"
proof -
  let ?acc = "foldl (accStep nb rt key selected now) (startAcc x) rs"
  note b = loop_best [of nb rt key now rs selected x] and i = loop_incumbent [OF assms, of nb rt key now selected x]
  show ?thesis
  proof (cases "sa_best ?acc")
    case None
    then show ?thesis using b by (simp add: chooseSelection_def chosen_def bestOf_def noSelection_def)
  next
    case (Some best)
    obtain b1 c1 s1 where best: "best = (b1, c1, s1)" by (cases best)
    obtain rb where rb: "(b1, rb) \<in> set rs" "candidateRoute nb rt key now b1 rb" "c1 = routeCost nb rt now b1 rb" "s1 = ri_smoothed rb"
      "\<forall>(n, r)\<in>set rs. candidateRoute nb rt key now n r \<longrightarrow> c1 \<le> routeCost nb rt now n r"
      using b Some best by (auto simp: bestOf_def)
    have mb: "map_of rs b1 = Some rb" using rb(1) assms by simp
    have win: "chosen nb rt key now rs selected (selectionFor rs b1 c1)"
      using rb mb by (auto simp: chosen_def selectionFor_def)
    show ?thesis
    proof (cases "sa_incumbent ?acc")
      case None
      then show ?thesis using win Some best by (simp add: chooseSelection_def)
    next
      case (Some inc)
      obtain i1 c2 s2 where inc: "inc = (i1, c2, s2)" by (cases inc)
      obtain ri where ri: "selected = Some i1" "(i1, ri) \<in> set rs" "candidateRoute nb rt key now i1 ri"
        "c2 = routeCost nb rt now i1 ri" "s2 = ri_smoothed ri" using i Some inc by (auto simp: incumbentOf_def)
      have mi: "map_of rs i1 = Some ri" using ri(2) assms by simp
      show ?thesis
      proof (cases "b1 = i1 \<or> c1 < c2 \<and> s1 < s2")
        case True
        then show ?thesis using win Some inc \<open>sa_best ?acc = Some best\<close> best by (auto simp: chooseSelection_def)
      next
        case False
        then have "chooseSelection rs ?acc = selectionFor rs i1 c2"
          using Some inc \<open>sa_best ?acc = Some best\<close> best by (auto simp: chooseSelection_def)
        then show ?thesis using ri mi rb mb False by (auto simp: chosen_def selectionFor_def)
      qed
    qed
  qed
qed

lemma passRoutes_origin:
  assumes "(n, r) \<in> set (passRoutes nb mexp rt now routes)"
  shows "\<exists>r0. (n, r0) \<in> set routes \<and> ri_routerID r = ri_routerID r0 \<and> ri_seqno r = ri_seqno r0 \<and>
    (ri_rxMetric r = ri_rxMetric r0 \<or> ri_rxMetric r = MetricInfinity)"
  using assms
  by (auto simp: passRoutes_def passRoute_def refresh_def smoothed_def Let_def split: option.splits if_splits)

lemma passRoutes_distinct: "distinct (map fst routes) \<Longrightarrow> distinct (map fst (passRoutes nb mexp rt now routes))"
proof (induction routes)
  case (Cons x routes)
  obtain n r where x: "x = (n, r)" by (cases x)
  have "n \<notin> fst ` set (passRoutes nb mexp rt now routes)"
    using Cons.prems passRoutes_origin [of n _ nb mexp rt now routes] x by force
  moreover have "passRoutes nb mexp rt now (x # routes) = passRoute nb mexp rt now (n, r) @ passRoutes nb mexp rt now routes"
    by (simp add: passRoutes_def x)
  ultimately show ?case using Cons by (cases "refresh now r") (auto simp: passRoute_def)
qed (simp add: passRoutes_def)


definition selectedEntry where
  "selectedEntry nb mexp rt key entry now =
     (let rs = passRoutes nb mexp rt now (ke_routes entry);
          sel = chooseSelection rs (foldl (accStep nb rt key (sel_neighbor (ke_selected entry)) now) (startAcc (rt_nextExpiryAt rt)) rs);
          entry = (if sel_neighbor sel \<noteq> None then entry\<lparr>ke_retractID := sel_routerID sel, ke_retractSeqno := sel_seqno sel\<rparr> else entry)
      in entry\<lparr>ke_routes := rs, ke_selected := sel\<rparr>)"

lemma selectRoute_effect:
  "rt_entries (selectRoute nb mexp rt key entry now) =
     (if ke_routes (selectedEntry nb mexp rt key entry now) = [] then AList.delete key (rt_entries rt)
      else AList.update key (selectedEntry nb mexp rt key entry now) (rt_entries rt))"
  "sourceView (selectRoute nb mexp rt key entry now) = sourceView rt"
  by (simp_all add: selectRoute_def selectLoop_eq startAcc_def selectedEntry_def Let_def flush_def)

lemma selectedEntry_chosen:
  assumes "distinct (map fst (ke_routes entry))"
  shows "chosen nb rt key now (ke_routes (selectedEntry nb mexp rt key entry now)) (sel_neighbor (ke_selected entry))
      (ke_selected (selectedEntry nb mexp rt key entry now))"
    "ke_routes (selectedEntry nb mexp rt key entry now) = passRoutes nb mexp rt now (ke_routes entry)"
    "distinct (map fst (ke_routes (selectedEntry nb mexp rt key entry now)))"
  using chooseSelection_chosen [OF passRoutes_distinct [OF assms]] passRoutes_distinct [OF assms]
  by (simp_all add: selectedEntry_def Let_def)

lemma route_cost_props:
  assumes "route_cost r n now p \<noteq> MetricInfinity"
  shows "ri_rxMetric r < route_cost r n now p" "linkCost n now p \<noteq> MetricInfinity" "ri_rxMetric r \<noteq> MetricInfinity"
proof -
  let ?l = "max 1 (linkCost n now p)"
  have c: "unat (route_cost r n now p) = min 65535 (unat ?l + unat (ri_rxMetric r))"
    by (simp add: route_cost_def saturatingAdd_unat)
  have l: "1 \<le> unat ?l" "unat (linkCost n now p) \<le> unat ?l" by (auto simp: max_def word_le_nat_alt)
  have "unat (route_cost r n now p) \<noteq> 65535" using assms metric_le(2) by blast
  then have s: "unat ?l + unat (ri_rxMetric r) < 65535" "unat (route_cost r n now p) = unat ?l + unat (ri_rxMetric r)"
    using c by (auto simp: min_def split: if_splits)
  show "ri_rxMetric r < route_cost r n now p" unfolding word_less_nat_alt s(2) using l(1) by simp
  show "linkCost n now p \<noteq> MetricInfinity" "ri_rxMetric r \<noteq> MetricInfinity" using s(1) l(2) by (auto simp: metric_le(2))
qed

text \<open>
  C21. Selection is sound and complete: after \<open>selectRoute\<close> the entry has a selection exactly when some
  route is a candidate (finite cost over a live link and feasible); the selected route is a candidate of the
  entry, with its origin, sequence number and cost; its cost is strictly more than the metric its neighbour
  advertised; and no candidate is cheaper, unless the previous choice is kept because the cheapest candidate is
  not better on both the current and the smoothed metric.
\<close>

theorem selection_sound:
  assumes "distinct (map fst (ke_routes entry))"
    and "map_of (rt_entries (selectRoute nb mexp rt key entry now)) key = Some e"
    and "distinct (map fst (rt_entries rt))"
  shows "chosen nb rt key now (ke_routes e) (sel_neighbor (ke_selected entry)) (ke_selected e) \<and>
    (\<forall>n r. sel_neighbor (ke_selected e) = Some n \<and> map_of (ke_routes e) n = Some r \<longrightarrow>
      isAlive (nb n) now \<and> ri_rxMetric r < sel_cost (ke_selected e))"
proof -
  let ?e = "selectedEntry nb mexp rt key entry now"
  have e: "e = ?e"
    using assms(2,3) by (auto simp: selectRoute_effect update_conv delete_conv' split: if_splits)
  note c = selectedEntry_chosen [OF assms(1), where nb = nb and rt = rt and key = key and now = now and mexp = mexp]
  have "isAlive (nb n) now \<and> ri_rxMetric r < sel_cost (ke_selected ?e)"
    if "sel_neighbor (ke_selected ?e) = Some n" "map_of (ke_routes ?e) n = Some r" for n r
  proof -
    have "candidateRoute nb rt key now n r" "sel_cost (ke_selected ?e) = routeCost nb rt now n r"
      using c(1) that by (auto simp: chosen_def)
    then show ?thesis
      using route_cost_props [of r "nb n" now "rt_cost rt"] by (auto simp: candidateRoute_def linkCost_def split: if_splits)
  qed
  then show ?thesis using c(1) e by blast
qed


definition liveNeighbor :: "string \<Rightarrow> neighborState" where
  "liveNeighbor peer = \<lparr>nb_peer = 0, nb_peerID = peer, nb_addr = AddrZ, nb_alive = True, nb_lastHelloTime = 1, nb_helloInterval = 4000000000,
     nb_unicastHelloTime = 0, nb_unicastHelloInterval = 0,
     nb_history = \<lparr>hh_bits = 1, hh_expected = 1, hh_started = True, hh_samples = 1\<rparr>, nb_nextHelloDue = 0, nb_heard = True,
     nb_theirHelloTxTS = 0, nb_theirHelloRxTS = 0, nb_haveTheirHello = False, nb_sentHello = True, nb_helloSeqno = 0, nb_owed = [],
     nb_reportedCost = 96, nb_haveReportedCost = True, nb_ihuExpiry = 14000000000, nb_measuredRTT = 0, nb_haveRTT = False,
     nb_rttExpiry = 0, nb_lastFullDump = 0, nb_advertised = []\<rparr>"

definition sampleKey :: routeKey where
  "sampleKey = \<lparr>rk_source = noPrefix, rk_dest = PrefixFrom (Addr6 5) 128\<rparr>"

definition sampleRoute :: "u16 \<Rightarrow> routeInfo" where
  "sampleRoute metric = newRoute\<lparr>ri_routerID := 9, ri_seqno := 1, ri_rxMetric := metric, ri_hold := 5, ri_expiresAt := 100\<rparr>"

definition sampleEntry :: keyEntry where
  "sampleEntry = newKeyEntry\<lparr>ke_routes := [(1, sampleRoute 96), (2, sampleRoute 32)]\<rparr>"

definition sampleTable :: routeTable where "sampleTable = newRouteTable 0 1 DefaultCostParams"

lemma live_cost: "linkCost (liveNeighbor p) 50 DefaultCostParams = 96"
  by (simp add: liveNeighbor_def) code_simp

theorem selection_sound_witness:
  "\<exists>e. map_of (rt_entries (selectRoute (\<lambda>n. liveNeighbor ''p'') (\<lambda>_ _. 0) sampleTable sampleKey sampleEntry 50)) sampleKey = Some e \<and>
     sel_neighbor (ke_selected e) = Some 2"
proof -
  let ?nb = "\<lambda>n. liveNeighbor ''p''" and ?m = "\<lambda>_ _. 0 :: real"
  let ?rt = "selectRoute ?nb ?m sampleTable sampleKey sampleEntry 50"
  let ?rs = "passRoutes ?nb ?m sampleTable 50 (ke_routes sampleEntry)"
  have rs: "map fst ?rs = [1, 2]" "\<forall>(n, r)\<in>set ?rs. ri_routerID r = 9 \<and> ri_rxMetric r = (if n = 1 then 96 else 32)"
    by (simp_all add: passRoutes_def passRoute_def refresh_def sampleEntry_def sampleRoute_def smoothed_def Let_def)
  have "ke_routes (selectedEntry ?nb ?m sampleTable sampleKey sampleEntry 50) = ?rs" by (simp add: selectedEntry_def Let_def)
  moreover have "?rs \<noteq> []" using rs(1) by auto
  ultimately obtain e where e: "map_of (rt_entries ?rt) sampleKey = Some e" "ke_routes e = ?rs"
    by (auto simp: selectRoute_effect update_conv)
  have p: "sel_neighbor (ke_selected sampleEntry) = None" by (simp add: sampleEntry_def newKeyEntry_def noSelection_def)
  have "chosen ?nb sampleTable sampleKey 50 ?rs None (ke_selected e)"
    using selection_sound [OF _ e(1)] e(2) p by (simp add: sampleEntry_def sampleTable_def newRouteTable_def)
  moreover have cand: "candidateRoute ?nb sampleTable sampleKey 50 n r \<and>
      unat (routeCost ?nb sampleTable 50 n r) = (if n = 1 then 192 else 128)" if "(n, r) \<in> set ?rs" for n r
  proof -
    have m: "ri_rxMetric r = (if n = 1 then 96 else 32)" using rs(2) that by auto
    have "max 1 (linkCost (liveNeighbor ''p'') 50 DefaultCostParams) = 96" unfolding live_cost by (simp add: max_def)
    then have c: "unat (routeCost ?nb sampleTable 50 n r) = (if n = 1 then 192 else 128)"
      using m by (simp add: route_cost_def sampleTable_def newRouteTable_def saturatingAdd_unat)
    then have "routeCost ?nb sampleTable 50 n r \<noteq> MetricInfinity" by (simp add: metric_le(2))
    then show ?thesis using c m
      by (simp add: candidateRoute_def feasible_def sampleTable_def newRouteTable_def advertised_def maxSources_def
          maxOriginsPerPrefix_def maxSourcesPerNeighbor_def maxOriginsPerPrefixPerNeighbor_def)
  qed
  ultimately have ch: "chosen ?nb sampleTable sampleKey 50 ?rs None (ke_selected e)"
    and cand: "\<And>n r. (n, r) \<in> set ?rs \<Longrightarrow> candidateRoute ?nb sampleTable sampleKey 50 n r \<and>
      unat (routeCost ?nb sampleTable 50 n r) = (if n = 1 then 192 else 128)" by blast+
  have "1 \<in> fst ` set ?rs" "2 \<in> fst ` set ?rs" using arg_cong [OF rs(1), of set] by auto
  then obtain r1 r2 where r: "(1, r1) \<in> set ?rs" "(2, r2) \<in> set ?rs" by auto
  show ?thesis
  proof (cases "sel_neighbor (ke_selected e)")
    case None
    then show ?thesis using ch r(1) cand [OF r(1)] by (auto simp: chosen_def)
  next
    case (Some n)
    then obtain r where n: "(n, r) \<in> set ?rs" "routeCost ?nb sampleTable 50 n r \<le> routeCost ?nb sampleTable 50 2 r2"
      using ch r(2) cand [OF r(2)] by (auto simp: chosen_def dest: map_of_SomeD)
    then have "n \<noteq> 1" using cand [OF n(1)] cand [OF r(2)] by (auto simp: word_le_nat_alt)
    moreover have "n \<in> {1, 2}" using n(1) arg_cong [OF rs(1), of set] by force
    ultimately show ?thesis using e(1) Some by auto
  qed
qed

lemma alist_set_update:
  "distinct (map fst al) \<Longrightarrow> set (AList.update k v al) = insert (k, v) {x \<in> set al. fst x \<noteq> k}"
  by (induction al) (auto simp: image_iff)

section \<open>The invariant of the table\<close>

text \<open>
  A selection points at a route of its entry, with its origin, sequence number and a finite cost above the
  metric advertised, and the route is better than the feasibility distance recorded for its origin.
\<close>

definition selection_ok :: "(sourceKey \<times> sourceEntry) list \<Rightarrow> routeKey \<Rightarrow> keyEntry \<Rightarrow> bool" where
  "selection_ok ss k e \<longleftrightarrow> (case sel_neighbor (ke_selected e) of
     None \<Rightarrow> ke_selected e = noSelection
   | Some n \<Rightarrow> \<exists>r. map_of (ke_routes e) n = Some r \<and> sel_routerID (ke_selected e) = ri_routerID r \<and>
       sel_seqno (ke_selected e) = ri_seqno r \<and> ri_rxMetric r < sel_cost (ke_selected e) \<and> sel_cost (ke_selected e) \<noteq> MetricInfinity \<and>
       (\<forall>d. map_of ss (k, ri_routerID r) = Some d \<longrightarrow> better d (ri_seqno r) (ri_rxMetric r)))"

definition entry_ok :: "(routeKey \<Rightarrow> nat \<Rightarrow> advertisement \<Rightarrow> bool) \<Rightarrow> (sourceKey \<times> sourceEntry) list \<Rightarrow> routeKey \<Rightarrow> keyEntry \<Rightarrow> bool" where
  "entry_ok P ss k e \<longleftrightarrow> distinct (map fst (ke_routes e)) \<and> ke_routes e \<noteq> [] \<and>
     (\<forall>(n, r)\<in>set (ke_routes e). P k n (advertised r)) \<and> selection_ok ss k e"

definition table_consistent :: "(routeKey \<Rightarrow> nat \<Rightarrow> advertisement \<Rightarrow> bool) \<Rightarrow> routeTable \<Rightarrow> bool" where
  "table_consistent P rt \<longleftrightarrow> accounted rt \<and> distinct (map fst (rt_entries rt)) \<and> length (rt_entries rt) \<le> maxRouteKeys \<and>
     (\<forall>(k, e)\<in>set (rt_entries rt). entry_ok P (rt_sources rt) k e)"

lemma table_consistent_new: "table_consistent P (newRouteTable tau trigger cost)"
  using accounted_new by (simp add: table_consistent_def newRouteTable_def)

lemma table_consistent_entry: "table_consistent P rt \<Longrightarrow> map_of (rt_entries rt) k = Some e \<Longrightarrow> entry_ok P (rt_sources rt) k e"
  by (auto simp: table_consistent_def dest: map_of_SomeD)

lemma table_consistent_view:
  "table_consistent P rt \<Longrightarrow> sourceView rt' = sourceView rt \<Longrightarrow> rt_entries rt' = rt_entries rt \<Longrightarrow> table_consistent P rt'"
  using accounted_view [of rt' rt] by (simp add: table_consistent_def sourceView_def)

lemma chosen_ok:
  assumes "chosen nb rt k now (ke_routes e) selected (ke_selected e)"
  shows "selection_ok (rt_sources rt) k e"
proof (cases "sel_neighbor (ke_selected e)")
  case None
  then show ?thesis using assms by (simp add: chosen_def selection_ok_def)
next
  case (Some n)
  then obtain r where r: "map_of (ke_routes e) n = Some r" "candidateRoute nb rt k now n r"
    "ke_selected e = \<lparr>sel_neighbor = Some n, sel_cost = routeCost nb rt now n r, sel_routerID = ri_routerID r, sel_seqno = ri_seqno r\<rparr>"
    using assms by (auto simp: chosen_def)
  have fin: "routeCost nb rt now n r \<noteq> MetricInfinity" using r(2) by (simp add: candidateRoute_def)
  note c = route_cost_props [OF fin]
  have "better d (ri_seqno r) (ri_rxMetric r)" if "map_of (rt_sources rt) (k, ri_routerID r) = Some d" for d
    using r(2) c(3) that by (simp add: candidateRoute_def feasible_def advertised_def)
  then show ?thesis using r c(1) fin by (simp add: selection_ok_def)
qed

text \<open>
  What a stored route is known to have been: a predicate on key, neighbour and advertisement that survives
  the loss of the metric. The operations of the table keep it for every route they hold.
\<close>

locale provenance =
  fixes P :: "routeKey \<Rightarrow> nat \<Rightarrow> advertisement \<Rightarrow> bool"
  assumes retracted: "P k n adv \<Longrightarrow> P k n (adv\<lparr>adv_metric := MetricInfinity\<rparr>)"
begin

lemma pass_P:
  assumes "\<forall>(n, r)\<in>set rs. P k n (advertised r)" "(n, r) \<in> set (passRoutes nb mexp rt now rs)"
  shows "P k n (advertised r)"
proof -
  obtain r0 where r: "(n, r0) \<in> set rs" "ri_routerID r = ri_routerID r0" "ri_seqno r = ri_seqno r0"
    "ri_rxMetric r = ri_rxMetric r0 \<or> ri_rxMetric r = MetricInfinity" using passRoutes_origin [OF assms(2)] by blast
  then have "advertised r = advertised r0 \<or> advertised r = (advertised r0)\<lparr>adv_metric := MetricInfinity\<rparr>"
    by (auto simp: advertised_def)
  then show ?thesis using assms(1) r(1) retracted [of k n "advertised r0"] by fastforce
qed

lemma select_ok:
  assumes "accounted rt" "distinct (map fst (rt_entries rt))" "length (rt_entries rt) \<le> maxRouteKeys"
    and "\<forall>(k, e)\<in>set (rt_entries rt). k \<noteq> key \<longrightarrow> entry_ok P (rt_sources rt) k e"
    and "key \<in> fst ` set (rt_entries rt)"
    and "distinct (map fst (ke_routes entry))" "\<forall>(n, r)\<in>set (ke_routes entry). P key n (advertised r)"
  shows "table_consistent P (selectRoute nb mexp rt key entry now)"
proof -
  let ?e = "selectedEntry nb mexp rt key entry now" and ?rt = "selectRoute nb mexp rt key entry now"
  note c = selectedEntry_chosen [OF assms(6), where nb = nb and rt = rt and key = key and now = now and mexp = mexp]
  have e: "entry_ok P (rt_sources rt) key ?e" if "ke_routes ?e \<noteq> []"
    using that chosen_ok [OF c(1)] c(3) pass_P [OF assms(7)] by (auto simp: entry_ok_def c(2))
  have v: "sourceView ?rt = sourceView rt" by (rule selectRoute_effect)
  obtain old where "map_of (rt_entries rt) key = Some old" using assms(2,5) by (auto simp: map_of_eq_None_iff dest: weak_map_of_SomeI)
  then obtain xs ys where s: "rt_entries rt = xs @ (key, old) # ys" "key \<notin> fst ` set xs" "key \<notin> fst ` set ys"
    "AList.update key ?e (rt_entries rt) = xs @ (key, ?e) # ys" "AList.delete key (rt_entries rt) = xs @ ys"
    using alist_split [OF assms(2)] by blast
  have ent: "rt_entries ?rt = (if ke_routes ?e = [] then xs @ ys else xs @ (key, ?e) # ys)"
    unfolding selectRoute_effect s(4,5) ..
  have src: "rt_sources ?rt = rt_sources rt" using v by (simp add: sourceView_def)
  have rest: "\<forall>(k, e)\<in>set (xs @ ys). entry_ok P (rt_sources rt) k e" using assms(4) s(1-3) by force
  show ?thesis
    unfolding table_consistent_def ent src using accounted_view [OF v] assms(1-3) s rest e by auto
qed

lemma forEntries_ok:
  assumes "table_consistent P rt"
    and "\<And>rt key entry. table_consistent P rt \<Longrightarrow> map_of (rt_entries rt) key = Some entry \<Longrightarrow> table_consistent P (f rt key entry)"
  shows "table_consistent P (forEntries rt f)"
proof -
  have "table_consistent P (foldl (\<lambda>rt key. case map_of (rt_entries rt) key of Some entry \<Rightarrow> f rt key entry | None \<Rightarrow> rt) rt ks)" for ks
    using assms(1) by (induction ks arbitrary: rt) (auto split: option.split intro!: assms(2))
  then show ?thesis by (simp add: forEntries_def)
qed

lemma reselect_ok:
  assumes "table_consistent P rt" "map_of (rt_entries rt) key = Some entry"
    and "distinct (map fst rs)" "\<forall>(n, r)\<in>set rs. P key n (advertised r)"
  shows "table_consistent P (selectRoute nb mexp rt key (entry\<lparr>ke_routes := rs\<rparr>) now)"
  using assms by (intro select_ok) (auto simp: table_consistent_def intro: map_of_SomeD rev_image_eqI [OF map_of_SomeD])

lemma routes_ok:
  assumes "table_consistent P rt" "map_of (rt_entries rt) key = Some entry"
  shows "distinct (map fst (ke_routes entry))" "\<forall>(n, r)\<in>set (ke_routes entry). P key n (advertised r)"
  using table_consistent_entry [OF assms] by (simp_all add: entry_ok_def)

lemma same_ok:
  assumes "table_consistent P rt" "map_of (rt_entries rt) key = Some entry"
  shows "table_consistent P (selectRoute nb mexp rt key entry now)"
  using reselect_ok [OF assms routes_ok [OF assms]] by simp

lemma recompute_ok: "table_consistent P rt \<Longrightarrow> table_consistent P (recomputeNeighbor nb mexp rt n now)"
  unfolding recomputeNeighbor_def
  by (rule forEntries_ok) (auto split: option.split intro: same_ok)

lemma expire_ok: "table_consistent P rt \<Longrightarrow> table_consistent P (expireNeighbor nb mexp rt n now)"
  unfolding expireNeighbor_def
proof (rule forEntries_ok)
  fix rt key entry assume t: "table_consistent P rt" "map_of (rt_entries rt) key = Some entry"
  have d: "distinct (map fst (AList.delete n (ke_routes entry)))" "\<forall>(m, r)\<in>set (AList.delete n (ke_routes entry)). P key m (advertised r)"
    using routes_ok [OF t] distinct_delete [of "ke_routes entry" n] by (auto simp: AList.delete_eq)
  show "table_consistent P (case map_of (ke_routes entry) n of
      Some _ \<Rightarrow> selectRoute nb mexp rt key (entry\<lparr>ke_routes := AList.delete n (ke_routes entry)\<rparr>) now | None \<Rightarrow> rt)"
    using t(1) reselect_ok [OF t d] by (simp split: option.split)
qed (erule table_consistent_view; simp)

lemma update_routes_ok:
  assumes "distinct (map fst rs)" "\<forall>(m, r)\<in>set rs. P key m (advertised r)" "P key n (advertised r)"
  shows "distinct (map fst (AList.update n r rs))" "\<forall>(m, r)\<in>set (AList.update n r rs). P key m (advertised r)"
  using assms alist_set_update [of rs n r] by (auto simp: distinct_update)

lemma retract_ok: "table_consistent P rt \<Longrightarrow> table_consistent P (retractNeighbor nb mexp rt n now)"
proof -
  have ok: "table_consistent P (forEntries (rt\<lparr>rt_retracted := insert n (rt_retracted rt)\<rparr>) (\<lambda>rt key entry.
        case map_of (ke_routes entry) n of
          Some route \<Rightarrow>
            let route = (if ri_rxMetric route \<noteq> MetricInfinity \<and> ri_hold route > 0
                         then route\<lparr>ri_expiresAt := now + ri_hold route\<rparr> else route);
                route = route\<lparr>ri_rxMetric := MetricInfinity\<rparr>
            in selectRoute nb mexp rt key (entry\<lparr>ke_routes := AList.update n route (ke_routes entry)\<rparr>) now
        | None \<Rightarrow> rt))" if "table_consistent P rt"
  proof (rule forEntries_ok)
    fix rt key entry assume t: "table_consistent P rt" "map_of (rt_entries rt) key = Some entry"
    have "P key n (advertised (r\<lparr>ri_expiresAt := x, ri_rxMetric := MetricInfinity\<rparr>))" "P key n (advertised (r\<lparr>ri_rxMetric := MetricInfinity\<rparr>))"
      if "map_of (ke_routes entry) n = Some r" for r x
      using routes_ok(2) [OF t] map_of_SomeD [OF that] retracted [of key n "advertised r"] by (auto simp: advertised_def)
    then show "table_consistent P (case map_of (ke_routes entry) n of
          Some route \<Rightarrow>
            let route = (if ri_rxMetric route \<noteq> MetricInfinity \<and> ri_hold route > 0
                         then route\<lparr>ri_expiresAt := now + ri_hold route\<rparr> else route);
                route = route\<lparr>ri_rxMetric := MetricInfinity\<rparr>
            in selectRoute nb mexp rt key (entry\<lparr>ke_routes := AList.update n route (ke_routes entry)\<rparr>) now
        | None \<Rightarrow> rt)"
      using t(1) reselect_ok [OF t update_routes_ok [OF routes_ok [OF t]]] by (simp add: Let_def split: option.split)
  qed (rule table_consistent_view [OF that]; simp)
  then show "table_consistent P rt \<Longrightarrow> table_consistent P (retractNeighbor nb mexp rt n now)" by (simp add: retractNeighbor_def)
qed

lemma sweepEntries_ok: "table_consistent P rt \<Longrightarrow> table_consistent P (forEntries (rt\<lparr>rt_nextExpiryAt := 0\<rparr>) (\<lambda>rt key entry. selectRoute nb mexp rt key entry now))"
  by (rule forEntries_ok) (auto intro: same_ok table_consistent_view)

lemma storeRoute_adv: "advertised (storeRoute route adv hold now) = adv"
  by (simp add: storeRoute_def advertised_def Let_def)

lemma acquire_ok:
  assumes "table_consistent P rt" "distinct (map fst (ke_routes entry))" "\<forall>(m, r)\<in>set (ke_routes entry). P key m (advertised r)"
    and "P key n adv" "map_of (rt_entries rt) key \<noteq> None \<or> length (rt_entries rt) < maxRouteKeys"
  shows "table_consistent P (acquire nb mexp rt n key entry route adv feas hold now)"
proof -
  let ?e = "entry\<lparr>ke_routes := AList.update n (storeRoute route adv hold now) (ke_routes entry)\<rparr>"
  let ?es = "AList.update key ?e (rt_entries rt)"
  have t: "accounted rt" "distinct (map fst (rt_entries rt))" "length (rt_entries rt) \<le> maxRouteKeys"
    "\<forall>(k, e)\<in>set (rt_entries rt). entry_ok P (rt_sources rt) k e" using assms(1) by (simp_all add: table_consistent_def)
  note r = update_routes_ok [OF assms(2,3), of n "storeRoute route adv hold now"]
  have l: "length ?es \<le> maxRouteKeys"
  proof (cases "map_of (rt_entries rt) key")
    case None
    then show ?thesis using assms(5) by (simp add: alist_update_new)
  next
    case (Some old)
    then obtain xs ys where "rt_entries rt = xs @ (key, old) # ys" "\<And>w. AList.update key w (rt_entries rt) = xs @ (key, w) # ys"
      using alist_split [OF t(2)] by blast
    then show ?thesis using t(3) by simp
  qed
  have k: "key \<in> fst ` set ?es" "\<forall>(k, e)\<in>set ?es. k \<noteq> key \<longrightarrow> entry_ok P (rt_sources rt) k e"
    using t(2,4) alist_set_update [of "rt_entries rt" key ?e] by auto
  have "table_consistent P (selectRoute nb mexp rt' key ?e now)"
    if "sourceView rt' = sourceView rt" "rt_entries rt' = ?es" for rt'
    using that t l k r assms(4) accounted_view [OF that(1)]
    by (intro select_ok) (auto simp: distinct_update storeRoute_adv sourceView_def)
  then show ?thesis by (simp add: acquire_def Let_def)
qed

lemma update_ok:
  assumes "table_consistent P rt" "P key n adv"
  shows "table_consistent P (rt_update nb mexp rt n key adv hold now)"
proof -
  obtain rt' where rt: "(if adv_metric adv \<noteq> MetricInfinity then forgetRetraction rt n else rt) = rt'" by simp
  then have t: "table_consistent P rt'" using table_consistent_view [OF assms(1), of rt'] assms(1) by (auto simp: forgetRetraction_def)
  have "table_consistent P (acquire nb mexp rt' n key entry route adv feas hold now)"
    if "map_of (rt_entries rt') key = Some entry" for entry route feas
    using routes_ok [OF t that] that by (intro acquire_ok) (auto intro: t assms(2))
  moreover have "table_consistent P (acquire nb mexp rt' n key newKeyEntry newRoute adv feas hold now)"
    if "length (rt_entries rt') < maxRouteKeys" for feas
    using that by (intro acquire_ok) (auto intro: t assms(2) simp: newKeyEntry_def)
  ultimately show ?thesis using t unfolding rt_update_def Let_def rt
    by (auto split: option.split)
qed

lemma adopt_ok:
  assumes "table_consistent P rt"
  shows "table_consistent P (rt\<lparr>rt_entries := AList.delete key (rt_entries rt)\<rparr>)"
proof -
  have "length (AList.delete key (rt_entries rt)) \<le> maxRouteKeys"
    using assms length_delete_le [of key "rt_entries rt"] by (simp add: table_consistent_def)
  then show ?thesis using assms distinct_delete [of "rt_entries rt" key] accounted_view [of "rt\<lparr>rt_entries := AList.delete key (rt_entries rt)\<rparr>" rt]
    by (auto simp: table_consistent_def AList.delete_eq)
qed

end

section \<open>Feasibility distances\<close>

lemma observe_entries [simp]: "rt_entries (observe rt key adv from now) = rt_entries rt"
  by (simp add: observe_def releaseOrigin_def Let_def split: option.split)

lemma observe_source:
  "map_of (rt_sources (observe rt key adv from now)) i =
     (if adv_metric adv = MetricInfinity \<or> i \<noteq> (key, adv_routerID adv) then map_of (rt_sources rt) i
      else Some (case map_of (rt_sources rt) i of
        None \<Rightarrow> \<lparr>se_seqno = adv_seqno adv, se_metric = adv_metric adv, se_gcAt = now + sourceGCTime, se_owner = from\<rparr>
      | Some e \<Rightarrow> (if better e (adv_seqno adv) (adv_metric adv)
          then e\<lparr>se_seqno := adv_seqno adv, se_metric := adv_metric adv\<rparr> else e)\<lparr>se_owner := from, se_gcAt := now + sourceGCTime\<rparr>))"
  by (auto simp: observe_def releaseOrigin_def Let_def update_conv split: option.split)

text \<open>Recording the distance of the current selection, or of an origin that is not selected, keeps the selection feasible.\<close>

definition harmless :: "routeTable \<Rightarrow> routeKey \<Rightarrow> advertisement \<Rightarrow> bool" where
  "harmless rt key adv \<longleftrightarrow> (\<forall>e. map_of (rt_entries rt) key = Some e \<and> sel_neighbor (ke_selected e) \<noteq> None \<and>
     sel_routerID (ke_selected e) = adv_routerID adv \<longrightarrow>
     adv_seqno adv = sel_seqno (ke_selected e) \<and> adv_metric adv = sel_cost (ke_selected e))"

lemma harmless_selection:
  assumes "map_of (rt_entries rt) key = Some e"
  shows "harmless rt key \<lparr>adv_routerID = sel_routerID (ke_selected e), adv_seqno = sel_seqno (ke_selected e),
      adv_metric = sel_cost (ke_selected e)\<rparr>" 
  unfolding harmless_def
proof (intro allI impI)
  fix f assume "map_of (rt_entries rt) key = Some f \<and> sel_neighbor (ke_selected f) \<noteq> None \<and>
     sel_routerID (ke_selected f) = adv_routerID \<lparr>adv_routerID = sel_routerID (ke_selected e), adv_seqno = sel_seqno (ke_selected e),
      adv_metric = sel_cost (ke_selected e)\<rparr>"
  then have "f = e" using assms by simp
  then show "adv_seqno \<lparr>adv_routerID = sel_routerID (ke_selected e), adv_seqno = sel_seqno (ke_selected e),
      adv_metric = sel_cost (ke_selected e)\<rparr> = sel_seqno (ke_selected f) \<and> adv_metric \<lparr>adv_routerID = sel_routerID (ke_selected e), adv_seqno = sel_seqno (ke_selected e),
      adv_metric = sel_cost (ke_selected e)\<rparr> = sel_cost (ke_selected f)" by simp
qed
lemma observe_ok:
  assumes "table_consistent P rt" "harmless rt key adv"
  shows "table_consistent P (observe rt key adv from now)"
proof -
  have "entry_ok P (rt_sources (observe rt key adv from now)) k e" if e: "(k, e) \<in> set (rt_entries rt)" for k e
  proof -
    have ok: "entry_ok P (rt_sources rt) k e" and m: "map_of (rt_entries rt) k = Some e" using assms(1) e by (auto simp: table_consistent_def)
    have "selection_ok (rt_sources (observe rt key adv from now)) k e"
    proof (cases "sel_neighbor (ke_selected e)")
      case None
      then show ?thesis using ok by (simp add: entry_ok_def selection_ok_def)
    next
      case (Some n)
      then obtain r where r: "map_of (ke_routes e) n = Some r" "sel_routerID (ke_selected e) = ri_routerID r"
        "sel_seqno (ke_selected e) = ri_seqno r" "ri_rxMetric r < sel_cost (ke_selected e)" "sel_cost (ke_selected e) \<noteq> MetricInfinity"
        "\<And>d. map_of (rt_sources rt) (k, ri_routerID r) = Some d \<Longrightarrow> better d (ri_seqno r) (ri_rxMetric r)"
        using ok by (auto simp: entry_ok_def selection_ok_def)
      have h: "k = key \<Longrightarrow> ri_routerID r = adv_routerID adv \<Longrightarrow> adv_seqno adv = ri_seqno r \<and> ri_rxMetric r < adv_metric adv"
        using assms(2) m Some r by (auto simp: harmless_def)
      have "better d (ri_seqno r) (ri_rxMetric r)"
        if d: "map_of (rt_sources (observe rt key adv from now)) (k, ri_routerID r) = Some d" for d
        using d h r(6) by (auto simp: observe_source better_def split: if_splits option.splits)
      then show ?thesis using Some r by (simp add: selection_ok_def)
    qed
    then show ?thesis using ok by (simp add: entry_ok_def)
  qed
  then show ?thesis using assms(1) accounted_observe [of rt] by (auto simp: table_consistent_def)
qed

lemma sweepSources_view [simp]: "rt_entries (sweepSources rt now) = rt_entries rt"
proof -
  have "rt_entries (foldl (sweepSource now) rt l) = rt_entries rt" for l
    by (induction l arbitrary: rt) (auto simp: sweepSource_def releaseOrigin_def split: prod.split)
  then show ?thesis by (simp add: sweepSources_def)
qed

lemma sweepSources_ok:
  assumes "table_consistent P rt"
  shows "table_consistent P (sweepSources rt now)"
proof -
  have a: "accounted rt" using assms by (simp add: table_consistent_def)
  note s = sweepSources_exact [OF a, of now]
  have "map_of (filter (\<lambda>(i, e). now < se_gcAt e) (rt_sources rt)) i = Some d \<Longrightarrow> map_of (rt_sources rt) i = Some d" for i d
    using a by (auto simp: accounted_def dest!: map_of_SomeD)
  then have "selection_ok (rt_sources rt) k e \<Longrightarrow> selection_ok (rt_sources (sweepSources rt now)) k e" for k e
    by (auto simp: selection_ok_def s(2) split: option.splits)
  then have "entry_ok P (rt_sources rt) k e \<Longrightarrow> entry_ok P (rt_sources (sweepSources rt now)) k e" for k e
    by (simp add: entry_ok_def)
  then show ?thesis using assms s(1) by (auto simp: table_consistent_def)
qed

section \<open>Runs of the table\<close>

text \<open>
  The calls the speaker makes on its table. \<open>Advertised\<close> is what \<open>advertiseTo\<close> records for a selected route,
  \<open>Originated\<close> what it records for a prefix of this node, which has no entry, and \<open>Adopted\<close> is the removal of
  the entry in \<open>adoptOriginatedLocked\<close>. Each call reads the neighbours as they are at that moment.
\<close>

datatype routeOp =
  Update nat routeKey advertisement duration time
| Recompute nat time
| Expire nat time
| Retract nat time
| SweepExpired time
| Advertised routeKey string time
| Originated routeKey routerid u16 string time
| Adopted routeKey

fun tableStep :: "(nat \<Rightarrow> neighborState) \<Rightarrow> (int \<Rightarrow> int \<Rightarrow> real) \<Rightarrow> routeTable \<Rightarrow> routeOp \<Rightarrow> routeTable" where
  "tableStep nb mexp rt (Update n key adv hold now) = rt_update nb mexp rt n key adv hold now"
| "tableStep nb mexp rt (Recompute n now) = recomputeNeighbor nb mexp rt n now"
| "tableStep nb mexp rt (Expire n now) = expireNeighbor nb mexp rt n now"
| "tableStep nb mexp rt (Retract n now) = retractNeighbor nb mexp rt n now"
| "tableStep nb mexp rt (SweepExpired now) = sweepExpired nb mexp rt now"
| "tableStep nb mexp rt (Advertised key from now) =
     (case map_of (rt_entries rt) key of
        None \<Rightarrow> rt
      | Some e \<Rightarrow> let sel = ke_selected e in
          if sel_neighbor sel = None then rt
          else observe rt key \<lparr>adv_routerID = sel_routerID sel, adv_seqno = sel_seqno sel, adv_metric = sel_cost sel\<rparr> from now)"
| "tableStep nb mexp rt (Originated key rid seqno from now) =
     (if map_of (rt_entries rt) key \<noteq> None then rt
      else observe rt key \<lparr>adv_routerID = rid, adv_seqno = seqno, adv_metric = 0\<rparr> from now)"
| "tableStep nb mexp rt (Adopted key) = rt\<lparr>rt_entries := AList.delete key (rt_entries rt)\<rparr>"

context provenance
begin

lemma step_ok:
  assumes "table_consistent P rt" "\<And>n key adv hold now. op = Update n key adv hold now \<Longrightarrow> P key n adv"
  shows "table_consistent P (tableStep nb mexp rt op)"
proof (cases op)
  case (Update n key adv hold now)
  then show ?thesis using update_ok [OF assms(1)] assms(2) by simp
next
  case (SweepExpired now)
  then show ?thesis using sweepSources_ok [OF sweepEntries_ok [OF assms(1)]] by (simp add: sweepExpired_def)
next
  case (Advertised key peer now)
  note ok = observe_ok [OF assms(1) harmless_selection]
  show ?thesis unfolding Advertised using assms(1) by (cases "map_of (rt_entries rt) key") (simp_all add: Let_def ok)
next
  case (Originated key rid seqno peer now)
  have "table_consistent P (observe rt key \<lparr>adv_routerID = rid, adv_seqno = seqno, adv_metric = 0\<rparr> peer now)"
    if "map_of (rt_entries rt) key = None"
    by (rule observe_ok [OF assms(1)]) (simp add: harmless_def that)
  then show ?thesis using Originated assms(1) by simp
qed (insert assms(1), simp_all add: recompute_ok expire_ok retract_ok adopt_ok)

end

interpretation anyRoute: provenance "\<lambda>_ _ _. True"
  by unfold_locales simp

definition runTable :: "(int \<Rightarrow> int \<Rightarrow> real) \<Rightarrow> routeTable \<Rightarrow> ((nat \<Rightarrow> neighborState) \<times> routeOp) list \<Rightarrow> routeTable" where
  "runTable mexp rt ops = foldl (\<lambda>rt (nb, op). tableStep nb mexp rt op) rt ops"

lemma runTable_ok: "table_consistent (\<lambda>_ _ _. True) rt \<Longrightarrow> table_consistent (\<lambda>_ _ _. True) (runTable mexp rt ops)"
  unfolding runTable_def
  by (induction ops arbitrary: rt) (auto intro!: anyRoute.step_ok split: prod.split)

lemma accounted_counts:
  assumes "accounted rt"
  shows "count_of (rt_originsPerKey rt) k = originCount (rt_sources rt) k"
    "count_of (rt_sourcesByPeer rt) p = peerCount (rt_sources rt) p"
  using assms unfolding accounted_def by (auto intro: tally_count)

text \<open>
  C22. Whatever the order of the calls, the table stays consistent: no prefix has two entries, no entry is empty
  and there are at most \<open>maxRouteKeys\<close>; a selection is a route of its entry with a finite cost above what was
  advertised, and still better than the feasibility distance of its origin; and the three sets of counters are exactly
  the numbers of sources per prefix, per prefix and neighbour, and per neighbour, with no counter at zero.
\<close>

theorem table_invariant:
  "let rt = runTable mexp (newRouteTable tau trigger cost) ops in
     table_consistent (\<lambda>_ _ _. True) rt \<and>
     (\<forall>k. count_of (rt_originsPerKey rt) k = length (filter (\<lambda>(i, e). fst i = k) (rt_sources rt))) \<and>
     (\<forall>p. count_of (rt_sourcesByPeer rt) p = length (filter (\<lambda>(i, e). se_owner e = p) (rt_sources rt)))"
proof -
  let ?rt = "runTable mexp (newRouteTable tau trigger cost) ops"
  have t: "table_consistent (\<lambda>_ _ _. True) ?rt" by (rule runTable_ok [OF table_consistent_new])
  then have "accounted ?rt" by (simp add: table_consistent_def)
  then show ?thesis using t accounted_counts by (simp add: originCount_def peerCount_def Let_def)
qed


section \<open>Answered requests\<close>

lemma seqnoGT_next: "seqnoGT (s + 1) s"
  by (simp add: seqnoGT_def)

lemma pass_fresh:
  assumes "(n, r) \<in> set routes" "now < ri_expiresAt r" "candidateRoute nb rt key now n r"
  shows "\<exists>r'. (n, r') \<in> set (passRoutes nb mexp rt now routes) \<and> candidateRoute nb rt key now n r'"
proof -
  let ?r = "smoothed nb mexp rt now n r"
  have "(n, ?r) \<in> set (passRoute nb mexp rt now (n, r))" using assms(2) by (simp add: passRoute_def refresh_def)
  then have "(n, ?r) \<in> set (passRoutes nb mexp rt now routes)" using assms(1) unfolding passRoutes_def set_concat set_map by blast
  moreover have "candidateRoute nb rt key now n ?r" using assms(3) by (simp add: candidateRoute_def smoothed_def Let_def)
  ultimately show ?thesis by blast
qed

lemma selectRoute_finds:
  assumes "distinct (map fst (ke_routes entry))" "(n, r) \<in> set (ke_routes entry)" "now < ri_expiresAt r" "candidateRoute nb rt key now n r"
  shows "\<exists>e. map_of (rt_entries (selectRoute nb mexp rt key entry now)) key = Some e \<and> sel_neighbor (ke_selected e) \<noteq> None"
proof -
  let ?e = "selectedEntry nb mexp rt key entry now"
  note c = selectedEntry_chosen [OF assms(1), where nb = nb and rt = rt and key = key and now = now and mexp = mexp]
  obtain r' where r: "(n, r') \<in> set (ke_routes ?e)" "candidateRoute nb rt key now n r'"
    using pass_fresh [OF assms(2-4), of mexp] by (auto simp: c(2))
  then have "sel_neighbor (ke_selected ?e) \<noteq> None" using c(1) by (auto simp: chosen_def split: option.splits)
  moreover have "ke_routes ?e \<noteq> []" using r(1) by auto
  ultimately show ?thesis by (simp add: selectRoute_effect update_conv)
qed

text \<open>
  C23. A seqno request that is answered ends the starvation of its prefix: when a neighbour whose link is usable sends,
  for a route this node holds from it, an update with the sequence number \<open>requestSeqno\<close> asked for, the prefix has a
  selected route again, whatever metric was recorded as the feasibility distance.
\<close>

theorem request_answered:
  assumes "table_consistent (\<lambda>_ _ _. True) rt" "map_of (rt_entries rt) key = Some entry" "map_of (ke_routes entry) n = Some route"
    and "map_of (rt_sources rt) (key, adv_routerID adv) = Some d"
    and "adv_seqno adv = requestSeqno rt key adv" "hold > 0"
    and "saturatingAdd (max 1 (linkCost (nb n) now (rt_cost rt))) (adv_metric adv) \<noteq> MetricInfinity"
  shows "\<exists>e. map_of (rt_entries (rt_update nb mexp rt n key adv hold now)) key = Some e \<and> sel_neighbor (ke_selected e) \<noteq> None"
proof -
  let ?r = "storeRoute route adv hold now" and ?rt = "forgetRetraction rt n"
  let ?e = "entry\<lparr>ke_routes := AList.update n ?r (ke_routes entry)\<rparr>"
  have rx: "ri_rxMetric ?r = adv_metric adv" by (simp add: storeRoute_def Let_def)
  have fin: "route_cost ?r (nb n) now (rt_cost rt) \<noteq> MetricInfinity" unfolding route_cost_def rx by (rule assms(7))
  have m: "adv_metric adv \<noteq> MetricInfinity" using route_cost_props(3) [OF fin] rx by simp
  have d: "distinct (map fst (ke_routes entry))" using table_consistent_entry [OF assms(1,2)] by (simp add: entry_ok_def)
  have r: "distinct (map fst (ke_routes ?e))" "(n, ?r) \<in> set (ke_routes ?e)" "now < ri_expiresAt ?r"
    using d m assms(6) by (simp_all add: distinct_update alist_set_update storeRoute_def Let_def)
  have f: "feasible rt' key adv p" if "sourceView rt' = sourceView rt" for rt' p
    using that assms(4,5) seqnoGT_next by (simp add: feasible_def sourceView_def better_def requestSeqno_def)
  have cand: "candidateRoute nb rt' key now n ?r" if "sourceView rt' = sourceView rt" for rt'
    using f [OF that] fin that by (simp add: candidateRoute_def anyRoute.storeRoute_adv sourceView_def)
  have "rt_update nb mexp rt n key adv hold now =
      selectRoute nb mexp (?rt\<lparr>rt_entries := AList.update key ?e (rt_entries rt)\<rparr>) key ?e now"
    using m assms(2,3) f [of ?rt] by (simp add: rt_update_def acquire_def Let_def forgetRetraction_def)
  then show ?thesis using selectRoute_finds [OF r cand] by (simp add: forgetRetraction_def)
qed


definition starvedTable :: routeTable where
  "starvedTable = (observe sampleTable sampleKey \<lparr>adv_routerID = 9, adv_seqno = 1, adv_metric = 10\<rparr> ''p'' 0)
     \<lparr>rt_entries := [(sampleKey, newKeyEntry\<lparr>ke_routes := [(1, sampleRoute 96)]\<rparr>)]\<rparr>"

lemma starvedTable_source: "map_of (rt_sources starvedTable) (sampleKey, 9) = Some \<lparr>se_seqno = 1, se_metric = 10, se_gcAt = sourceGCTime, se_owner = ''p''\<rparr>"
  by (simp add: starvedTable_def observe_source MetricInfinity_def sampleTable_def newRouteTable_def)

theorem request_answered_witness:
  "\<exists>e. map_of (rt_entries (rt_update (\<lambda>n. liveNeighbor ''p'') (\<lambda>_ _. 0) starvedTable 1 sampleKey
       \<lparr>adv_routerID = 9, adv_seqno = 2, adv_metric = 96\<rparr> 5 50)) sampleKey = Some e \<and> sel_neighbor (ke_selected e) \<noteq> None"
proof (rule request_answered)
  let ?o = "observe sampleTable sampleKey \<lparr>adv_routerID = 9, adv_seqno = 1, adv_metric = 10\<rparr> ''p'' 0"
  have "accounted sampleTable" by (simp add: sampleTable_def accounted_new)
  then have "accounted starvedTable"
    using accounted_observe [of sampleTable] accounted_view [of starvedTable ?o] by (simp add: starvedTable_def)
  then show "table_consistent (\<lambda>_ _ _. True) starvedTable"
    by (simp add: table_consistent_def entry_ok_def selection_ok_def starvedTable_def newKeyEntry_def noSelection_def maxRouteKeys_def)
  show "map_of (rt_entries starvedTable) sampleKey = Some (newKeyEntry\<lparr>ke_routes := [(1, sampleRoute 96)]\<rparr>)"
    by (simp add: starvedTable_def)
  have c: "rt_cost starvedTable = DefaultCostParams"
    by (simp add: starvedTable_def observe_def sampleTable_def newRouteTable_def)
  have "max 1 (linkCost (liveNeighbor ''p'') 50 DefaultCostParams) = 96" unfolding live_cost by (simp add: max_def)
  then show "saturatingAdd (max 1 (linkCost (liveNeighbor ''p'') 50 (rt_cost starvedTable)))
      (adv_metric \<lparr>adv_routerID = 9, adv_seqno = 2, adv_metric = 96\<rparr>) \<noteq> MetricInfinity"
    by (simp add: c metric_le(2) saturatingAdd_unat)
qed (simp_all add: starvedTable_source requestSeqno_def)

end
