(* ===== verification/Babel_Send.thy ===== *)
theory Babel_Send
  imports Babel_Route Babel_Udp "HOL-Library.Multiset"
begin

text \<open>
  The outgoing side of \<open>internal/babel/send.go\<close> that does not read the speaker: actions, their
  merging per neighbour, the split at the packet size with the router-id left out where it is in effect,
  and the undos that travel with each packet.

  Whether a peer has a transmission slot free, and the clock read for a Hello, come from an environment
  \<open>env\<close> indexed by the packets tried so far. A closure that gives a Hello back is the address of its
  neighbour.
\<close>

section \<open>Model\<close>

datatype sendPriority = priorityHello | priorityRequest | priorityDump

fun priorityValue :: "sendPriority \<Rightarrow> nat" where
  "priorityValue priorityHello = 0"
| "priorityValue priorityRequest = 1"
| "priorityValue priorityDump = 2"

record tlvUndo =
  tu_firstTLV :: nat
  tu_key :: routeKey
  tu_spent :: bool

record sendAction =
  act_neighbor :: nat
  act_dest :: addr
  act_priority :: sendPriority
  act_tlvs :: "RawTLV list"
  act_rollback :: "tlvUndo list"
  act_whenRefused :: "nat list"

record reservedPacket =
  rp_place :: bytes
  rp_neighbor :: nat
  rp_undo :: "tlvUndo list"

definition takeUndos :: "tlvUndo list \<Rightarrow> nat \<Rightarrow> nat \<Rightarrow> tlvUndo list \<times> tlvUndo list" where
  "takeUndos rollback lo hi =
     (let rollback = dropWhile (\<lambda>u. tu_firstTLV u < lo) rollback
      in (takeWhile (\<lambda>u. tu_firstTLV u < hi) rollback, dropWhile (\<lambda>u. tu_firstTLV u < hi) rollback))"

definition act_target :: "sendAction \<Rightarrow> nat \<times> addr \<times> sendPriority" where
  "act_target a = (act_neighbor a, act_dest a, act_priority a)"

definition mergeAction :: "sendAction \<Rightarrow> sendAction \<Rightarrow> sendAction" where
  "mergeAction m a =
     (let offset = length (act_tlvs m)
      in m\<lparr>act_rollback := act_rollback m @ map (\<lambda>u. u\<lparr>tu_firstTLV := tu_firstTLV u + offset\<rparr>) (act_rollback a),
           act_tlvs := act_tlvs m @ act_tlvs a,
           act_whenRefused := act_whenRefused m @ act_whenRefused a\<rparr>)"

fun mergeInto :: "sendAction \<Rightarrow> sendAction list \<Rightarrow> sendAction list" where
  "mergeInto a [] = [a]"
| "mergeInto a (m # ms) = (if act_target m = act_target a then mergeAction m a # ms else m # mergeInto a ms)"

definition coalesce :: "sendAction list \<Rightarrow> sendAction list" where
  "coalesce actions =
     (if length actions < 2 then actions
      else foldl (\<lambda>merged a. if act_tlvs a = [] then merged else mergeInto a merged) [] actions)"

definition encodedSize :: "RawTLV list \<Rightarrow> nat" where
  "encodedSize ts = sum_list (map (\<lambda>t. 2 + length (tlv_Body t)) ts)"

text \<open>A Router-Id and the Update behind it stay together.\<close>

fun takeGroup :: "RawTLV list \<Rightarrow> RawTLV list \<times> RawTLV list" where
  "takeGroup (t # u # rest) =
     (if tlv_Type t = TLVRouterID \<and> tlv_Type u = TLVUpdate then ([t, u], rest) else ([t], u # rest))"
| "takeGroup ts = (ts, [])"

text \<open>The pieces of an action, each with the range of TLVs of the action it stands for; a nil slice is empty.\<close>

function splitLoop :: "nat \<Rightarrow> nat \<Rightarrow> RawTLV list \<Rightarrow> RawTLV list \<Rightarrow> nat \<Rightarrow> bytes \<Rightarrow> nat \<Rightarrow> (RawTLV list \<times> nat \<times> nat) list" where
  "splitLoop packetSize i tlvs batch used inEffect batchFrom =
     (if tlvs = [] then (if batch = [] then [] else [(batch, batchFrom, i)])
      else let (grp, rest) = takeGroup tlvs;
               rid = (tlv_Type (hd grp) = TLVRouterID);
               trimmed = (if rid \<and> tlv_Body (hd grp) = inEffect then tl grp else grp);
               overflows = (batch \<noteq> [] \<and> used + encodedSize trimmed > packetSize)
           in if overflows
              then (batch, batchFrom, i) #
                splitLoop packetSize (i + length grp) rest grp (b_headerLen + encodedSize grp)
                  (if rid then tlv_Body (hd grp) else []) i
              else splitLoop packetSize (i + length grp) rest (batch @ trimmed) (used + encodedSize trimmed)
                  (if rid then tlv_Body (hd grp) else inEffect) batchFrom)"
  by pat_completeness auto

lemma takeGroup_length: "tlvs \<noteq> [] \<Longrightarrow> takeGroup tlvs = (grp, rest) \<Longrightarrow> length rest < length tlvs"
  by (cases tlvs rule: takeGroup.cases) (auto split: if_splits)

termination splitLoop
  by (relation "measure (\<lambda>(_, _, tlvs, _). length tlvs)") (auto dest: takeGroup_length [OF _ sym])

definition splitBatches :: "nat \<Rightarrow> RawTLV list \<Rightarrow> (RawTLV list \<times> nat \<times> nat) list" where
  "splitBatches packetSize tlvs = splitLoop packetSize 0 tlvs [] b_headerLen [] 0"

definition restamp :: "u32 \<Rightarrow> RawTLV \<Rightarrow> RawTLV" where
  "restamp now t =
     (if tlv_Type t = TLVHello
      then case DecodeHello (tlv_Body t) of Inl _ \<Rightarrow> t | Inr h \<Rightarrow> EncodeHello (h\<lparr>h_TxTS := now, h_HasTS := True\<rparr>)
      else t)"

definition reserveTo :: "addr \<Rightarrow> bool \<times> u32 \<Rightarrow> addr \<Rightarrow> RawTLV list \<Rightarrow> bytes option" where
  "reserveTo linkLocal = (\<lambda>(slot, clock) destination tlvs.
     let pkt = buildPacket linkLocal destination (EncodePacket (map (restamp clock) tlvs))
     in if slot then Some pkt else None)"

fun reservePieces ::
  "addr \<Rightarrow> (nat \<Rightarrow> bool \<times> u32) \<Rightarrow> nat \<Rightarrow> sendAction \<Rightarrow> tlvUndo list \<Rightarrow> (RawTLV list \<times> nat \<times> nat) list \<Rightarrow>
    reservedPacket list \<times> tlvUndo list \<times> bool \<times> nat" where
  "reservePieces linkLocal env k action pending [] = ([], [], True, k)"
| "reservePieces linkLocal env k action pending ((batch, lo, hi) # pieces) =
     (let (undo, pending) = takeUndos pending lo hi;
          (reserved, lost, whole, k') = reservePieces linkLocal env (k + 1) action pending pieces
      in case reserveTo linkLocal (env k) (act_dest action) batch of
           Some place \<Rightarrow> (\<lparr>rp_place = place, rp_neighbor = act_neighbor action, rp_undo = undo\<rparr> # reserved, lost, whole, k')
         | None \<Rightarrow> (reserved, undo @ lost, False, k'))"

definition reserveBatchesTo ::
  "addr \<Rightarrow> nat \<Rightarrow> (nat \<Rightarrow> bool \<times> u32) \<Rightarrow> nat \<Rightarrow> sendAction \<Rightarrow> reservedPacket list \<times> tlvUndo list \<times> bool \<times> nat" where
  "reserveBatchesTo linkLocal packetSize env k action =
     reservePieces linkLocal env k action (act_rollback action) (splitBatches packetSize (act_tlvs action))"


section \<open>Batches\<close>

function groups :: "RawTLV list \<Rightarrow> RawTLV list list" where
  "groups tlvs = (if tlvs = [] then [] else let (grp, rest) = takeGroup tlvs in grp # groups rest)"
  by pat_completeness auto

termination groups
  by (relation "measure length") (auto dest: takeGroup_length [OF _ sym])

declare splitLoop.simps [simp del] groups.simps [simp del]

fun splitGroups :: "nat \<Rightarrow> nat \<Rightarrow> RawTLV list list \<Rightarrow> RawTLV list \<Rightarrow> bytes \<Rightarrow> nat \<Rightarrow> (RawTLV list \<times> nat \<times> nat) list" where
  "splitGroups packetSize i [] batch inEffect batchFrom = (if batch = [] then [] else [(batch, batchFrom, i)])"
| "splitGroups packetSize i (grp # gs) batch inEffect batchFrom =
     (let rid = (tlv_Type (hd grp) = TLVRouterID);
          trimmed = (if rid \<and> tlv_Body (hd grp) = inEffect then tl grp else grp)
      in if batch \<noteq> [] \<and> b_headerLen + encodedSize batch + encodedSize trimmed > packetSize
         then (batch, batchFrom, i) # splitGroups packetSize (i + length grp) gs grp (if rid then tlv_Body (hd grp) else []) i
         else splitGroups packetSize (i + length grp) gs (batch @ trimmed) (if rid then tlv_Body (hd grp) else inEffect) batchFrom)"

lemma encodedSize_append [simp]: "encodedSize (xs @ ys) = encodedSize xs + encodedSize ys"
  by (simp add: encodedSize_def)

lemma splitLoop_groups:
  "used = b_headerLen + encodedSize batch \<Longrightarrow>
    splitLoop packetSize i tlvs batch used inEffect batchFrom = splitGroups packetSize i (groups tlvs) batch inEffect batchFrom"
proof (induction packetSize i tlvs batch used inEffect batchFrom rule: splitLoop.induct)
  case (1 packetSize i tlvs batch used inEffect batchFrom)
  show ?case
  proof (cases "tlvs = []")
    case True
    then show ?thesis by (simp add: splitLoop.simps groups.simps)
  next
    case False
    obtain grp rest where g: "takeGroup tlvs = (grp, rest)" by (cases "takeGroup tlvs")
    then have gs: "groups tlvs = grp # groups rest" using False by (simp add: groups.simps)
    let ?rid = "tlv_Type (hd grp) = TLVRouterID"
    let ?trimmed = "if ?rid \<and> tlv_Body (hd grp) = inEffect then tl grp else grp"
    note ih = "1.IH" [OF False g [symmetric] refl refl refl refl]
    show ?thesis
    proof (cases "batch \<noteq> [] \<and> used + encodedSize ?trimmed > packetSize")
      case True
      have "splitLoop packetSize i tlvs batch used inEffect batchFrom =
          (batch, batchFrom, i) # splitLoop packetSize (i + length grp) rest grp (b_headerLen + encodedSize grp)
            (if ?rid then tlv_Body (hd grp) else []) i"
        by (subst splitLoop.simps) (simp only: Let_def g prod.case if_not_P [OF False] if_P [OF True])
      also have "\<dots> = splitGroups packetSize i (groups tlvs) batch inEffect batchFrom"
        unfolding ih(1) [OF True refl] gs splitGroups.simps Let_def if_P [OF True [unfolded "1.prems"]] ..
      finally show ?thesis .
    next
      case no: False
      have "splitLoop packetSize i tlvs batch used inEffect batchFrom =
          splitLoop packetSize (i + length grp) rest (batch @ ?trimmed) (used + encodedSize ?trimmed)
            (if ?rid then tlv_Body (hd grp) else inEffect) batchFrom"
        by (subst splitLoop.simps) (simp only: Let_def g prod.case if_not_P [OF False] if_not_P [OF no])
      also have "\<dots> = splitGroups packetSize (i + length grp) (groups rest) (batch @ ?trimmed)
            (if ?rid then tlv_Body (hd grp) else inEffect) batchFrom"
        by (rule ih(2) [OF no]) (simp only: "1.prems" encodedSize_append add.assoc)
      also have "\<dots> = splitGroups packetSize i (groups tlvs) batch inEffect batchFrom"
        unfolding gs splitGroups.simps Let_def if_not_P [OF no [unfolded "1.prems"]] ..
      finally show ?thesis .
    qed
  qed
qed

lemma groups_concat: "concat (groups tlvs) = tlvs"
proof (induction tlvs rule: groups.induct)
  case (1 tlvs)
  show ?case
  proof (cases "tlvs = []")
    case False
    obtain grp rest where g: "takeGroup tlvs = (grp, rest)" by (cases "takeGroup tlvs")
    then have "grp @ rest = tlvs" using False by (cases tlvs rule: takeGroup.cases) (auto split: if_splits)
    then show ?thesis using 1 [OF False g [symmetric] refl] False g by (simp add: groups.simps)
  qed (simp add: groups.simps)
qed

text \<open>
  What the speaker builds: a Router-Id has ten bytes, and every Update stands directly behind one.
  A receiver attributes an Update to the last Router-Id before it in the packet.
\<close>

definition group_ok :: "RawTLV list \<Rightarrow> bool" where
  "group_ok g \<longleftrightarrow> (case g of
     [t] \<Rightarrow> tlv_Type t \<noteq> TLVUpdate \<and> (tlv_Type t = TLVRouterID \<longrightarrow> length (tlv_Body t) = 10)
   | [t, u] \<Rightarrow> tlv_Type t = TLVRouterID \<and> length (tlv_Body t) = 10 \<and> tlv_Type u = TLVUpdate
   | _ \<Rightarrow> False)"

definition built :: "RawTLV list \<Rightarrow> bool" where
  "built tlvs \<longleftrightarrow> list_all group_ok (groups tlvs)"

fun attributed :: "bytes option \<Rightarrow> RawTLV list \<Rightarrow> (bytes option \<times> RawTLV) list" where
  "attributed rid [] = []"
| "attributed rid (t # ts) =
     (if tlv_Type t = TLVRouterID then attributed (Some (tlv_Body t)) ts
      else (if tlv_Type t = TLVUpdate then rid else None, t) # attributed rid ts)"

fun ridAfter :: "bytes option \<Rightarrow> RawTLV list \<Rightarrow> bytes option" where
  "ridAfter rid [] = rid"
| "ridAfter rid (t # ts) = ridAfter (if tlv_Type t = TLVRouterID then Some (tlv_Body t) else rid) ts"

lemma attributed_append: "attributed rid (xs @ ys) = attributed rid xs @ attributed (ridAfter rid xs) ys"
  by (induction xs arbitrary: rid) auto

lemma ridAfter_append: "ridAfter rid (xs @ ys) = ridAfter (ridAfter rid xs) ys"
  by (induction xs arbitrary: rid) auto

lemma group_cases:
  assumes "group_ok g"
  obtains (one) t where "g = [t]" "tlv_Type t \<noteq> TLVUpdate" "tlv_Type t = TLVRouterID \<longrightarrow> length (tlv_Body t) = 10"
  | (two) t u where "g = [t, u]" "tlv_Type t = TLVRouterID" "length (tlv_Body t) = 10" "tlv_Type u = TLVUpdate"
  using assms by (auto simp: group_ok_def split: list.splits)

lemma types_differ [simp]: "TLVUpdate \<noteq> TLVRouterID" "TLVRouterID \<noteq> TLVUpdate"
  by (simp_all add: TLVUpdate_def TLVRouterID_def)

lemma attributed_group: "group_ok g \<Longrightarrow> attributed rid g = attributed None g"
  by (erule group_cases) auto

lemma attributed_groups:
  "list_all group_ok gs \<Longrightarrow> attributed rid (concat gs) = concat (map (attributed None) gs)"
proof (induction gs arbitrary: rid)
  case (Cons g gs)
  then show ?case using attributed_group [of g rid] by (simp add: attributed_append)
qed simp

definition inEffectIs :: "bytes \<Rightarrow> RawTLV list \<Rightarrow> bool" where
  "inEffectIs b batch \<longleftrightarrow> ridAfter None batch = (if b = [] then None else Some b)"

lemma trimmed_same:
  assumes "group_ok g" "inEffectIs b batch"
    and "trimmed = (if tlv_Type (hd g) = TLVRouterID \<and> tlv_Body (hd g) = b then tl g else g)"
  shows "attributed None (batch @ trimmed) = attributed None batch @ attributed None g"
    "inEffectIs (if tlv_Type (hd g) = TLVRouterID then tlv_Body (hd g) else b) (batch @ trimmed)"
    "inEffectIs (if tlv_Type (hd g) = TLVRouterID then tlv_Body (hd g) else []) g"
    "batch @ trimmed = [] \<longleftrightarrow> False \<or> (batch = [] \<and> trimmed = [])"
  using assms by (auto elim!: group_cases simp: attributed_append ridAfter_append inEffectIs_def split: if_splits)

lemma split_attributed:
  "list_all group_ok gs \<Longrightarrow> inEffectIs b batch \<Longrightarrow>
    concat (map (\<lambda>(ts, _). attributed None ts) (splitGroups packetSize i gs batch b lo)) =
      attributed None batch @ concat (map (attributed None) gs)"
proof (induction gs arbitrary: i batch b lo)
  case (Cons g gs)
  have g: "group_ok g" "list_all group_ok gs" using Cons.prems(1) by simp_all
  note t = trimmed_same [OF g(1) Cons.prems(2) refl]
  show ?case using Cons.IH [OF g(2) t(2)] Cons.IH [OF g(2) t(3)] t(1) by (simp add: Let_def)
qed simp

lemma length_EncodePacket: "length (EncodePacket ts) \<le> b_headerLen + encodedSize ts"
proof -
  have "length (encodeBody ts) \<le> encodedSize ts" by (induction ts) (auto simp: encodedSize_def)
  then show ?thesis by (simp add: EncodePacket_eq b_headerLen_def)
qed

definition fits :: "nat \<Rightarrow> RawTLV list \<times> nat \<times> nat \<Rightarrow> bool" where
  "fits packetSize piece \<longleftrightarrow> fst piece \<noteq> [] \<and> b_headerLen + encodedSize (fst piece) \<le> packetSize"

lemma split_sizes:
  "\<forall>g\<in>set gs. b_headerLen + encodedSize g \<le> packetSize \<Longrightarrow> b_headerLen + encodedSize batch \<le> packetSize \<Longrightarrow>
    list_all (fits packetSize) (splitGroups packetSize i gs batch b lo)"
proof (induction gs arbitrary: i batch b lo)
  case (Cons g gs)
  obtain tr where tr: "(if tlv_Type (hd g) = TLVRouterID \<and> tlv_Body (hd g) = b then tl g else g) = tr" by simp
  have s: "encodedSize tr \<le> encodedSize g" using tr by (cases g) (auto simp: encodedSize_def split: if_splits)
  have h: "b_headerLen + encodedSize g \<le> packetSize" "\<forall>g\<in>set gs. b_headerLen + encodedSize g \<le> packetSize" using Cons.prems(1) by simp_all
  show ?case
  proof (cases "batch \<noteq> [] \<and> b_headerLen + encodedSize batch + encodedSize tr > packetSize")
    case True
    then have "fits packetSize (batch, lo, i)" using Cons.prems(2) by (simp add: fits_def)
    then show ?thesis unfolding splitGroups.simps Let_def tr if_P [OF True] using Cons.IH [OF h(2,1)] by simp
  next
    case False
    then have "b_headerLen + encodedSize (batch @ tr) \<le> packetSize" using h(1) s by (cases "batch = []") (auto simp: encodedSize_def)
    then show ?thesis unfolding splitGroups.simps Let_def tr if_not_P [OF False] by (rule Cons.IH [OF h(2)])
  qed
qed (simp add: fits_def)

text \<open>The pieces stand for consecutive ranges of the TLVs.\<close>

fun ranges :: "nat \<Rightarrow> (RawTLV list \<times> nat \<times> nat) list \<Rightarrow> nat \<Rightarrow> bool" where
  "ranges lo [] hi \<longleftrightarrow> lo = hi"
| "ranges lo ((_, a, b) # ps) hi \<longleftrightarrow> lo = a \<and> a \<le> b \<and> ranges b ps hi"

lemma split_ranges:
  "list_all group_ok gs \<Longrightarrow> batch \<noteq> [] \<or> (lo = i \<and> b = []) \<Longrightarrow> lo \<le> i \<Longrightarrow>
    ranges lo (splitGroups packetSize i gs batch b lo) (i + length (concat gs))"
proof (induction gs arbitrary: i batch b lo)
  case (Cons g gs)
  obtain tr where tr: "(if tlv_Type (hd g) = TLVRouterID \<and> tlv_Body (hd g) = b then tl g else g) = tr" by simp
  have g: "group_ok g" "list_all group_ok gs" "g \<noteq> []" using Cons.prems(1) by (auto elim: group_cases)
  have r: "b = [] \<Longrightarrow> tr = g" using g(1) tr by (auto elim: group_cases split: if_splits)
  show ?case
  proof (cases "batch \<noteq> [] \<and> b_headerLen + encodedSize batch + encodedSize tr > packetSize")
    case True
    then show ?thesis unfolding splitGroups.simps Let_def tr if_P [OF True]
      using Cons.IH [OF g(2), of g i "i + length g" "if tlv_Type (hd g) = TLVRouterID then tlv_Body (hd g) else []"] g(3) Cons.prems(3)
      by (simp add: add.assoc)
  next
    case False
    have ne: "batch @ tr \<noteq> []" using Cons.prems(2) r g(3) by auto
    show ?thesis unfolding splitGroups.simps Let_def tr if_not_P [OF False]
      using Cons.IH [OF g(2), of "batch @ tr" lo "i + length g" "if tlv_Type (hd g) = TLVRouterID then tlv_Body (hd g) else b"]
        ne Cons.prems(3) by (simp add: add.assoc)
  qed
qed auto

definition inRange :: "nat \<Rightarrow> nat \<Rightarrow> tlvUndo list \<Rightarrow> tlvUndo list" where
  "inRange lo hi us = filter (\<lambda>u. lo \<le> tu_firstTLV u \<and> tu_firstTLV u < hi) us"

lemma takeUndos_sorted:
  assumes "sorted (map tu_firstTLV us)" "lo \<le> hi"
  shows "takeUndos (filter (\<lambda>u. lo \<le> tu_firstTLV u) us) lo hi = (inRange lo hi us, filter (\<lambda>u. hi \<le> tu_firstTLV u) us)"
proof -
  have "takeWhile (\<lambda>u. tu_firstTLV u < hi) (filter (\<lambda>u. lo \<le> tu_firstTLV u) us) = inRange lo hi us \<and>
      dropWhile (\<lambda>u. tu_firstTLV u < hi) (filter (\<lambda>u. lo \<le> tu_firstTLV u) us) = filter (\<lambda>u. hi \<le> tu_firstTLV u) us"
    using assms
  proof (induction us)
    case (Cons u us)
    have "filter (\<lambda>u. lo \<le> tu_firstTLV u \<and> tu_firstTLV u < hi) us = []" "filter (\<lambda>u. lo \<le> tu_firstTLV u) us = us"
      "filter (\<lambda>u. hi \<le> tu_firstTLV u) us = us" if "hi \<le> tu_firstTLV u"
      using Cons.prems that by (auto simp: filter_empty_conv filter_id_conv)
    then show ?case using Cons by (auto simp: inRange_def)
  qed (simp add: inRange_def)
  moreover have "dropWhile (\<lambda>u. tu_firstTLV u < lo) (filter (\<lambda>u. lo \<le> tu_firstTLV u) us) = filter (\<lambda>u. lo \<le> tu_firstTLV u) us"
    by (induction us) auto
  ultimately show ?thesis by (simp add: takeUndos_def)
qed

definition granted :: "(nat \<Rightarrow> bool \<times> u32) \<Rightarrow> nat \<times> RawTLV list \<times> nat \<times> nat \<Rightarrow> bool" where
  "granted env x = fst (env (fst x))"

definition pieceUndos :: "tlvUndo list \<Rightarrow> nat \<times> RawTLV list \<times> nat \<times> nat \<Rightarrow> tlvUndo list" where
  "pieceUndos us = (\<lambda>(j, ts, lo, hi). inRange lo hi us)"

definition packetOf :: "addr \<Rightarrow> (nat \<Rightarrow> bool \<times> u32) \<Rightarrow> sendAction \<Rightarrow> nat \<times> RawTLV list \<times> nat \<times> nat \<Rightarrow> reservedPacket" where
  "packetOf linkLocal env action x = (case x of (j, ts, _) \<Rightarrow>
     \<lparr>rp_place = buildPacket linkLocal (act_dest action) (EncodePacket (map (restamp (snd (env j))) ts)),
      rp_neighbor = act_neighbor action, rp_undo = pieceUndos (act_rollback action) x\<rparr>)"

lemma reservePieces_exact:
  assumes "sorted (map tu_firstTLV (act_rollback action))" "ranges lo pieces hi"
  shows "reservePieces linkLocal env k action (filter (\<lambda>u. lo \<le> tu_firstTLV u) (act_rollback action)) pieces =
    (map (packetOf linkLocal env action) (filter (granted env) (enumerate k pieces)),
     concat (map (pieceUndos (act_rollback action)) (filter (\<lambda>x. \<not> granted env x) (enumerate k pieces))),
     list_all (granted env) (enumerate k pieces), k + length pieces)"
  using assms(2)
proof (induction pieces arbitrary: k lo)
  case (Cons p pieces)
  obtain ts b where p: "p = (ts, lo, b)" "lo \<le> b" "ranges b pieces hi" using Cons.prems by (cases p) auto
  note t = takeUndos_sorted [OF assms(1) p(2)]
  obtain slot clock where e: "env k = (slot, clock)" by (cases "env k")
  show ?case using Cons.IH [OF p(3), of "Suc k"]
    by (cases slot) (simp_all add: p(1) t e reserveTo_def packetOf_def pieceUndos_def granted_def Let_def)
qed simp

lemma pieces_partition:
  assumes "ranges lo pieces hi" "\<forall>u\<in>set us. tu_firstTLV u < hi"
  shows "mset (concat (map (pieceUndos us) (enumerate k pieces))) = mset (filter (\<lambda>u. lo \<le> tu_firstTLV u) us)"
  using assms(1)
proof (induction pieces arbitrary: k lo)
  case Nil
  then show ?case using assms(2) by (auto simp: filter_empty_conv)
next
  case (Cons p pieces)
  obtain ts b where p: "p = (ts, lo, b)" "lo \<le> b" "ranges b pieces hi" using Cons.prems by (cases p) auto
  have "mset (inRange lo b us) + mset (filter (\<lambda>u. b \<le> tu_firstTLV u) us) = mset (filter (\<lambda>u. lo \<le> tu_firstTLV u) us)"
    using p(2) by (induction us) (auto simp: inRange_def)
  then show ?case using Cons.IH [OF p(3), of "Suc k"] by (simp add: p(1) pieceUndos_def)
qed

lemma mset_concat_filter:
  "mset (concat (map f (filter P xs))) + mset (concat (map f (filter (\<lambda>x. \<not> P x) xs))) = mset (concat (map f xs))"
  by (induction xs) (auto simp: ac_simps)

text \<open>
  C24. Splitting an action into packets changes nothing a receiver reads: over the pieces in order, each
  starting with no router-id, every Update is attributed to the router-id it was built with and the other TLVs
  follow in order, although a router-id already in effect is left out; no piece is empty, and each packet is within the
  configured size.
\<close>

theorem batches_exact:
  assumes "built tlvs" "\<forall>t\<in>set tlvs. 18 + length (tlv_Body t) \<le> packetSize"
  shows "concat (map (\<lambda>(ts, _). attributed None ts) (splitBatches packetSize tlvs)) = attributed None tlvs \<and>
    (\<forall>(ts, _)\<in>set (splitBatches packetSize tlvs). ts \<noteq> [] \<and> length (EncodePacket ts) \<le> packetSize)"
proof -
  have gs: "list_all group_ok (groups tlvs)" using assms(1) by (simp add: built_def)
  have sp: "splitBatches packetSize tlvs = splitGroups packetSize 0 (groups tlvs) [] [] 0"
    unfolding splitBatches_def by (rule splitLoop_groups) (simp add: encodedSize_def)
  have a: "concat (map (\<lambda>(ts, _). attributed None ts) (splitBatches packetSize tlvs)) = attributed None tlvs"
    using split_attributed [OF gs, of "[]" "[]" packetSize 0 0] attributed_groups [OF gs, of None]
    by (simp add: sp inEffectIs_def groups_concat)
  show ?thesis
  proof (cases "tlvs = []")
    case True
    then have "splitBatches packetSize tlvs = []" using sp by (simp add: groups.simps)
    then show ?thesis using True by simp
  next
    case False
    have "b_headerLen + encodedSize g \<le> packetSize" if "g \<in> set (groups tlvs)" for g
    proof -
      have "set g \<subseteq> set tlvs" using that groups_concat [of tlvs] by (metis set_concat UN_upper)
      then have "\<forall>t\<in>set g. 18 + length (tlv_Body t) \<le> packetSize" using assms(2) by blast
      moreover have "group_ok g" using gs that by (simp add: list_all_iff)
      ultimately show ?thesis by (auto elim!: group_cases simp: encodedSize_def b_headerLen_def)
    qed
    moreover have "b_headerLen + encodedSize [] \<le> packetSize" using False assms(2) by (cases tlvs) (auto simp: b_headerLen_def encodedSize_def)
    ultimately have "list_all (fits packetSize) (splitBatches packetSize tlvs)" unfolding sp by (intro split_sizes) auto
    then show ?thesis using a length_EncodePacket by (fastforce simp: list_all_iff fits_def intro: order_trans)
  qed
qed

definition sampleTLVs :: "RawTLV list" where
  "sampleTLVs = [EncodeRouterID 9, \<lparr>tlv_Type = TLVUpdate, tlv_Body = replicate 20 1\<rparr>,
     EncodeRouterID 9, \<lparr>tlv_Type = TLVUpdate, tlv_Body = replicate 20 2\<rparr>]"

lemma sampleTLVs_built: "built sampleTLVs" "\<forall>t\<in>set sampleTLVs. 18 + length (tlv_Body t) \<le> 50"
  by (simp_all add: built_def sampleTLVs_def groups.simps group_ok_def EncodeRouterID_def TLVRouterID_def TLVUpdate_def put_at_def)

theorem batches_exact_witness:
  "concat (map (\<lambda>(ts, _). attributed None ts) (splitBatches 1400 sampleTLVs)) = attributed None sampleTLVs \<and>
    map (\<lambda>(ts, _). length ts) (splitBatches 1400 sampleTLVs) = [3] \<and> length (attributed None sampleTLVs) = 2"
proof -
  have "concat (map (\<lambda>(ts, _). attributed None ts) (splitBatches 1400 sampleTLVs)) = attributed None sampleTLVs"
    by (rule conjunct1 [OF batches_exact]) (use sampleTLVs_built in \<open>auto intro: order_trans\<close>)
  moreover have "map (\<lambda>(ts, _). length ts) (splitBatches 1400 sampleTLVs) = [3] \<and> length (attributed None sampleTLVs) = 2" by code_simp
  ultimately show ?thesis by blast
qed

text \<open>
  C25. The bookkeeping of an action is given back packet by packet: the packets that found a slot are exactly the granted
  pieces, each with the undos of the TLVs it carries; the undos of the refused pieces, and no others, are reported as lost;
  every undo of the action is in one of the two, once; and the action is reported whole exactly when no piece was refused.
\<close>

theorem undos_follow_packets:
  assumes "built (act_tlvs action)" "sorted (map tu_firstTLV (act_rollback action))"
    and "\<forall>u\<in>set (act_rollback action). tu_firstTLV u < length (act_tlvs action)"
    and "reserveBatchesTo linkLocal packetSize env k action = (reserved, lost, whole, k')"
  shows "let xs = enumerate k (splitBatches packetSize (act_tlvs action)) in
     reserved = map (packetOf linkLocal env action) (filter (granted env) xs) \<and>
     lost = concat (map (pieceUndos (act_rollback action)) (filter (\<lambda>x. \<not> granted env x) xs)) \<and>
     mset (concat (map rp_undo reserved)) + mset lost = mset (act_rollback action) \<and>
     (whole \<longleftrightarrow> (\<forall>x\<in>set xs. granted env x))"
proof -
  let ?ps = "splitBatches packetSize (act_tlvs action)" and ?us = "act_rollback action"
  have gs: "list_all group_ok (groups (act_tlvs action))" using assms(1) by (simp add: built_def)
  have r: "ranges 0 ?ps (length (act_tlvs action))"
    using split_ranges [OF gs, of "[]" 0 0 "[]" packetSize] splitLoop_groups [of b_headerLen "[]" packetSize 0 "act_tlvs action" "[]" 0]
    by (simp add: splitBatches_def encodedSize_def groups_concat)
  have e: "reserved = map (packetOf linkLocal env action) (filter (granted env) (enumerate k ?ps))"
    "lost = concat (map (pieceUndos ?us) (filter (\<lambda>x. \<not> granted env x) (enumerate k ?ps)))"
    "whole = list_all (granted env) (enumerate k ?ps)"
    using assms(4) reservePieces_exact [OF assms(2) r, of linkLocal env k] by (auto simp: reserveBatchesTo_def)
  have "map rp_undo reserved = map (pieceUndos ?us) (filter (granted env) (enumerate k ?ps))"
    by (auto simp: e(1) packetOf_def split: prod.split)
  then have "mset (concat (map rp_undo reserved)) + mset lost = mset ?us"
    using mset_concat_filter [of "pieceUndos ?us" "granted env" "enumerate k ?ps"] pieces_partition [OF r assms(3), of k]
    by (simp add: e(2))
  then show ?thesis using e by (simp add: list_all_iff Let_def)
qed

definition sampleAction :: sendAction where
  "sampleAction = \<lparr>act_neighbor = 1, act_dest = multicastGroup, act_priority = priorityDump, act_tlvs = sampleTLVs,
     act_rollback = [\<lparr>tu_firstTLV = 0, tu_key = sampleKey, tu_spent = False\<rparr>, \<lparr>tu_firstTLV = 2, tu_key = sampleKey, tu_spent = True\<rparr>],
     act_whenRefused = []\<rparr>"

theorem undos_follow_packets_witness:
  "case reserveBatchesTo (Addr6 1) 50 (\<lambda>j. (j = 0, 7)) 0 sampleAction of (reserved, lost, whole, k) \<Rightarrow>
     map (\<lambda>p. map tu_firstTLV (rp_undo p)) reserved = [[0]] \<and> map tu_firstTLV lost = [2] \<and> \<not> whole"
proof -
  obtain reserved lost whole k where r: "reserveBatchesTo (Addr6 1) 50 (\<lambda>j. (j = 0, 7)) 0 sampleAction = (reserved, lost, whole, k)"
    by (cases "reserveBatchesTo (Addr6 1) 50 (\<lambda>j. (j = 0, 7)) 0 sampleAction")
  have s: "enumerate 0 (splitBatches 50 sampleTLVs) = [(0, take 2 sampleTLVs, 0, 2), (1, drop 2 sampleTLVs, 2, 4)]" by code_simp
  have a: "act_tlvs sampleAction = sampleTLVs" "length sampleTLVs = 4" by (simp_all add: sampleAction_def sampleTLVs_def)
  have "let xs = enumerate 0 (splitBatches 50 (act_tlvs sampleAction)) in
     reserved = map (packetOf (Addr6 1) (\<lambda>j. (j = 0, 7)) sampleAction) (filter (granted (\<lambda>j. (j = 0, 7))) xs) \<and>
     lost = concat (map (pieceUndos (act_rollback sampleAction)) (filter (\<lambda>x. \<not> granted (\<lambda>j. (j = 0, 7)) x) xs)) \<and>
     mset (concat (map rp_undo reserved)) + mset lost = mset (act_rollback sampleAction) \<and>
     (whole \<longleftrightarrow> (\<forall>x\<in>set xs. granted (\<lambda>j. (j = 0, 7)) x))"
    by (rule undos_follow_packets [OF _ _ _ r]) (simp_all add: a sampleTLVs_built, simp_all add: sampleAction_def)
  then show ?thesis unfolding a s r
    by (simp add: granted_def packetOf_def pieceUndos_def inRange_def sampleAction_def)
qed

end
