(* ===== verification/Babel_Speaker.thy ===== *)
theory Babel_Speaker
  imports Babel_Send Route_Table "HOL-Library.Monad_Syntax"
begin

text \<open>
  The Babel speaker, \<open>internal/babel/speaker.go\<close>, \<open>send.go\<close>, \<open>receive.go\<close> and \<open>routes.go\<close>: its
  state under \<open>s.mu\<close>, the peers and the originated prefixes, what it says about a prefix to a neighbour,
  the suppression and repetition of seqno requests, the handling of a packet, and one pass of the run loop.

  Neighbour states are addresses in the store of the speaker. The callbacks of the route table run on the
  events it records, in order, after each call. A value \<open>None\<close> of an option is a panic of an encoder. What is read
  of the clock is an argument, and a transmission slot comes from \<open>env\<close>. Log lines and their rate limits are left
  out.
\<close>

section \<open>State\<close>

definition seconds :: "int \<Rightarrow> duration" where "seconds n = n * 1000 * millisecond"

record pendingSeqno =
  pq_seqno :: u16
  pq_sentAt :: time
  pq_asker :: string

definition seqnoRequestSuppress :: duration where "seqnoRequestSuppress = seconds 2"
definition maxPendingSeqno :: nat where "maxPendingSeqno = 4096"
definition maxPendingSeqnoPerNeighbor :: nat where "maxPendingSeqnoPerNeighbor = 1024"
definition maxStarveRetries :: nat where "maxStarveRetries = 4096"
definition maxStarveRetriesPerNeighbor :: nat where "maxStarveRetriesPerNeighbor = 1024"
definition seqnoRequestHopCount :: byte where "seqnoRequestHopCount = 64"
definition seqnoRequestRetries :: nat where "seqnoRequestRetries = 4"
definition seqnoRetryInitial :: duration where "seqnoRetryInitial = seconds 3"

type_synonym askedKey = "sourceKey \<times> nat"

record starveRetry =
  ry_key :: routeKey
  ry_routerID :: routerid
  ry_seqno :: u16
  ry_attempts :: nat
  ry_nextAt :: time
  ry_asker :: string

record lostUndo =
  lu_neighbor :: nat
  lu_undo :: tlvUndo

record Speaker =
  s_hello :: duration
  s_update :: duration
  s_cost :: CostParams
  s_routerID :: routerid
  s_linkLocal :: addr
  s_packetSize :: nat
  s_noTransit :: bool
  s_mesh :: RouteTable
  s_store :: "nat \<Rightarrow> neighborState"
  s_fresh :: nat
  s_neighbors :: "(string \<times> nat) list"
  s_originate :: "routeKey list"
  s_routes :: routeTable
  s_pendingSeqno :: "(sourceKey \<times> pendingSeqno) list"
  s_pendingByAsker :: "string \<rightharpoonup> nat"
  s_askedSeqno :: "(askedKey \<times> time) list"
  s_starveRetries :: "(sourceKey \<times> starveRetry) list"
  s_starveBy :: "string \<rightharpoonup> nat"
  s_originSeqno :: u16
  s_raisedSeqno :: bool
  s_updatePending :: bool
  s_changed :: bool
  s_lost :: "lostUndo list"
  s_lostWoke :: time
  s_nextHello :: time
  s_nextUpdate :: time
  s_sleepUntil :: time
  s_nextRequestSweep :: time
  s_passes :: u64
  s_retryAt :: time
  s_nextStarveRetry :: time

definition wake :: "Speaker \<Rightarrow> Speaker" where "wake s = s\<lparr>s_changed := True\<rparr>"

definition onNeighbor :: "Speaker \<Rightarrow> nat \<Rightarrow> (neighborState \<Rightarrow> neighborState) \<Rightarrow> Speaker" where
  "onNeighbor s n f = s\<lparr>s_store := (s_store s)(n := f (s_store s n))\<rparr>"

fun foldOpt :: "('s \<Rightarrow> 'a \<Rightarrow> 's option) \<Rightarrow> 's \<Rightarrow> 'a list \<Rightarrow> 's option" where
  "foldOpt f s [] = Some s"
| "foldOpt f s (x # xs) = Option.bind (f s x) (\<lambda>s. foldOpt f s xs)"

section \<open>Forwarding table\<close>

definition installRoute :: "Speaker \<Rightarrow> routeKey \<Rightarrow> routeSelection \<Rightarrow> Speaker" where
  "installRoute s key sel =
     s\<lparr>s_mesh := RouteTable_Set (s_mesh s) (rk_source key) (rk_dest key)
        (case sel_neighbor sel of Some n \<Rightarrow> PeerAt (nb_peer (s_store s n)) | None \<Rightarrow> Unreachable)\<rparr>"

fun applyEvent :: "Speaker \<Rightarrow> route_event \<Rightarrow> Speaker" where
  "applyEvent s (Install key sel) = installRoute s key sel"
| "applyEvent s (Forget key) = s\<lparr>s_mesh := RouteTable_Remove (s_mesh s) (rk_source key) (rk_dest key)\<rparr>"

definition onRoutes :: "Speaker \<Rightarrow> (routeTable \<Rightarrow> routeTable) \<Rightarrow> Speaker" where
  "onRoutes s f =
     (let rt = f (s_routes s)
      in foldl applyEvent (s\<lparr>s_routes := rt\<lparr>rt_events := []\<rparr>\<rparr>) (rt_events rt))"

section \<open>Originated prefixes\<close>

record OriginatedRoute =
  or_Destination :: prefix
  or_Source :: prefix

definition originatedKey :: "prefix \<Rightarrow> prefix \<Rightarrow> routeKey option" where
  "originatedKey dest source =
     (if \<not> p_IsValid dest then None
      else if p_IsValid source \<and> p_Bits source > 0
      then (if Is4 (p_ip source) \<noteq> Is4 (p_ip dest) then None
            else Some \<lparr>rk_source = Masked source, rk_dest = Masked dest\<rparr>)
      else Some \<lparr>rk_source = noPrefix, rk_dest = Masked dest\<rparr>)"

definition adoptOriginatedLocked :: "Speaker \<Rightarrow> routeKey \<Rightarrow> Speaker" where
  "adoptOriginatedLocked s key =
     s\<lparr>s_routes := (s_routes s)\<lparr>rt_entries := AList.delete key (rt_entries (s_routes s))\<rparr>,
       s_mesh := RouteTable_Set (s_mesh s) (rk_source key) (rk_dest key) Unreachable\<rparr>"

definition releaseOriginatedLocked :: "Speaker \<Rightarrow> routeKey \<Rightarrow> Speaker" where
  "releaseOriginatedLocked s key = s\<lparr>s_mesh := RouteTable_Remove (s_mesh s) (rk_source key) (rk_dest key)\<rparr>"

definition OriginateFrom :: "Speaker \<Rightarrow> prefix \<Rightarrow> prefix \<Rightarrow> Speaker" where
  "OriginateFrom s dest source =
     (case originatedKey dest source of
        None \<Rightarrow> s
      | Some key \<Rightarrow>
          let s = s\<lparr>s_originate := List.insert key (s_originate s)\<rparr>;
              s = adoptOriginatedLocked s key
          in wake (s\<lparr>s_updatePending := True\<rparr>))"

definition Originate :: "Speaker \<Rightarrow> prefix \<Rightarrow> Speaker" where
  "Originate s prefix = OriginateFrom s prefix noPrefix"

definition wantedKeys :: "OriginatedRoute list \<Rightarrow> routeKey list" where
  "wantedKeys routes = remdups (List.map_filter (\<lambda>r. originatedKey (or_Destination r) (or_Source r)) routes)"

definition SetOriginated :: "Speaker \<Rightarrow> OriginatedRoute list \<Rightarrow> Speaker" where
  "SetOriginated s routes =
     (let wanted = wantedKeys routes;
          changed = (length wanted \<noteq> length (s_originate s) \<or> \<not> set (s_originate s) \<subseteq> set wanted)
      in if \<not> changed then s
         else let s = foldl releaseOriginatedLocked s (filter (\<lambda>k. k \<notin> set wanted) (s_originate s));
                  s = s\<lparr>s_originate := wanted\<rparr>;
                  s = foldl adoptOriginatedLocked s wanted
              in wake (s\<lparr>s_updatePending := True\<rparr>))"

record Announce =
  an_Prefix :: prefix
  an_From :: prefix

record Routes =
  ro_Announce :: "Announce list"
  ro_Transit :: "bool option"

datatype routes_error =
    MaskedDefault prefix | SourceCoversAll | MismatchedFamilies | SourceIPv4

definition Transits :: "Routes \<Rightarrow> bool" where
  "Transits r = (case ro_Transit r of None \<Rightarrow> True | Some b \<Rightarrow> b)"

definition Routes_Originated :: "Routes \<Rightarrow> OriginatedRoute list" where
  "Routes_Originated r = map (\<lambda>e. \<lparr>or_Destination = an_Prefix e, or_Source = an_From e\<rparr>) (ro_Announce r)"

definition maskedDefault :: "prefix \<Rightarrow> routes_error option" where
  "maskedDefault p = (if p_Bits p \<noteq> 0 \<or> IsUnspecified (p_ip p) then None else Some (MaskedDefault p))"

definition checkAnnounce :: "Announce \<Rightarrow> routes_error option" where
  "checkAnnounce e =
     (let field = (\<lambda>p. if p_IsValid p then maskedDefault p else None)
      in case field (an_Prefix e) of
           Some err \<Rightarrow> Some err
         | None \<Rightarrow>
             (case field (an_From e) of
                Some err \<Rightarrow> Some err
              | None \<Rightarrow>
                  if \<not> p_IsValid (an_From e) then None
                  else if p_Bits (an_From e) = 0 then Some SourceCoversAll
                  else if Is4 (p_ip (an_From e)) \<noteq> Is4 (p_ip (an_Prefix e)) then Some MismatchedFamilies
                  else if Is4 (p_ip (an_Prefix e)) then Some SourceIPv4
                  else None))"

fun validateAnnounces :: "Announce list \<Rightarrow> routes_error option" where
  "validateAnnounces [] = None"
| "validateAnnounces (e # es) = (case checkAnnounce e of Some err \<Rightarrow> Some err | None \<Rightarrow> validateAnnounces es)"

definition Routes_Validate :: "Routes \<Rightarrow> routes_error option" where
  "Routes_Validate r = validateAnnounces (ro_Announce r)"

definition SetRoutes :: "Speaker \<Rightarrow> Routes \<Rightarrow> Speaker" where
  "SetRoutes s routes = SetOriginated s (Routes_Originated routes)"

section \<open>Construction and peers\<close>

record Runtime =
  rn_RouterID :: routerid
  rn_LinkLocalAddr :: addr
  rn_PacketSize :: nat

definition emptyNeighbor :: "nat \<Rightarrow> string \<Rightarrow> neighborState" where
  "emptyNeighbor peer ident = \<lparr>nb_peer = peer, nb_peerID = ident, nb_addr = AddrZ, nb_alive = False, nb_lastHelloTime = 0,
     nb_helloInterval = 0, nb_unicastHelloTime = 0, nb_unicastHelloInterval = 0, nb_history = noHistory, nb_nextHelloDue = 0,
     nb_heard = False, nb_theirHelloTxTS = 0, nb_theirHelloRxTS = 0, nb_haveTheirHello = False, nb_sentHello = False,
     nb_helloSeqno = 0, nb_owed = [], nb_reportedCost = 0, nb_haveReportedCost = False, nb_ihuExpiry = 0,
     nb_measuredRTT = 0, nb_haveRTT = False, nb_rttExpiry = 0, nb_lastFullDump = 0, nb_advertised = []\<rparr>"

text \<open>\<open>New\<close> after the configuration has been validated and the runtime resolved.\<close>

definition NewSpeaker :: "Config \<Rightarrow> Routes \<Rightarrow> Runtime \<Rightarrow> RouteTable \<Rightarrow> Speaker" where
  "NewSpeaker cfg routes rt mesh =
     SetRoutes \<lparr>s_hello = HelloInterval cfg, s_update = UpdateInterval cfg, s_cost = CostEffective cfg,
       s_routerID = rn_RouterID rt, s_linkLocal = rn_LinkLocalAddr rt, s_packetSize = rn_PacketSize rt,
       s_noTransit = (\<not> Transits routes), s_mesh = mesh, s_store = (\<lambda>_. emptyNeighbor 0 []), s_fresh = 0,
       s_neighbors = [], s_originate = [],
       s_routes = newRouteTable (3 * HelloInterval cfg) (cp_RxCost (CostEffective cfg)) (CostEffective cfg),
       s_pendingSeqno = [], s_pendingByAsker = Map.empty, s_askedSeqno = [], s_starveRetries = [], s_starveBy = Map.empty,
       s_originSeqno = 1, s_raisedSeqno = False, s_updatePending = False, s_changed = False, s_lost = [], s_lostWoke = 0,
       s_nextHello = 0, s_nextUpdate = 0, s_sleepUntil = 0, s_nextRequestSweep = 0, s_passes = 0, s_retryAt = 0,
       s_nextStarveRetry = 0\<rparr> routes"

definition AddPeer :: "(int \<Rightarrow> int \<Rightarrow> real) \<Rightarrow> Speaker \<Rightarrow> nat \<Rightarrow> string \<Rightarrow> time \<Rightarrow> nat \<times> Speaker" where
  "AddPeer mexp s peer ident now =
     (let s = (case map_of (s_neighbors s) ident of
                 Some old \<Rightarrow> onRoutes s (\<lambda>rt. expireNeighbor (s_store s) mexp rt old now) | None \<Rightarrow> s);
          n = s_fresh s;
          s = s\<lparr>s_store := (s_store s)(n := emptyNeighbor peer ident), s_fresh := n + 1,
                s_neighbors := AList.update ident n (s_neighbors s), s_updatePending := True\<rparr>
      in (n, wake s))"

definition removePeer :: "(int \<Rightarrow> int \<Rightarrow> real) \<Rightarrow> Speaker \<Rightarrow> nat \<Rightarrow> time \<Rightarrow> Speaker" where
  "removePeer mexp s n now =
     (let ident = nb_peerID (s_store s n)
      in if map_of (s_neighbors s) ident \<noteq> Some n then s
         else let s = s\<lparr>s_neighbors := AList.delete ident (s_neighbors s),
                        s_askedSeqno := filter (\<lambda>((_, m), _). m \<noteq> n) (s_askedSeqno s)\<rparr>
              in wake (onRoutes s (\<lambda>rt. expireNeighbor (s_store s) mexp rt n now)))"

section \<open>Seqno requests\<close>

definition noteRequestSweep :: "Speaker \<Rightarrow> time \<Rightarrow> Speaker" where
  "noteRequestSweep s t = s\<lparr>s_nextRequestSweep := earlier (s_nextRequestSweep s) (t + seqnoRequestSuppress)\<rparr>"

definition releaseSeqnoRequest :: "Speaker \<Rightarrow> pendingSeqno \<Rightarrow> Speaker" where
  "releaseSeqnoRequest s entry = s\<lparr>s_pendingByAsker := count_dec (s_pendingByAsker s) (pq_asker entry)\<rparr>"

definition recordSeqnoRequest :: "Speaker \<Rightarrow> sourceKey \<Rightarrow> u16 \<Rightarrow> string \<Rightarrow> time \<Rightarrow> Speaker" where
  "recordSeqnoRequest s index seqno asker now =
     (let s = (case map_of (s_pendingSeqno s) index of Some previous \<Rightarrow> releaseSeqnoRequest s previous | None \<Rightarrow> s);
          s = s\<lparr>s_pendingSeqno := AList.update index \<lparr>pq_seqno = seqno, pq_sentAt = now, pq_asker = asker\<rparr> (s_pendingSeqno s),
                s_pendingByAsker := count_inc (s_pendingByAsker s) asker\<rparr>
      in noteRequestSweep s now)"

definition allowSeqnoRequest :: "Speaker \<Rightarrow> sourceKey \<Rightarrow> u16 \<Rightarrow> string \<Rightarrow> time \<Rightarrow> bool \<times> Speaker" where
  "allowSeqnoRequest s index seqno asker now =
     (let pending = map_of (s_pendingSeqno s) index
      in if (case pending of Some p \<Rightarrow> now < pq_sentAt p + seqnoRequestSuppress \<and> \<not> seqnoGT seqno (pq_seqno p) | None \<Rightarrow> False)
         then (False, s)
         else if count_of (s_pendingByAsker s) asker \<ge> maxPendingSeqnoPerNeighbor \<and>
                 (case pending of Some p \<Rightarrow> pq_asker p \<noteq> asker | None \<Rightarrow> True)
         then (False, s)
         else if pending = None \<and> length (s_pendingSeqno s) \<ge> maxPendingSeqno then (False, s)
         else (True, recordSeqnoRequest s index seqno asker now))"

definition sweepPending :: "time \<Rightarrow> Speaker \<Rightarrow> sourceKey \<times> pendingSeqno \<Rightarrow> Speaker" where
  "sweepPending now s x = (case x of (index, pending) \<Rightarrow>
     if \<not> now < pq_sentAt pending + seqnoRequestSuppress
     then let s = releaseSeqnoRequest s pending in s\<lparr>s_pendingSeqno := AList.delete index (s_pendingSeqno s)\<rparr>
     else noteRequestSweep s (pq_sentAt pending))"

definition sweepAsked :: "time \<Rightarrow> Speaker \<Rightarrow> askedKey \<times> time \<Rightarrow> Speaker" where
  "sweepAsked now s x = (case x of (index, asked) \<Rightarrow>
     if \<not> now < asked + seqnoRequestSuppress then s\<lparr>s_askedSeqno := AList.delete index (s_askedSeqno s)\<rparr>
     else noteRequestSweep s asked)"

definition sweepRequestsLocked :: "Speaker \<Rightarrow> time \<Rightarrow> Speaker" where
  "sweepRequestsLocked s now =
     (let s = s\<lparr>s_nextRequestSweep := 0\<rparr>;
          s = foldl (sweepPending now) s (s_pendingSeqno s)
      in foldl (sweepAsked now) s (s_askedSeqno s))"

definition allowAsk :: "Speaker \<Rightarrow> nat \<Rightarrow> routeKey \<Rightarrow> routerid \<Rightarrow> time \<Rightarrow> bool \<times> Speaker" where
  "allowAsk s n key routerID now =
     (let index = ((key, routerID), n)
      in if (case map_of (s_askedSeqno s) index of Some asked \<Rightarrow> now < asked + seqnoRequestSuppress | None \<Rightarrow> False)
         then (False, s)
         else (True, noteRequestSweep (s\<lparr>s_askedSeqno := AList.update index now (s_askedSeqno s)\<rparr>) now))"

definition rememberStarved :: "Speaker \<Rightarrow> routeKey \<Rightarrow> routerid \<Rightarrow> u16 \<Rightarrow> string \<Rightarrow> time \<Rightarrow> Speaker" where
  "rememberStarved s key routerID seqno asker now =
     (let ident = (key, routerID); next = now + seqnoRetryInitial
      in case map_of (s_starveRetries s) ident of
           Some retry \<Rightarrow>
             s\<lparr>s_starveRetries := AList.update ident (retry\<lparr>ry_seqno := seqno, ry_nextAt := next\<rparr>) (s_starveRetries s),
               s_nextStarveRetry := earlier (s_nextStarveRetry s) next\<rparr>
         | None \<Rightarrow>
             if length (s_starveRetries s) \<ge> maxStarveRetries \<or> count_of (s_starveBy s) asker \<ge> maxStarveRetriesPerNeighbor
             then s
             else s\<lparr>s_starveRetries := AList.update ident
                      \<lparr>ry_key = key, ry_routerID = routerID, ry_seqno = seqno, ry_attempts = 0, ry_nextAt = next, ry_asker = asker\<rparr>
                      (s_starveRetries s),
                    s_nextStarveRetry := earlier (s_nextStarveRetry s) next,
                    s_starveBy := count_inc (s_starveBy s) asker\<rparr>)"

definition forgetStarved :: "Speaker \<Rightarrow> sourceKey \<Rightarrow> starveRetry \<Rightarrow> Speaker" where
  "forgetStarved s ident retry =
     s\<lparr>s_starveRetries := AList.delete ident (s_starveRetries s), s_starveBy := count_dec (s_starveBy s) (ry_asker retry)\<rparr>"

section \<open>Advertisements\<close>

definition aeFor :: "prefix \<Rightarrow> byte" where "aeFor p = (if Is4 (p_ip p) then AEIPv4 else AEIPv6)"

definition updateAE :: "prefix \<Rightarrow> byte" where "updateAE p = (if Is4 (p_ip p) then AEIPv4ViaIPv6 else AEIPv6)"

definition updateTLVs :: "routeKey \<Rightarrow> advertisement \<Rightarrow> duration \<Rightarrow> RawTLV list option" where
  "updateTLVs key adv interval =
     map_option (\<lambda>u. [EncodeRouterID (adv_routerID adv), u])
       (EncodeUpdate \<lparr>u_AE = updateAE (rk_dest key), u_Plen = p_Bits (rk_dest key),
          u_Interval = of_int (interval div (10 * millisecond)), u_Seqno = adv_seqno adv, u_Metric = adv_metric adv,
          u_Prefix = AsSlice (p_ip (rk_dest key)), u_RouterID = 0, u_HasRouterID = False, u_Ignore = False,
          u_SourcePrefix = rk_source key\<rparr>)"

definition advertisementFor :: "Speaker \<Rightarrow> routeKey \<Rightarrow> (advertisement \<times> nat option) option" where
  "advertisementFor s key =
     (if key \<in> set (s_originate s)
      then Some (\<lparr>adv_routerID = s_routerID s, adv_seqno = s_originSeqno s, adv_metric = 0\<rparr>, None)
      else if s_noTransit s then None
      else case map_of (rt_entries (s_routes s)) key of
        None \<Rightarrow> None
      | Some entry \<Rightarrow>
          let sel = ke_selected entry
          in if sel_neighbor sel \<noteq> None
             then Some (\<lparr>adv_routerID = sel_routerID sel, adv_seqno = sel_seqno sel, adv_metric = sel_cost sel\<rparr>, sel_neighbor sel)
             else Some (\<lparr>adv_routerID = ke_retractID entry, adv_seqno = ke_retractSeqno entry, adv_metric = MetricInfinity\<rparr>, None))"

definition selectedPeer :: "Speaker \<Rightarrow> routeKey \<Rightarrow> string" where
  "selectedPeer s key =
     (case map_of (rt_entries (s_routes s)) key of
        None \<Rightarrow> []
      | Some entry \<Rightarrow> (case sel_neighbor (ke_selected entry) of None \<Rightarrow> [] | Some n \<Rightarrow> nb_peerID (s_store s n)))"

text \<open>The advertisement to one neighbour, after split horizon.\<close>

definition toldTo :: "Speaker \<Rightarrow> nat \<Rightarrow> routeKey \<Rightarrow> advertisement" where
  "toldTo s n key =
     (case advertisementFor s key of
        None \<Rightarrow> \<lparr>adv_routerID = s_routerID s, adv_seqno = s_originSeqno s, adv_metric = MetricInfinity\<rparr>
      | Some (adv, nextHop) \<Rightarrow> if nextHop = Some n then adv\<lparr>adv_metric := MetricInfinity\<rparr> else adv)"

definition advertiseTo :: "Speaker \<Rightarrow> nat \<Rightarrow> routeKey \<Rightarrow> bool \<Rightarrow> time \<Rightarrow> (RawTLV list \<times> bool \<times> Speaker) option" where
  "advertiseTo s n key force now =
     (let adv = toldTo s n key
      in if adv_metric adv = MetricInfinity
         then let sent = (key \<in> set (nb_advertised (s_store s n)))
              in if \<not> sent \<and> \<not> force then Some ([], False, s)
                 else let s = (if sent then onNeighbor s n (\<lambda>nb. nb\<lparr>nb_advertised := removeAll key (nb_advertised nb)\<rparr>) else s)
                      in map_option (\<lambda>tlvs. (tlvs, sent, s)) (updateTLVs key adv (s_update s))
         else let s = s\<lparr>s_routes := observe (s_routes s) key adv (selectedPeer s key) now\<rparr>;
                  s = onNeighbor s n (\<lambda>nb. nb\<lparr>nb_advertised := List.insert key (nb_advertised nb)\<rparr>)
              in map_option (\<lambda>tlvs. (tlvs, False, s)) (updateTLVs key adv (s_update s)))"

definition advertisableKeys :: "Speaker \<Rightarrow> routeKey list" where
  "advertisableKeys s =
     foldl (\<lambda>keys key. if key \<in> set keys then keys else keys @ [key]) []
       (s_originate s @ map fst (rt_entries (s_routes s)) @ concat (map (\<lambda>(_, n). nb_advertised (s_store s n)) (s_neighbors s)))"

definition dumpKey ::
  "nat \<Rightarrow> time \<Rightarrow> RawTLV list \<times> tlvUndo list \<times> Speaker \<Rightarrow> routeKey \<Rightarrow> (RawTLV list \<times> tlvUndo list \<times> Speaker) option" where
  "dumpKey n now acc key = (case acc of (tlvs, rollback, s) \<Rightarrow> do {
     (advertised, spent, s) \<leftarrow> advertiseTo s n key False now;
     if advertised = [] then Some (tlvs, rollback, s)
     else Some (tlvs @ advertised, rollback @ [\<lparr>tu_firstTLV = length tlvs, tu_key = key, tu_spent = spent\<rparr>], s)
   })"

definition dumpFor :: "Speaker \<Rightarrow> nat \<Rightarrow> routeKey list \<Rightarrow> time \<Rightarrow> (RawTLV list \<times> tlvUndo list \<times> Speaker) option" where
  "dumpFor s n keys now = foldOpt (dumpKey n now) ([], [], s) keys"

definition dumpAction :: "nat \<Rightarrow> RawTLV list \<Rightarrow> tlvUndo list \<Rightarrow> sendAction" where
  "dumpAction n tlvs rollback = \<lparr>act_neighbor = n, act_dest = multicastGroup, act_priority = priorityDump, act_tlvs = tlvs,
     act_rollback = rollback, act_whenRefused = []\<rparr>"

definition updateActionsFor :: "Speaker \<Rightarrow> routeKey list \<Rightarrow> time \<Rightarrow> (sendAction list \<times> Speaker) option" where
  "updateActionsFor s keys now =
     (if keys = [] then Some ([], s)
      else foldOpt (\<lambda>(actions, s) (_, n). do {
        (tlvs, rollback, s) \<leftarrow> dumpFor s n keys now;
        Some (if tlvs = [] then actions else actions @ [dumpAction n tlvs rollback], s)
      }) ([], s) (s_neighbors s))"

definition clearOwed :: "Speaker \<Rightarrow> string \<times> nat \<Rightarrow> Speaker" where
  "clearOwed s x = onNeighbor s (snd x) (\<lambda>nb. nb\<lparr>nb_owed := []\<rparr>)"

definition updateActions :: "Speaker \<Rightarrow> time \<Rightarrow> (sendAction list \<times> Speaker) option" where
  "updateActions s now =
     (let keys = advertisableKeys s;
          s = s\<lparr>s_routes := snd (takeDirty (s_routes s))\<rparr>;
          s = foldl clearOwed s (s_neighbors s)
      in updateActionsFor s keys now)"

definition oweKey :: "Speaker \<Rightarrow> routeKey \<Rightarrow> Speaker" where
  "oweKey s key = foldl (\<lambda>s (_, n). onNeighbor s n (\<lambda>nb. nb\<lparr>nb_owed := List.insert key (nb_owed nb)\<rparr>)) s (s_neighbors s)"

definition triggeredActions :: "Speaker \<Rightarrow> time \<Rightarrow> (sendAction list \<times> Speaker) option" where
  "triggeredActions s now =
     (let (dirty, rt) = takeDirty (s_routes s);
          s = foldl oweKey (s\<lparr>s_routes := rt\<rparr>) dirty
      in foldOpt (\<lambda>(actions, s) (ident, n).
           let keys = nb_owed (s_store s n)
           in if keys = [] then Some (actions, s)
              else do {
                (tlvs, rollback, s) \<leftarrow> dumpFor (clearOwed s (ident, n)) n keys now;
                Some (if tlvs = [] then actions else actions @ [dumpAction n tlvs rollback], s)
              }) ([], s) (s_neighbors s))"

definition oweAgain :: "Speaker \<Rightarrow> nat \<Rightarrow> tlvUndo \<Rightarrow> Speaker" where
  "oweAgain s n undo =
     (let key = tu_key undo;
          s = (if tu_spent undo then onNeighbor s n (\<lambda>nb. nb\<lparr>nb_advertised := List.insert key (nb_advertised nb)\<rparr>) else s)
      in if map_of (rt_entries (s_routes s)) key \<noteq> None \<or> key \<in> set (s_originate s) \<or> key \<in> set (nb_advertised (s_store s n))
         then onNeighbor s n (\<lambda>nb. nb\<lparr>nb_owed := List.insert key (nb_owed nb)\<rparr>) else s)"

section \<open>Requests of this node\<close>

definition n_destination :: "neighborState \<Rightarrow> addr" where
  "n_destination n = (if a_IsValid (nb_addr n) then nb_addr n else multicastGroup)"

definition requestAction :: "Speaker \<Rightarrow> nat \<Rightarrow> routeKey \<Rightarrow> routerid \<Rightarrow> u16 \<Rightarrow> byte \<Rightarrow> sendAction option" where
  "requestAction s n key routerID seqno hops =
     map_option (\<lambda>t. \<lparr>act_neighbor = n, act_dest = n_destination (s_store s n), act_priority = priorityRequest, act_tlvs = [t],
         act_rollback = [], act_whenRefused = []\<rparr>)
       (EncodeSeqnoRequest \<lparr>sr_AE = aeFor (rk_dest key), sr_Prefix = rk_dest key, sr_SourcePrefix = rk_source key,
          sr_Seqno = seqno, sr_HopCount = hops, sr_RouterID = routerID\<rparr>)"

definition seqnoRequestTo :: "Speaker \<Rightarrow> nat \<Rightarrow> routeKey \<Rightarrow> routerid \<Rightarrow> u16 \<Rightarrow> time \<Rightarrow> (sendAction \<times> Speaker) option" where
  "seqnoRequestTo s n key routerID seqno now =
     (let s = snd (allowSeqnoRequest s (key, routerID) seqno [] now)
      in map_option (\<lambda>a. (a, s)) (requestAction s n key routerID seqno seqnoRequestHopCount))"

definition seqnoRequestAction ::
  "Speaker \<Rightarrow> nat \<Rightarrow> string \<Rightarrow> routeKey \<Rightarrow> routerid \<Rightarrow> u16 \<Rightarrow> byte \<Rightarrow> time \<Rightarrow> (sendAction option \<times> Speaker) option" where
  "seqnoRequestAction s n asker key routerID seqno hops now =
     (let (allowed, s) = allowSeqnoRequest s (key, routerID) seqno asker now
      in if \<not> allowed then Some (None, s)
         else map_option (\<lambda>a. (Some a, s)) (requestAction s n key routerID seqno hops))"

definition starvedAction :: "time \<Rightarrow> sendAction list \<times> Speaker \<Rightarrow> starveRequest \<Rightarrow> (sendAction list \<times> Speaker) option" where
  "starvedAction now acc request = (case acc of (actions, s) \<Rightarrow>
     let n = sv_neighbor request; key = sv_key request; routerID = sv_routerID request; peer = nb_peerID (s_store s n)
     in if map_of (s_neighbors s) peer \<noteq> Some n then Some (actions, s)
        else let (allowed, s) = allowAsk s n key routerID now
             in if \<not> allowed then Some (actions, s)
                else do {
                  (action, s) \<leftarrow> seqnoRequestTo s n key routerID (sv_seqno request) now;
                  Some (actions @ [action], rememberStarved s key routerID (sv_seqno request) peer now)
                })"

definition starvedActions :: "Speaker \<Rightarrow> time \<Rightarrow> (sendAction list \<times> Speaker) option" where
  "starvedActions s now =
     (let (starved, rt) = takeStarved (s_routes s)
      in foldOpt (starvedAction now) ([], s\<lparr>s_routes := rt\<rparr>) starved)"

definition retryNeighbor :: "time \<Rightarrow> starveRetry \<Rightarrow> sendAction list \<times> Speaker \<Rightarrow> string \<times> nat \<Rightarrow> (sendAction list \<times> Speaker) option" where
  "retryNeighbor now retry acc x = (case acc of (actions, s) \<Rightarrow> let n = snd x in
     if \<not> nb_alive (s_store s n) \<or> rt_route (s_routes s) n (ry_key retry) = None then Some (actions, s)
     else let (allowed, s) = allowAsk s n (ry_key retry) (ry_routerID retry) now
          in if \<not> allowed then Some (actions, s)
             else do {
               (action, s) \<leftarrow> seqnoRequestTo s n (ry_key retry) (ry_routerID retry) (ry_seqno retry) now;
               Some (actions @ [action], s)
             })"

definition retryOne :: "time \<Rightarrow> sendAction list \<times> Speaker \<Rightarrow> sourceKey \<times> starveRetry \<Rightarrow> (sendAction list \<times> Speaker) option" where
  "retryOne now acc x = (case acc of (actions, s) \<Rightarrow> let (ident, retry) = x in
     if (case map_of (rt_entries (s_routes s)) (ry_key retry) of
           Some entry \<Rightarrow> sel_neighbor (ke_selected entry) \<noteq> None | None \<Rightarrow> False)
     then Some (actions, forgetStarved s ident retry)
     else if now < ry_nextAt retry
     then Some (actions, s\<lparr>s_nextStarveRetry := earlier (s_nextStarveRetry s) (ry_nextAt retry)\<rparr>)
     else if ry_attempts retry \<ge> seqnoRequestRetries then Some (actions, forgetStarved s ident retry)
     else let retry = retry\<lparr>ry_attempts := ry_attempts retry + 1,
                            ry_nextAt := now + seqnoRetryInitial * 2 ^ ry_attempts retry\<rparr>;
              s = s\<lparr>s_starveRetries := AList.update ident retry (s_starveRetries s),
                    s_nextStarveRetry := earlier (s_nextStarveRetry s) (ry_nextAt retry)\<rparr>
          in foldOpt (retryNeighbor now retry) (actions, s) (s_neighbors s))"

definition retryStarvedLocked :: "Speaker \<Rightarrow> time \<Rightarrow> (sendAction list \<times> Speaker) option" where
  "retryStarvedLocked s now = foldOpt (retryOne now) ([], s\<lparr>s_nextStarveRetry := 0\<rparr>) (s_starveRetries s)"

section \<open>Emission\<close>

definition sendRetryInterval :: "Speaker \<Rightarrow> duration" where
  "sendRetryInterval s = max (s_hello s div 4) millisecond"

definition noteSendRetryLocked :: "Speaker \<Rightarrow> time \<Rightarrow> Speaker" where
  "noteSendRetryLocked s now = s\<lparr>s_retryAt := earlier (s_retryAt s) (now + sendRetryInterval s)\<rparr>"

text \<open>What \<open>whenRefused\<close> of a Hello does.\<close>

definition giveHelloBack :: "Speaker \<Rightarrow> nat \<Rightarrow> Speaker" where
  "giveHelloBack s n = onNeighbor s n (\<lambda>nb. nb\<lparr>nb_helloSeqno := nb_helloSeqno nb - 1, nb_sentHello := False\<rparr>)"

definition emitAction ::
  "(nat \<Rightarrow> bool \<times> u32) \<Rightarrow> Speaker \<times> reservedPacket list \<times> bool \<times> nat \<Rightarrow> sendAction \<Rightarrow>
    Speaker \<times> reservedPacket list \<times> bool \<times> nat" where
  "emitAction env acc action = (case acc of (s, packets, refused, k) \<Rightarrow>
     let (reserved, lost, whole, k) = reserveBatchesTo (s_linkLocal s) (s_packetSize s) env k action;
         s = foldl (\<lambda>s undo. oweAgain s (act_neighbor action) undo) s lost
     in if whole then (s, packets @ reserved, refused, k)
        else (foldl giveHelloBack s (act_whenRefused action), packets @ reserved, True, k))"

definition emitLocked :: "(nat \<Rightarrow> bool \<times> u32) \<Rightarrow> Speaker \<Rightarrow> sendAction list \<Rightarrow> time \<Rightarrow> Speaker \<times> reservedPacket list" where
  "emitLocked env s actions now =
     (let merged = sort_key (\<lambda>a. priorityValue (act_priority a)) (coalesce actions);
          (s, packets, refused, _) = foldl (emitAction env) (s, [], False, 0) merged
      in (if refused then noteSendRetryLocked s now else s, packets))"

text \<open>The completion of a packet the sender lost, on its own goroutine; a packet with no undo has none.\<close>

definition noteLost :: "Speaker \<Rightarrow> nat \<Rightarrow> tlvUndo list \<Rightarrow> time \<Rightarrow> Speaker" where
  "noteLost s n undo now =
     (if undo = [] then s
      else let s = s\<lparr>s_lost := s_lost s @ map (\<lambda>u. \<lparr>lu_neighbor = n, lu_undo = u\<rparr>) undo\<rparr>
           in if now - s_lostWoke s < sendRetryInterval s then s else wake (s\<lparr>s_lostWoke := now\<rparr>))"

definition applyLostLocked :: "Speaker \<Rightarrow> Speaker" where
  "applyLostLocked s = foldl (\<lambda>s l. oweAgain s (lu_neighbor l) (lu_undo l)) (s\<lparr>s_lost := []\<rparr>) (s_lost s)"

definition centis :: "duration \<Rightarrow> u16" where "centis d = of_int (d div (10 * millisecond))"

definition helloAction :: "Speaker \<Rightarrow> nat \<Rightarrow> time \<Rightarrow> sendAction \<times> Speaker" where
  "helloAction s n now =
     (let c = centis (s_hello s);
          s = onNeighbor s n (\<lambda>nb. nb\<lparr>nb_sentHello := True, nb_helloSeqno := nb_helloSeqno nb + 1\<rparr>);
          nb = s_store s n;
          rxcost = (if nb_heard nb \<and> \<not> isAlive nb now then MetricInfinity else rxCost (s_cost s) (nb_history nb));
          ihu = \<lparr>i_RxCost = rxcost, i_Interval = c, i_OriginTS = 0, i_ReceiveTS = 0, i_HasTS = False\<rparr>;
          ihu = (if nb_haveTheirHello nb
                 then ihu\<lparr>i_OriginTS := nb_theirHelloTxTS nb, i_ReceiveTS := nb_theirHelloRxTS nb, i_HasTS := True\<rparr> else ihu)
      in (\<lparr>act_neighbor = n, act_dest = multicastGroup, act_priority = priorityHello,
            act_tlvs = [EncodeHello \<lparr>h_Seqno = nb_helloSeqno nb, h_Interval = c, h_Unicast = False, h_TxTS = 0, h_HasTS = True\<rparr>,
                        EncodeIHU ihu],
            act_rollback = [], act_whenRefused = [n]\<rparr>, s))"

section \<open>Reception\<close>

definition interval :: "u16 \<Rightarrow> duration" where "interval c = int (unat c) * 10 * millisecond"

definition handleHello :: "Speaker \<Rightarrow> nat \<Rightarrow> Hello \<Rightarrow> u32 \<Rightarrow> time \<Rightarrow> Speaker \<times> bool" where
  "handleHello s n h recvTS now =
     (if h_Interval h = 0 \<and> \<not> now < helloExpiry (s_store s n) then (s, False)
      else (onNeighbor s n (\<lambda>nb.
        let nb = nb\<lparr>nb_alive := True\<rparr>;
            nb = (if h_Interval h \<noteq> 0
                  then if h_Unicast h
                       then nb\<lparr>nb_unicastHelloTime := now, nb_unicastHelloInterval := interval (h_Interval h)\<rparr>
                       else nb\<lparr>nb_heard := True, nb_lastHelloTime := now, nb_helloInterval := interval (h_Interval h),
                               nb_nextHelloDue := now + (interval (h_Interval h) + interval (h_Interval h) div 2)\<rparr>
                  else nb);
            nb = (if h_Unicast h then nb
                  else let (known, history) = hh_record (nb_history nb) (h_Seqno h)
                       in if known then nb\<lparr>nb_history := history\<rparr>
                          else nb\<lparr>nb_history := snd (hh_record noHistory (h_Seqno h))\<rparr>)
        in if h_HasTS h then nb\<lparr>nb_theirHelloTxTS := h_TxTS h, nb_theirHelloRxTS := recvTS, nb_haveTheirHello := True\<rparr> else nb), True))"

definition handleIHU :: "Speaker \<Rightarrow> nat \<Rightarrow> IHU \<Rightarrow> bytes \<Rightarrow> u32 \<Rightarrow> u32 option \<Rightarrow> time \<Rightarrow> Speaker \<times> bool" where
  "handleIHU s n ihu rxAddr recvTS helloTS now =
     (if rxAddr \<noteq> [] \<and> AddrFromSlice rxAddr \<noteq> Some (s_linkLocal s) then (s, False)
      else if i_Interval ihu = 0 then (s, False)
      else (onNeighbor s n (\<lambda>nb.
        let nb = nb\<lparr>nb_reportedCost := i_RxCost ihu, nb_haveReportedCost := True,
                   nb_ihuExpiry := now + deadTimeout (interval (i_Interval ihu))\<rparr>
        in case helloTS of
             None \<Rightarrow> nb
           | Some helloTxTS \<Rightarrow>
               if i_HasTS ihu \<and> validTimestampGap (microDelta recvTS (i_OriginTS ihu)) \<and>
                  validTimestampGap (microDelta helloTxTS (i_ReceiveTS ihu))
               then let rtt = microDelta recvTS (i_OriginTS ihu) - microDelta helloTxTS (i_ReceiveTS ihu)
                    in if rtt > 0
                       then (if nb_haveRTT nb then nb\<lparr>nb_measuredRTT := (836 * nb_measuredRTT nb + 164 * rtt) div 1000\<rparr>
                             else nb\<lparr>nb_measuredRTT := rtt, nb_haveRTT := True\<rparr>)\<lparr>nb_rttExpiry := nb_ihuExpiry nb\<rparr>
                       else nb
               else nb), True))"

text \<open>The parser state of a packet.\<close>

record packetState =
  pk_speaker :: Speaker
  pk_actions :: "sendAction list"
  pk_prefixDec :: PrefixDecoder
  pk_routerID :: "routerid option"
  pk_haveIPv4NextHop :: bool
  pk_linkChanged :: bool

definition handleUpdate :: "(int \<Rightarrow> int \<Rightarrow> real) \<Rightarrow> nat \<Rightarrow> time \<Rightarrow> packetState \<Rightarrow> bytes \<Rightarrow> packetState" where
  "handleUpdate mexp n now pk body =
     (let (decoded, dec) = Decode (pk_prefixDec pk) body; pk = pk\<lparr>pk_prefixDec := dec\<rparr>
      in case decoded of
        Inl _ \<Rightarrow> pk
      | Inr u \<Rightarrow>
      let pk = (if u_HasRouterID u then pk\<lparr>pk_routerID := Some (u_RouterID u)\<rparr> else pk);
          s = pk_speaker pk
      in if u_Ignore u then pk
      else if u_AE u = AEWildcard
      then pk\<lparr>pk_speaker := onRoutes s (\<lambda>rt. retractNeighbor (s_store s) mexp rt n now)\<rparr>
      else if u_AE u = AEIPv4 \<and> \<not> pk_haveIPv4NextHop pk \<and> u_Metric u \<noteq> MetricInfinity then pk
      else case AddrFromSlice (u_Prefix u) of
        None \<Rightarrow> pk
      | Some rxAddr \<Rightarrow>
      let dest = Masked (PrefixFrom (Unmap rxAddr) (u_Plen u))
      in if \<not> p_IsValid dest \<or> (p_IsValid (u_SourcePrefix u) \<and> Is4 (p_ip (u_SourcePrefix u)) \<noteq> Is4 (p_ip dest)) then pk
      else let key = \<lparr>rk_source = u_SourcePrefix u, rk_dest = dest\<rparr>
      in if key \<in> set (s_originate s) then pk
      else let hold = deadTimeout (interval (u_Interval u));
               apply = (\<lambda>adv. pk\<lparr>pk_speaker := onRoutes s (\<lambda>rt. rt_update (s_store s) mexp rt n key adv hold now)\<rparr>)
      in case pk_routerID pk of
           None \<Rightarrow>
             if u_Metric u \<noteq> MetricInfinity then pk
             else (case rt_route (s_routes s) n key of
                     Some route \<Rightarrow> apply \<lparr>adv_routerID = ri_routerID route, adv_seqno = ri_seqno route, adv_metric = u_Metric u\<rparr>
                   | None \<Rightarrow> apply \<lparr>adv_routerID = 0, adv_seqno = u_Seqno u, adv_metric = u_Metric u\<rparr>)
         | Some routerID \<Rightarrow>
             if routerID = s_routerID s then pk
             else apply \<lparr>adv_routerID = routerID, adv_seqno = u_Seqno u, adv_metric = u_Metric u\<rparr>)"

definition sendTLVs :: "Speaker \<Rightarrow> nat \<Rightarrow> routeKey \<Rightarrow> RawTLV list \<Rightarrow> bool \<Rightarrow> sendAction list" where
  "sendTLVs s n key tlvs spent =
     (if tlvs = [] then []
      else [\<lparr>act_neighbor = n, act_dest = n_destination (s_store s n), act_priority = priorityRequest, act_tlvs = tlvs,
             act_rollback = [\<lparr>tu_firstTLV = 0, tu_key = key, tu_spent = spent\<rparr>], act_whenRefused = []\<rparr>])"

definition answer :: "Speaker \<Rightarrow> nat \<Rightarrow> routeKey \<Rightarrow> time \<Rightarrow> (sendAction list \<times> Speaker) option" where
  "answer s n key now = map_option (\<lambda>(tlvs, spent, s). (sendTLVs s n key tlvs spent, s)) (advertiseTo s n key True now)"

definition routeReply :: "Speaker \<Rightarrow> nat \<Rightarrow> RouteRequest \<Rightarrow> time \<Rightarrow> (sendAction list \<times> Speaker) option" where
  "routeReply s n request now =
     (if rr_AE request = AEWildcard
      then let dumped = nb_lastFullDump (s_store s n)
           in if dumped \<noteq> 0 \<and> now - dumped < s_update s then Some ([], s)
              else let s = onNeighbor s n (\<lambda>nb. nb\<lparr>nb_lastFullDump := now\<rparr>)
                   in map_option (\<lambda>(tlvs, rollback, s).
                        (if tlvs = [] then []
                         else [\<lparr>act_neighbor = n, act_dest = n_destination (s_store s n), act_priority = priorityRequest,
                                act_tlvs = tlvs, act_rollback = rollback, act_whenRefused = []\<rparr>], s))
                      (dumpFor s n (advertisableKeys s) now)
      else answer s n \<lparr>rk_source = rr_SourcePrefix request, rk_dest = rr_Prefix request\<rparr> now)"

definition closerTarget :: "(nat \<Rightarrow> neighborState) \<Rightarrow> nat option \<Rightarrow> nat \<Rightarrow> nat option" where
  "closerTarget nb best n =
     (case best of None \<Rightarrow> Some n | Some m \<Rightarrow> if nb_peerID (nb n) < nb_peerID (nb m) then Some n else best)"

text \<open>The two candidates of the scan: the next hop of a feasible route and of an unfeasible one.\<close>

definition forwardStep :: "Speaker \<Rightarrow> routeKey \<Rightarrow> nat \<Rightarrow> nat option \<times> nat option \<Rightarrow> nat \<times> routeInfo \<Rightarrow> nat option \<times> nat option" where
  "forwardStep s key requester acc x = (case acc of (feas, unfeas) \<Rightarrow> case x of (n, route) \<Rightarrow>
     if n = requester \<or> ri_rxMetric route = MetricInfinity then acc
     else if feasible (s_routes s) key (advertised route) (nb_peerID (s_store s n)) then (closerTarget (s_store s) feas n, unfeas)
     else (feas, closerTarget (s_store s) unfeas n))"

definition forwardTarget :: "Speaker \<Rightarrow> routeKey \<Rightarrow> nat \<Rightarrow> nat option" where
  "forwardTarget s key requester =
     (case map_of (rt_entries (s_routes s)) key of
        None \<Rightarrow> None
      | Some entry \<Rightarrow>
          let sel = sel_neighbor (ke_selected entry)
          in if sel \<noteq> None \<and> sel \<noteq> Some requester then sel
             else let (feas, unfeas) = foldl (forwardStep s key requester) (None, None) (ke_routes entry)
                  in if feas \<noteq> None then feas else unfeas)"

definition raiseSeqno :: "Speaker \<Rightarrow> Speaker" where
  "raiseSeqno s = s\<lparr>s_raisedSeqno := True, s_originSeqno := s_originSeqno s + 1,
     s_routes := (s_routes s)\<lparr>rt_dirty := foldl (\<lambda>dirty key. List.insert key dirty) (rt_dirty (s_routes s)) (s_originate s)\<rparr>\<rparr>"

definition seqnoReply :: "Speaker \<Rightarrow> nat \<Rightarrow> SeqnoRequest \<Rightarrow> time \<Rightarrow> (sendAction list \<times> Speaker) option" where
  "seqnoReply s n request now =
     (let key = \<lparr>rk_source = sr_SourcePrefix request, rk_dest = sr_Prefix request\<rparr>
      in if key \<in> set (s_originate s)
         then answer (if sr_RouterID request = s_routerID s \<and> seqnoGT (sr_Seqno request) (s_originSeqno s) \<and> \<not> s_raisedSeqno s
                      then raiseSeqno s else s) n key now
         else if (case map_of (rt_entries (s_routes s)) key of
                    None \<Rightarrow> False
                  | Some entry \<Rightarrow> let sel = ke_selected entry
                      in sel_neighbor sel \<noteq> None \<and> sel_neighbor sel \<noteq> Some n \<and>
                         (sel_routerID sel \<noteq> sr_RouterID request \<or> \<not> seqnoGT (sr_Seqno request) (sel_seqno sel)))
         then answer s n key now
         else if sr_RouterID request = s_routerID s \<or> sr_HopCount request < 2 then Some ([], s)
         else case forwardTarget s key n of
                None \<Rightarrow> Some ([], s)
              | Some target \<Rightarrow>
                  map_option (\<lambda>(action, s). (case action of Some a \<Rightarrow> [a] | None \<Rightarrow> [], s))
                    (seqnoRequestAction s target (nb_peerID (s_store s n)) key (sr_RouterID request) (sr_Seqno request)
                       (sr_HopCount request - 1) now))"

fun helloTimestamp :: "RawTLV list \<Rightarrow> u32 option" where
  "helloTimestamp [] = None"
| "helloTimestamp (t # ts) =
     (if tlv_Type t = TLVHello
      then case DecodeHello (tlv_Body t) of
             Inr h \<Rightarrow> if h_HasTS h then Some (h_TxTS h) else helloTimestamp ts
           | Inl _ \<Rightarrow> helloTimestamp ts
      else helloTimestamp ts)"

definition withReply :: "packetState \<Rightarrow> (sendAction list \<times> Speaker) option \<Rightarrow> packetState option" where
  "withReply pk = map_option (\<lambda>(actions, s). pk\<lparr>pk_speaker := s, pk_actions := pk_actions pk @ actions\<rparr>)"

definition withLink :: "packetState \<Rightarrow> Speaker \<times> bool \<Rightarrow> packetState" where
  "withLink pk x = pk\<lparr>pk_speaker := fst x, pk_linkChanged := (pk_linkChanged pk \<or> snd x)\<rparr>"

definition handleTLV ::
  "(int \<Rightarrow> int \<Rightarrow> real) \<Rightarrow> nat \<Rightarrow> u32 \<Rightarrow> u32 option \<Rightarrow> time \<Rightarrow> packetState \<Rightarrow> RawTLV \<Rightarrow> packetState option" where
  "handleTLV mexp n recvTS helloTS now pk t =
     (let s = pk_speaker pk; body = tlv_Body t
      in if tlv_Type t = TLVHello
         then (case DecodeHello body of Inl _ \<Rightarrow> Some pk | Inr h \<Rightarrow> Some (withLink pk (handleHello s n h recvTS now)))
         else if tlv_Type t = TLVIHU
         then (case DecodeIHU body of Inl _ \<Rightarrow> Some pk
               | Inr (ihu, rxAddr) \<Rightarrow> Some (withLink pk (handleIHU s n ihu rxAddr recvTS helloTS now)))
         else if tlv_Type t = TLVNextHop
         then (case DecodeNextHop body of Inl _ \<Rightarrow> Some pk
               | Inr (_, ae, _) \<Rightarrow> Some (if ae = AEIPv4 then pk\<lparr>pk_haveIPv4NextHop := True\<rparr> else pk))
         else if tlv_Type t = TLVRouterID
         then (case DecodeRouterID body of Inl _ \<Rightarrow> Some pk | Inr (ident, _) \<Rightarrow> Some (pk\<lparr>pk_routerID := Some ident\<rparr>))
         else if tlv_Type t = TLVUpdate then Some (handleUpdate mexp n now pk body)
         else if tlv_Type t = TLVAckReq
         then (case DecodeAckReq body of Inl _ \<Rightarrow> Some pk
               | Inr nonce \<Rightarrow>
                   if a_IsValid (nb_addr (s_store s n))
                   then Some (pk\<lparr>pk_actions := pk_actions pk @ [\<lparr>act_neighbor = n, act_dest = nb_addr (s_store s n),
                          act_priority = priorityRequest, act_tlvs = [EncodeAck nonce], act_rollback = [], act_whenRefused = []\<rparr>]\<rparr>)
                   else Some pk)
         else if tlv_Type t = TLVRouteRequest
         then (case DecodeRouteRequest body of Inl _ \<Rightarrow> Some pk | Inr request \<Rightarrow> withReply pk (routeReply s n request now))
         else if tlv_Type t = TLVSeqnoRequest
         then (case DecodeSeqnoRequest body of Inl _ \<Rightarrow> Some pk | Inr request \<Rightarrow> withReply pk (seqnoReply s n request now))
         else Some pk)"

definition unixMicro :: "time \<Rightarrow> u32" where "unixMicro now = of_int (now div 1000)"

definition handlePacketLocked ::
  "(int \<Rightarrow> int \<Rightarrow> real) \<Rightarrow> Speaker \<Rightarrow> nat \<Rightarrow> bytes \<Rightarrow> time \<Rightarrow> (sendAction list \<times> Speaker) option" where
  "handlePacketLocked mexp s n raw now =
     (case DecodePacket raw of
        Inl _ \<Rightarrow> Some ([], s)
      | Inr tlvs \<Rightarrow> do {
          pk \<leftarrow> foldOpt (handleTLV mexp n (unixMicro now) (helloTimestamp tlvs) now)
            \<lparr>pk_speaker = s\<lparr>s_raisedSeqno := False\<rparr>, pk_actions = [], pk_prefixDec = newPrefixDecoder, pk_routerID = None,
             pk_haveIPv4NextHop = False, pk_linkChanged = False\<rparr> tlvs;
          let s = pk_speaker pk;
          let s = (if pk_linkChanged pk then onRoutes s (\<lambda>rt. recomputeNeighbor (s_store s) mexp rt n now) else s);
          (starved, s) \<leftarrow> starvedActions s now;
          Some (pk_actions pk @ starved, s)
        })"

section \<open>The run loop\<close>

definition noteDeadline :: "Speaker \<Rightarrow> time \<Rightarrow> string \<times> nat \<Rightarrow> time" where
  "noteDeadline s deadline x =
     (let n = s_store s (snd x);
          deadline = (if nb_alive n
                      then let deadline = earlier deadline (helloExpiry n)
                           in if nb_nextHelloDue n \<noteq> 0 then earlier deadline (nb_nextHelloDue n) else deadline
                      else deadline);
          deadline = (if nb_haveReportedCost n then earlier deadline (nb_ihuExpiry n) else deadline)
      in if nb_haveRTT n then earlier deadline (nb_rttExpiry n) else deadline)"

definition deadlineLocked :: "Speaker \<Rightarrow> time" where
  "deadlineLocked s =
     (let deadline = earlier (earlier (s_nextHello s) (s_nextUpdate s)) (rt_nextExpiryAt (s_routes s));
          deadline = earlier (earlier deadline (s_nextStarveRetry s)) (s_retryAt s);
          deadline = earlier deadline (s_nextRequestSweep s)
      in foldl (noteDeadline s) deadline (s_neighbors s))"

definition pendingWorkLocked :: "Speaker \<Rightarrow> bool" where
  "pendingWorkLocked s = (s_updatePending s \<or> rt_dirty (s_routes s) \<noteq> [] \<or> rt_starved (s_routes s) \<noteq> [])"

definition wakeForPacketLocked :: "Speaker \<Rightarrow> Speaker" where
  "wakeForPacketLocked s =
     (if pendingWorkLocked s \<or> s_sleepUntil s = 0 \<or> deadlineLocked s < s_sleepUntil s then wake s else s)"

definition Receive ::
  "(int \<Rightarrow> int \<Rightarrow> real) \<Rightarrow> (nat \<Rightarrow> bool \<times> u32) \<Rightarrow> Speaker \<Rightarrow> nat \<Rightarrow> string \<Rightarrow> bytes \<Rightarrow> time \<Rightarrow> time \<Rightarrow>
    (bool \<times> Speaker \<times> reservedPacket list) option" where
  "Receive mexp env s peer ident raw now sentAt =
     (if \<not> isBabelPacket raw then Some (False, s, [])
      else case parsePacket raw (s_linkLocal s) of
        Inl _ \<Rightarrow> Some (False, s, [])
      | Inr (src, payload) \<Rightarrow>
          (case map_of (s_neighbors s) ident of
             None \<Rightarrow> Some (True, s, [])
           | Some n \<Rightarrow>
               if nb_peer (s_store s n) \<noteq> peer then Some (True, s, [])
               else do {
                 let s = onNeighbor s n (\<lambda>nb. nb\<lparr>nb_addr := src\<rparr>);
                 (actions, s) \<leftarrow> handlePacketLocked mexp s n payload now;
                 let (s, packets) = emitLocked env s actions sentAt;
                 Some (True, wakeForPacketLocked s, packets)
               }))"

fun missLoop :: "nat \<Rightarrow> time \<Rightarrow> neighborState \<Rightarrow> neighborState" where
  "missLoop 0 now n = n"
| "missLoop (Suc i) now n =
     (if nb_helloInterval n > 0 \<and> nb_nextHelloDue n \<noteq> 0 \<and> \<not> now < nb_nextHelloDue n
      then missLoop i now (n\<lparr>nb_history := missed (nb_history n), nb_nextHelloDue := nb_nextHelloDue n + nb_helloInterval n\<rparr>)
      else n)"

definition sweepNeighbor :: "time \<Rightarrow> neighborState \<Rightarrow> neighborState" where
  "sweepNeighbor now n =
     (let n = missLoop historyDepth now n;
          n = (if nb_alive n \<and> \<not> isAlive n now then forgetLink (n\<lparr>nb_alive := False, nb_haveReportedCost := False\<rparr>) else n);
          n = (if nb_haveReportedCost n \<and> \<not> now < nb_ihuExpiry n then n\<lparr>nb_haveReportedCost := False\<rparr> else n)
      in if nb_haveRTT n \<and> \<not> now < nb_rttExpiry n then n\<lparr>nb_haveRTT := False\<rparr> else n)"

definition sweepExpiredLocked :: "(int \<Rightarrow> int \<Rightarrow> real) \<Rightarrow> Speaker \<Rightarrow> time \<Rightarrow> Speaker" where
  "sweepExpiredLocked mexp s now =
     (let s = foldl (\<lambda>s (_, n). onNeighbor s n (sweepNeighbor now)) s (s_neighbors s);
          s = onRoutes s (\<lambda>rt. sweepExpired (s_store s) mexp rt now)
      in sweepRequestsLocked s now)"

definition helloActions :: "Speaker \<Rightarrow> bool \<Rightarrow> time \<Rightarrow> sendAction list \<times> Speaker" where
  "helloActions s due now =
     foldl (\<lambda>(actions, s) (_, n).
       if due \<or> \<not> nb_sentHello (s_store s n) then let (a, s) = helloAction s n now in (actions @ [a], s) else (actions, s))
       ([], s) (s_neighbors s)"

definition runPass ::
  "(int \<Rightarrow> int \<Rightarrow> real) \<Rightarrow> (nat \<Rightarrow> bool \<times> u32) \<Rightarrow> Speaker \<Rightarrow> time \<Rightarrow> time \<Rightarrow> (Speaker \<times> reservedPacket list) option" where
  "runPass mexp env s now sentAt = do {
     let s = applyLostLocked (s\<lparr>s_retryAt := 0, s_passes := s_passes s + 1\<rparr>);
     let s = sweepExpiredLocked mexp s now;
     let helloDue = (\<not> now < s_nextHello s);
     let s = (if helloDue then s\<lparr>s_nextHello := now + s_hello s\<rparr> else s);
     let (hellos, s) = helloActions s helloDue now;
     (updates, s) \<leftarrow> (if \<not> now < s_nextUpdate s \<or> s_updatePending s
       then map_option (\<lambda>(a, s). (a, (if \<not> now < s_nextUpdate s then s\<lparr>s_nextUpdate := now + s_update s\<rparr> else s)\<lparr>s_updatePending := False\<rparr>))
              (updateActions s now)
       else triggeredActions s now);
     (starved, s) \<leftarrow> starvedActions s now;
     (retries, s) \<leftarrow> retryStarvedLocked s now;
     let (s, packets) = emitLocked env s (hellos @ updates @ starved @ retries) sentAt;
     Some (s\<lparr>s_sleepUntil := deadlineLocked s\<rparr>, packets)
   }"

end
