(* ===== verification/Babel_Track.thy ===== *)
theory Babel_Track
  imports Babel_Speaker
begin

text \<open>
  What the operations of the route table do to the prefixes the speaker knows and to the forwarding table. A
  prefix is acceptable when every encoder of an update or a request accepts it; the prefixes decoded from the wire and
  those of the configuration are. The table invents none, and the callbacks it records turn a forwarding table that
  follows its selections into one that follows the new ones.
\<close>

section \<open>Prefixes the encoders accept\<close>

definition key_ok :: "routeKey \<Rightarrow> bool" where
  "key_ok k \<longleftrightarrow> canonical (rk_dest k) \<and>
     (rk_source k = noPrefix \<or> canonical (rk_source k) \<and> p_Bits (rk_source k) \<noteq> 0 \<and> Is4 (p_ip (rk_source k)) = Is4 (p_ip (rk_dest k)))"

lemma canonical_masked: "prefix_ok p \<Longrightarrow> p_IsValid (Masked p) \<Longrightarrow> canonical (Masked p)"
  using Masked_props [of p] by (simp add: canonical_def)

lemma ae_choices: "ae_of (updateAE p) (p_ip p)" "ae_of (aeFor p) (p_ip p)"
  by (simp_all add: ae_of_def updateAE_def aeFor_def)

lemma key_wire:
  assumes "key_ok key"
  shows "wire_prefix (updateAE (rk_dest key)) (rk_dest key)" "source_ok (updateAE (rk_dest key)) (rk_source key)"
    "source_ok (aeFor (rk_dest key)) (rk_source key)"
proof -
  have "ae_of (updateAE (rk_dest key)) (p_ip (rk_source key))" "ae_of (aeFor (rk_dest key)) (p_ip (rk_source key))"
    if "Is4 (p_ip (rk_source key)) = Is4 (p_ip (rk_dest key))"
    using that by (simp_all add: ae_of_def updateAE_def aeFor_def)
  then show "wire_prefix (updateAE (rk_dest key)) (rk_dest key)" "source_ok (updateAE (rk_dest key)) (rk_source key)"
    "source_ok (aeFor (rk_dest key)) (rk_source key)"
    using assms ae_choices [of "rk_dest key"] by (auto simp: key_ok_def canonical_def wire_prefix_def source_ok_def)
qed

lemma updateTLVs_ok: "key_ok key \<Longrightarrow> \<exists>u. updateTLVs key adv d = Some [EncodeRouterID (adv_routerID adv), u] \<and> tlv_Type u = TLVUpdate"
  using key_wire [of key] by (auto simp: updateTLVs_def EncodeUpdate_wire [where p = "rk_dest key"])

lemma requestAction_ok: "key_ok key \<Longrightarrow> \<exists>a. requestAction s n key rid seqno hops = Some a"
  using key_wire(3) [of key] by (auto simp: requestAction_def EncodeSeqnoRequest_def Let_def appendSource_ok)

lemma originatedKey_ok:
  assumes "originatedKey dest source = Some key" "prefix_ok dest" "prefix_ok source"
  shows "key_ok key"
proof -
  have p: "p_IsValid dest" "rk_dest key = Masked dest" using assms(1) by (auto simp: originatedKey_def split: if_splits)
  have f: "Is4 (p_ip (Masked q)) = Is4 (p_ip q)" if "prefix_ok q" "p_IsValid q" for q
  proof -
    have "BitLen (p_ip (Masked q)) = BitLen (p_ip q)" by (rule Masked_props(5) [OF that])
    then show ?thesis by (cases "p_ip q"; cases "p_ip (Masked q)") auto
  qed
  show ?thesis using assms p Masked_props [OF assms(2)] Masked_props [OF assms(3)] f [OF assms(2)] f [OF assms(3)]
    by (auto simp: key_ok_def canonical_def originatedKey_def split: if_splits)
qed

lemma Decode_source:
  assumes "Decode d body = (Inr u, d')"
  shows "\<exists>ae. source_ok ae (u_SourcePrefix u)"
proof -
  obtain h extra where "Inr u = Inr (decodeExtra h extra)" "u_SourcePrefix h = noPrefix"
    using assms unfolding Decode_rest Let_def by (auto split: if_splits option.splits)
  then show ?thesis using decodeExtra_ok [of h extra] by auto
qed

lemma requestSubs_source:
  "requestSubsLoop ae source subs = Inr s \<Longrightarrow> source_ok ae source \<Longrightarrow> source_ok ae s"
  by (induction ae source subs rule: requestSubsLoop.induct) (auto dest: decodeSourcePrefix_ok split: if_splits option.splits)

lemma source_key:
  assumes "source_ok ae source" "canonical dest" "\<not> (p_IsValid source \<and> Is4 (p_ip source) \<noteq> Is4 (p_ip dest))"
  shows "key_ok \<lparr>rk_source = source, rk_dest = dest\<rparr>"
  using assms by (auto simp: key_ok_def canonical_def source_ok_def wire_prefix_def)

lemma decodeRequestPrefix_key:
  assumes "decodeRequestPrefix ae plen raw = Inr (prefix, source)" "p_IsValid prefix"
  shows "key_ok \<lparr>rk_source = source, rk_dest = prefix\<rparr>"
proof -
  have ae: "ae \<noteq> AEWildcard" using assms by (auto simp: decodeRequestPrefix_def noPrefix_def p_IsValid_def split: if_splits sum.splits)
  then obtain tail addr where r: "decodeRequestSubTLVs ae tail = Inr source" "prefix = Masked (PrefixFrom addr plen)"
    "\<not> (p_IsValid source \<and> Is4 (p_ip source) \<noteq> Is4 (p_ip prefix))"
    using assms(1) by (auto simp: decodeRequestPrefix_def Let_def simp del: Masked_4 Masked_6 split: if_splits sum.splits)
  have "source_ok ae source" using r(1) by (auto simp: decodeRequestSubTLVs_def source_ok_def [of _ noPrefix] split: sum.splits dest: requestSubs_source)
  moreover have "canonical prefix" using canonical_masked [of "PrefixFrom addr plen"] assms(2) r(2) by simp
  ultimately show ?thesis using source_key r(3) by blast
qed


section \<open>Prefixes and next hops of the route table\<close>

text \<open>
  \<open>hop\<close> is the next hop of a prefix, \<open>after\<close> the forwarding table once the recorded callbacks have run. A
  table tracks its forwarding table when a prefix with a next hop is forwarded to it and any other is not
  forwarded at all, and it invents no prefix: its entries are in \<open>E\<close>, what it wants announced in \<open>D\<close>.
\<close>

definition hop :: "routeTable \<Rightarrow> routeKey \<Rightarrow> nat option" where
  "hop rt key = Option.bind (map_of (rt_entries rt) key) (\<lambda>e. sel_neighbor (ke_selected e))"

definition peerOf :: "(nat \<Rightarrow> neighborState) \<Rightarrow> nat option \<Rightarrow> peerRef" where
  "peerOf nb h = (case h of Some n \<Rightarrow> PeerAt (nb_peer (nb n)) | None \<Rightarrow> Unreachable)"

fun after :: "(nat \<Rightarrow> neighborState) \<Rightarrow> (routeKey \<rightharpoonup> peerRef) \<Rightarrow> route_event \<Rightarrow> (routeKey \<rightharpoonup> peerRef)" where
  "after nb m (Install key sel) = m(key \<mapsto> peerOf nb (sel_neighbor sel))"
| "after nb m (Forget key) = m(key := None)"

definition mirrors :: "(nat \<Rightarrow> neighborState) \<Rightarrow> (routeKey \<rightharpoonup> peerRef) \<Rightarrow> routeTable \<Rightarrow> bool" where
  "mirrors nb m rt \<longleftrightarrow> (\<forall>key. m key = Some (peerOf nb (hop rt key)) \<or> m key = None \<and> hop rt key = None)"

fun eventKey :: "route_event \<Rightarrow> routeKey" where
  "eventKey (Install key sel) = key"
| "eventKey (Forget key) = key"

definition tracks ::
  "routeKey set \<Rightarrow> routeKey set \<Rightarrow> (nat \<Rightarrow> neighborState) \<Rightarrow> (routeKey \<rightharpoonup> peerRef) \<Rightarrow> routeTable \<Rightarrow> bool" where
  "tracks E D nb m rt \<longleftrightarrow> fst ` set (rt_entries rt) \<subseteq> E \<and> eventKey ` set (rt_events rt) \<subseteq> E \<and>
     set (rt_dirty rt) \<subseteq> D \<and> sv_key ` set (rt_starved rt) \<subseteq> D \<and> mirrors nb (foldl (after nb) m (rt_events rt)) rt \<and>
     dom (foldl (after nb) m (rt_events rt)) \<subseteq> fst ` set (rt_entries rt) \<union> (D - E)"

lemma alist_update_keys: "fst ` set (AList.update k v al) = insert k (fst ` set al)"
  by (induction al) auto

lemma alist_delete_keys: "fst ` set (AList.delete k al) = fst ` set al - {k}"
  by (force simp: AList.delete_eq)

definition starveAll :: "routeKey \<Rightarrow> (nat \<times> routeInfo) list \<Rightarrow> nat list \<Rightarrow> routeTable \<Rightarrow> routeTable" where
  "starveAll key routes ns rt =
     foldl (\<lambda>rt n. case map_of routes n of Some r \<Rightarrow> starve rt key n (advertised r) | None \<Rightarrow> rt) rt ns"

lemma starveAll_effect [simp]:
  "rt_dirty (starveAll key routes ns rt) = rt_dirty rt" "rt_events (starveAll key routes ns rt) = rt_events rt"
  unfolding starveAll_def by (induction ns arbitrary: rt) (auto simp: starve_def split: option.split)

lemma starveAll_keys: "r \<in> set (rt_starved (starveAll key routes ns rt)) \<Longrightarrow> sv_key r = key \<or> r \<in> set (rt_starved rt)"
  unfolding starveAll_def by (induction ns arbitrary: rt) (force simp: starve_def split: option.splits)+

lemma selectRoute_side:
  fixes nb mexp rt key entry now
  defines "e \<equiv> selectedEntry nb mexp rt key entry now"
  shows "rt_events (selectRoute nb mexp rt key entry now) = rt_events rt @
      (if sel_neighbor (ke_selected e) \<noteq> sel_neighbor (ke_selected entry) then [Install key (ke_selected e)] else []) @
      (if ke_routes e = [] then [Forget key] else [])" (is ?events)
    and "set (rt_dirty (selectRoute nb mexp rt key entry now)) \<subseteq> insert key (set (rt_dirty rt))" (is ?dirty)
    and "sv_key ` set (rt_starved (selectRoute nb mexp rt key entry now)) \<subseteq> insert key (sv_key ` set (rt_starved rt))" (is ?starved)
proof -
  obtain rs acc where l: "selectLoop nb mexp rt key (sel_neighbor (ke_selected entry)) now (ke_routes entry) (startAcc (rt_nextExpiryAt rt)) = (rs, acc)"
    by fastforce
  have e: "ke_routes e = rs" "ke_selected e = chooseSelection rs acc"
    using l by (auto simp: e_def selectedEntry_def selectLoop_eq Let_def)
  note d = selectRoute_def [of nb mexp rt key entry now, folded startAcc_def starveAll_def, unfolded l prod.case Let_def]
  show ?events ?dirty unfolding d e by (auto simp: flush_def)
  show ?starved unfolding d e by (auto simp: flush_def dest!: starveAll_keys)
qed

lemma selectRoute_tracks:
  assumes "tracks E D nb m rt" "key \<in> E" "E \<subseteq> D" "hop rt key = sel_neighbor (ke_selected entry)"
  shows "tracks E D nb m (selectRoute nb mexp rt key entry now)"
proof -
  let ?e = "selectedEntry nb mexp rt key entry now" and ?rt = "selectRoute nb mexp rt key entry now"
  note side = selectRoute_side [of nb mexp rt key entry now]
  have h: "hop ?rt k = (if k = key then if ke_routes ?e = [] then None else sel_neighbor (ke_selected ?e) else hop rt k)" for k
    by (simp add: hop_def selectRoute_effect update_conv delete_conv)
  let ?m = "foldl (after nb) m (rt_events rt)"
  have "?m key = Some (peerOf nb (sel_neighbor (ke_selected entry))) \<or> ?m key = None \<and> sel_neighbor (ke_selected entry) = None"
    using assms(1) unfolding assms(4) [symmetric] mirrors_def tracks_def by blast
  then have "mirrors nb (foldl (after nb) m (rt_events ?rt)) ?rt"
    unfolding mirrors_def side(1) h using assms(1) by (auto simp: mirrors_def tracks_def)
  moreover have t: "fst ` set (rt_entries rt) \<subseteq> E" "eventKey ` set (rt_events rt) \<subseteq> E" "set (rt_dirty rt) \<subseteq> D"
    "sv_key ` set (rt_starved rt) \<subseteq> D" using assms(1) by (simp_all add: tracks_def)
  moreover have "fst ` set (rt_entries ?rt) \<subseteq> E" using t(1) assms(2) by (auto simp: selectRoute_effect alist_update_keys alist_delete_keys)
  moreover have "eventKey ` set (rt_events ?rt) \<subseteq> E" using t(2) assms(2) by (auto simp: side(1))
  moreover have "set (rt_dirty ?rt) \<subseteq> D" "sv_key ` set (rt_starved ?rt) \<subseteq> D" using side(2,3) t(3,4) assms(2,3) by blast+
  moreover have "dom (foldl (after nb) m (rt_events ?rt)) \<subseteq> fst ` set (rt_entries ?rt) \<union> (D - E)"
  proof -
    have "dom ?m \<subseteq> fst ` set (rt_entries rt) \<union> (D - E)" using assms(1) by (simp add: tracks_def)
    then show ?thesis unfolding side(1) by (auto simp: selectRoute_effect alist_update_keys alist_delete_keys split: if_splits)
  qed
  ultimately show ?thesis unfolding tracks_def by blast
qed

lemma tracks_view:
  "rt_entries rt' = rt_entries rt \<Longrightarrow> rt_events rt' = rt_events rt \<Longrightarrow> rt_dirty rt' = rt_dirty rt \<Longrightarrow>
   rt_starved rt' = rt_starved rt \<Longrightarrow> tracks E D nb m rt' = tracks E D nb m rt"
  by (simp add: tracks_def mirrors_def hop_def)

lemma hop_reselect: "map_of (rt_entries rt) key = Some entry \<Longrightarrow> hop rt key = sel_neighbor (ke_selected (entry\<lparr>ke_routes := rs\<rparr>))"
  by (simp add: hop_def)

lemma tracks_entry: "tracks E D nb m rt \<Longrightarrow> map_of (rt_entries rt) key = Some entry \<Longrightarrow> key \<in> E"
  by (force simp: tracks_def dest!: map_of_SomeD)

lemma forEntries_tracks:
  assumes "tracks E D nb m rt"
    and "\<And>rt key entry. tracks E D nb m rt \<Longrightarrow> map_of (rt_entries rt) key = Some entry \<Longrightarrow> tracks E D nb m (f rt key entry)"
  shows "tracks E D nb m (forEntries rt f)"
proof -
  have "tracks E D nb m (foldl (\<lambda>rt key. case map_of (rt_entries rt) key of Some entry \<Rightarrow> f rt key entry | None \<Rightarrow> rt) rt ks)" for ks
    using assms(1) by (induction ks arbitrary: rt) (auto split: option.split intro!: assms(2))
  then show ?thesis by (simp add: forEntries_def)
qed

lemma reselect_tracks:
  assumes "tracks E D nb m rt" "map_of (rt_entries rt) key = Some entry" "E \<subseteq> D"
  shows "tracks E D nb m (selectRoute nb mexp rt key (entry\<lparr>ke_routes := rs\<rparr>) now)"
    "tracks E D nb m (selectRoute nb mexp rt key entry now)"
  using assms tracks_entry [OF assms(1,2)] by (auto intro!: selectRoute_tracks simp: hop_def)

lemma acquire_tracks:
  assumes "tracks E D nb m rt" "key \<in> E" "E \<subseteq> D" "hop rt key = sel_neighbor (ke_selected entry)"
  shows "tracks E D nb m (acquire nb mexp rt n key entry route adv feas hold now)"
proof -
  let ?e = "entry\<lparr>ke_routes := AList.update n (storeRoute route adv hold now) (ke_routes entry)\<rparr>"
  let ?rt = "rt\<lparr>rt_entries := AList.update key ?e (rt_entries rt)\<rparr>"
  have h: "hop ?rt k = hop rt k" for k using assms(4) by (simp add: hop_def update_conv)
  then have t: "tracks E D nb m ?rt" using assms(1,2) by (auto simp: tracks_def mirrors_def alist_update_keys)
  then have "tracks E D nb m (starve ?rt key n adv)"
    using assms(2,3) by (auto simp: tracks_def mirrors_def starve_def hop_def)
  moreover have "hop (starve ?rt key n adv) key = hop ?rt key" by (simp add: hop_def)
  ultimately show ?thesis using t assms(2-4) h by (simp add: acquire_def Let_def selectRoute_tracks)
qed

lemma update_tracks:
  assumes "tracks E D nb m rt" "key \<in> E" "E \<subseteq> D"
  shows "tracks E D nb m (rt_update nb mexp rt n key adv hold now)"
proof -
  obtain rt' where rt: "(if adv_metric adv \<noteq> MetricInfinity then forgetRetraction rt n else rt) = rt'" by simp
  then have t: "tracks E D nb m rt'" using tracks_view [of rt' rt] assms(1) by (auto simp: forgetRetraction_def)
  show ?thesis
    unfolding rt_update_def Let_def rt
    by (auto split: option.split intro!: t acquire_tracks [OF t assms(2,3)] simp: hop_def newKeyEntry_def noSelection_def)
qed

lemma observe_tracks:
  "rt_dirty (observe rt key adv p now) = rt_dirty rt" "rt_starved (observe rt key adv p now) = rt_starved rt"
  "rt_events (observe rt key adv p now) = rt_events rt"
  by (simp_all add: observe_def releaseOrigin_def Let_def split: option.split)

lemma sweepSources_tracks:
  "rt_dirty (sweepSources rt now) = rt_dirty rt \<and> rt_starved (sweepSources rt now) = rt_starved rt \<and> rt_events (sweepSources rt now) = rt_events rt"
proof -
  have "rt_dirty (foldl (sweepSource now) rt l) = rt_dirty rt \<and> rt_starved (foldl (sweepSource now) rt l) = rt_starved rt \<and>
      rt_events (foldl (sweepSource now) rt l) = rt_events rt" for l
    by (induction l arbitrary: rt) (auto simp: sweepSource_def releaseOrigin_def split: prod.split)
  then show ?thesis by (simp add: sweepSources_def)
qed

text \<open>The calls that may record callbacks.\<close>

lemma tableStep_tracks:
  assumes "tracks E D nb m rt" "E \<subseteq> D"
    and "case op of Update n key adv hold now \<Rightarrow> key \<in> E | Adopted key \<Rightarrow> False | _ \<Rightarrow> True"
  shows "tracks E D nb m (tableStep nb mexp rt op)"
proof (cases op)
  case (Update n key adv hold now)
  then show ?thesis using update_tracks assms by simp
next
  case (Recompute n now)
  then show ?thesis
    by (auto simp: recomputeNeighbor_def split: option.split intro!: forEntries_tracks assms(1) reselect_tracks assms(2))
next
  case (Expire n now)
  have "tracks E D nb m (rt\<lparr>rt_retracted := R\<rparr>)" for R using assms(1) tracks_view [of "rt\<lparr>rt_retracted := R\<rparr>" rt] by simp
  then show ?thesis unfolding Expire
    by (auto simp: expireNeighbor_def split: option.split intro!: forEntries_tracks reselect_tracks(1) assms(2))
next
  case (Retract n now)
  have "tracks E D nb m (rt\<lparr>rt_retracted := R\<rparr>)" for R using assms(1) tracks_view [of "rt\<lparr>rt_retracted := R\<rparr>" rt] by simp
  then show ?thesis unfolding Retract
    by (auto simp: retractNeighbor_def Let_def split: option.split intro!: forEntries_tracks reselect_tracks(1) assms(1,2))
next
  case (SweepExpired now)
  have "tracks E D nb m (rt\<lparr>rt_nextExpiryAt := 0\<rparr>)" using assms(1) tracks_view [of "rt\<lparr>rt_nextExpiryAt := 0\<rparr>" rt] by simp
  then have "tracks E D nb m (forEntries (rt\<lparr>rt_nextExpiryAt := 0\<rparr>) (\<lambda>rt key entry. selectRoute nb mexp rt key entry now))"
    by (auto intro!: forEntries_tracks reselect_tracks assms(2))
  then show ?thesis unfolding SweepExpired using tracks_view [of "sweepSources _ now"] sweepSources_tracks by (simp add: sweepExpired_def)
next
  case (Advertised key p now)
  then show ?thesis using assms(1) tracks_view [of "observe rt _ _ _ _" rt] observe_tracks by (auto simp: Let_def split: option.split)
next
  case (Originated key rid seqno p now)
  then show ?thesis using assms(1) tracks_view [of "observe rt _ _ _ _" rt] observe_tracks by auto
qed (use assms(3) in simp)

end
