(* ===== verification/Babel_Machine.thy ===== *)
theory Babel_Machine
  imports Babel_Track
begin

text \<open>
  The speaker as a state machine: an invariant of its state, kept by every operation, from which it follows that no
  operation panics, that the forwarding table follows the route selections, and that the tables of requests stay
  within their bounds.
\<close>

section \<open>Ledgers\<close>

text \<open>A table whose entries are counted per owner.\<close>

definition shares :: "('e \<Rightarrow> 'p) \<Rightarrow> ('k \<times> 'e) list \<Rightarrow> 'p \<Rightarrow> nat" where
  "shares f al p = length (filter (\<lambda>(i, e). f e = p) al)"

definition ledger :: "('e \<Rightarrow> 'p) \<Rightarrow> ('k \<times> 'e) list \<Rightarrow> ('p \<rightharpoonup> nat) \<Rightarrow> bool" where
  "ledger f al m \<longleftrightarrow> distinct (map fst al) \<and> tally m (shares f al)"

lemma shares_mid:
  "shares f (xs @ (k, v) # ys) = (shares f (xs @ ys))(f v := shares f (xs @ ys) (f v) + 1)"
  by (auto simp: shares_def fun_eq_iff)

lemma ledger_split:
  assumes "ledger f al m" "map_of al k = Some old"
  obtains xs ys where "al = xs @ (k, old) # ys" "\<And>w. AList.update k w al = xs @ (k, w) # ys" "AList.delete k al = xs @ ys"
    "tally (count_dec m (f old)) (shares f (xs @ ys))"
proof -
  obtain xs ys where al: "al = xs @ (k, old) # ys" "\<And>w. AList.update k w al = xs @ (k, w) # ys" "AList.delete k al = xs @ ys"
    using alist_split [of al k old] assms by (auto simp: ledger_def)
  moreover have "tally (count_dec m (f old)) ((shares f al)(f old := shares f al (f old) - 1))"
    by (rule tally_dec) (use assms(1) in \<open>simp add: ledger_def\<close>)
  moreover have "(shares f al)(f old := shares f al (f old) - 1) = shares f (xs @ ys)" by (simp add: al(1) shares_mid)
  ultimately show thesis using that by metis
qed

lemma ledger_insert:
  assumes "ledger f al m" "map_of al k = None"
  shows "ledger f (AList.update k v al) (count_inc m (f v))" "shares f (AList.update k v al) p = shares f al p + of_bool (f v = p)"
    "length (AList.update k v al) = Suc (length al)"
proof -
  have u: "AList.update k v al = al @ [(k, v)]" by (rule alist_update_new [OF assms(2)])
  then show s: "shares f (AList.update k v al) p = shares f al p + of_bool (f v = p)" for p by (simp add: shares_def)
  show "length (AList.update k v al) = Suc (length al)" by (simp add: u)
  have "tally (count_inc m (f v)) ((shares f al)(f v := shares f al (f v) + 1))"
    by (rule tally_inc) (use assms(1) in \<open>simp add: ledger_def\<close>)
  then have "tally (count_inc m (f v)) (shares f (AList.update k v al))" by (rule tally_cong) (simp add: s)
  then show "ledger f (AList.update k v al) (count_inc m (f v))" using assms(1) by (simp add: ledger_def distinct_update)
qed

lemma ledger_replace:
  assumes "ledger f al m" "map_of al k = Some old"
  shows "ledger f (AList.update k v al) (count_inc (count_dec m (f old)) (f v))"
    "shares f (AList.update k v al) p \<le> shares f al p + of_bool (f v = p \<and> f old \<noteq> p)"
    "length (AList.update k v al) = length al"
proof -
  obtain xs ys where l: "al = xs @ (k, old) # ys" "\<And>w. AList.update k w al = xs @ (k, w) # ys"
    "tally (count_dec m (f old)) (shares f (xs @ ys))" using ledger_split [OF assms] by metis
  have "tally (count_inc (count_dec m (f old)) (f v)) (shares f (AList.update k v al))"
    using tally_inc [OF l(3), of "f v"] by (simp add: l(2) shares_mid)
  then show "ledger f (AList.update k v al) (count_inc (count_dec m (f old)) (f v))"
    using assms(1) by (simp add: ledger_def distinct_update)
  show "shares f (AList.update k v al) p \<le> shares f al p + of_bool (f v = p \<and> f old \<noteq> p)" "length (AList.update k v al) = length al"
    unfolding l(2) unfolding l(1) by (simp_all add: shares_def)
qed

lemma ledger_same:
  assumes "ledger f al m" "map_of al k = Some old" "f v = f old"
  shows "ledger f (AList.update k v al) m" "shares f (AList.update k v al) p = shares f al p" "length (AList.update k v al) = length al"
proof -
  obtain xs ys where l: "al = xs @ (k, old) # ys" "\<And>w. AList.update k w al = xs @ (k, w) # ys" using ledger_split [OF assms(1,2)] by metis
  show s: "shares f (AList.update k v al) p = shares f al p" "length (AList.update k v al) = length al" for p
    unfolding l(2) unfolding l(1) by (simp_all add: shares_def assms(3))
  have "shares f (AList.update k v al) = shares f al" using s by auto
  then show "ledger f (AList.update k v al) m" using assms(1) by (simp add: ledger_def distinct_update)
qed

lemma ledger_delete:
  assumes "ledger f al m" "map_of al k = Some old"
  shows "ledger f (AList.delete k al) (count_dec m (f old))" "shares f al p \<le> b \<Longrightarrow> shares f (AList.delete k al) p \<le> b"
    "length al \<le> b \<Longrightarrow> length (AList.delete k al) \<le> b"
proof -
  obtain xs ys where l: "al = xs @ (k, old) # ys" "AList.delete k al = xs @ ys"
    "tally (count_dec m (f old)) (shares f (xs @ ys))" using ledger_split [OF assms] by metis
  show "ledger f (AList.delete k al) (count_dec m (f old))" using assms(1) l by (simp add: ledger_def distinct_delete)
  show "shares f al p \<le> b \<Longrightarrow> shares f (AList.delete k al) p \<le> b" "length al \<le> b \<Longrightarrow> length (AList.delete k al) \<le> b"
    unfolding l(2) unfolding l(1) by (simp_all add: shares_def split: if_splits)
qed

section \<open>The invariant\<close>

definition meshMap :: "Speaker \<Rightarrow> routeKey \<rightharpoonup> peerRef" where
  "meshMap s key = table_map (rt_table (s_mesh s)) (rk_source key, rk_dest key)"

text \<open>A route of the table came from a neighbour state, and is not one of this node unless it is retracted.\<close>

definition foreign :: "Speaker \<Rightarrow> routeKey \<Rightarrow> nat \<Rightarrow> advertisement \<Rightarrow> bool" where
  "foreign s key n adv \<longleftrightarrow> n < s_fresh s \<and> (adv_metric adv = MetricInfinity \<or> adv_routerID adv \<noteq> s_routerID s)"

definition learnable :: "Speaker \<Rightarrow> routeKey set" where
  "learnable s = {k. key_ok k \<and> k \<notin> set (s_originate s)}"

definition routing_ok :: "Speaker \<Rightarrow> bool" where
  "routing_ok s \<longleftrightarrow> rt_events (s_routes s) = [] \<and> table_ok (rt_table (s_mesh s)) \<and> table_consistent (foreign s) (s_routes s) \<and>
     tracks (learnable s) {k. key_ok k} (s_store s) (meshMap s) (s_routes s) \<and>
     (\<forall>k\<in>set (s_originate s). key_ok k \<and> meshMap s k = Some Unreachable)"

definition neighbor_ok :: "neighborState \<Rightarrow> bool" where
  "neighbor_ok nb \<longleftrightarrow> (\<forall>k\<in>set (nb_advertised nb) \<union> set (nb_owed nb). key_ok k)"

definition peers_ok :: "Speaker \<Rightarrow> bool" where
  "peers_ok s \<longleftrightarrow> distinct (map fst (s_neighbors s)) \<and> (\<forall>(i, n)\<in>set (s_neighbors s). n < s_fresh s) \<and>
     (\<forall>n. neighbor_ok (s_store s n)) \<and> (\<forall>l\<in>set (s_lost s). key_ok (tu_key (lu_undo l)))"

definition pending_ok :: "(sourceKey \<times> pendingSeqno) list \<Rightarrow> (string \<rightharpoonup> nat) \<Rightarrow> bool" where
  "pending_ok al m \<longleftrightarrow> ledger pq_asker al m \<and> length al \<le> maxPendingSeqno \<and> (\<forall>p. shares pq_asker al p \<le> maxPendingSeqnoPerNeighbor)"

definition retries_ok :: "(sourceKey \<times> starveRetry) list \<Rightarrow> (string \<rightharpoonup> nat) \<Rightarrow> bool" where
  "retries_ok al m \<longleftrightarrow> ledger ry_asker al m \<and> length al \<le> maxStarveRetries \<and> (\<forall>p. shares ry_asker al p \<le> maxStarveRetriesPerNeighbor) \<and>
     (\<forall>(i, e)\<in>set al. key_ok (ry_key e) \<and> ry_attempts e \<le> seqnoRequestRetries)"

definition steady :: "Speaker \<Rightarrow> bool" where
  "steady s \<longleftrightarrow> routing_ok s \<and> peers_ok s \<and> pending_ok (s_pendingSeqno s) (s_pendingByAsker s) \<and>
     retries_ok (s_starveRetries s) (s_starveBy s)"

lemma after_cong: "(\<And>n. nb_peer (nb' n) = nb_peer (nb n)) \<Longrightarrow> after nb' m e = after nb m e"
  by (cases e) (simp_all add: peerOf_def split: option.split)

lemma tracks_cong:
  assumes "\<And>n. nb_peer (nb' n) = nb_peer (nb n)"
  shows "tracks E D nb' m rt = tracks E D nb m rt"
proof -
  have "peerOf nb' = peerOf nb" using assms by (simp add: peerOf_def fun_eq_iff split: option.split)
  moreover have "after nb' = after nb" by (intro ext after_cong assms)
  ultimately show ?thesis by (simp add: tracks_def mirrors_def)
qed

lemma routing_cong:
  assumes "s_routes s' = s_routes s" "s_mesh s' = s_mesh s" "s_originate s' = s_originate s" "s_fresh s' = s_fresh s"
    and "s_routerID s' = s_routerID s" "\<And>n. nb_peer (s_store s' n) = nb_peer (s_store s n)"
  shows "routing_ok s' = routing_ok s"
proof -
  have "foreign s' = foreign s" "learnable s' = learnable s" "meshMap s' = meshMap s"
    using assms(1-5) by (simp_all add: foreign_def [abs_def] learnable_def meshMap_def [abs_def])
  then show ?thesis using assms(1-5) tracks_cong [where nb' = "s_store s'" and nb = "s_store s", OF assms(6)] by (simp add: routing_ok_def)
qed

text \<open>Timers and flags.\<close>

lemma routing_timers [simp]:
  "routing_ok (s\<lparr>s_changed := b\<rparr>) = routing_ok s" "routing_ok (s\<lparr>s_updatePending := b\<rparr>) = routing_ok s"
  "routing_ok (s\<lparr>s_raisedSeqno := b\<rparr>) = routing_ok s" "routing_ok (s\<lparr>s_originSeqno := q\<rparr>) = routing_ok s"
  "routing_ok (s\<lparr>s_retryAt := t\<rparr>) = routing_ok s" "routing_ok (s\<lparr>s_passes := w\<rparr>) = routing_ok s"
  "routing_ok (s\<lparr>s_lostWoke := t\<rparr>) = routing_ok s" "routing_ok (s\<lparr>s_nextHello := t\<rparr>) = routing_ok s"
  "routing_ok (s\<lparr>s_nextUpdate := t\<rparr>) = routing_ok s" "routing_ok (s\<lparr>s_sleepUntil := t\<rparr>) = routing_ok s"
  "routing_ok (s\<lparr>s_nextRequestSweep := t\<rparr>) = routing_ok s" "routing_ok (s\<lparr>s_nextStarveRetry := t\<rparr>) = routing_ok s"
  "routing_ok (s\<lparr>s_askedSeqno := a\<rparr>) = routing_ok s" "routing_ok (s\<lparr>s_pendingSeqno := pp\<rparr>) = routing_ok s"
  "routing_ok (s\<lparr>s_pendingByAsker := pa\<rparr>) = routing_ok s" "routing_ok (s\<lparr>s_starveRetries := sr\<rparr>) = routing_ok s"
  "routing_ok (s\<lparr>s_starveBy := sb\<rparr>) = routing_ok s" "routing_ok (s\<lparr>s_lost := lo\<rparr>) = routing_ok s"
  "routing_ok (s\<lparr>s_neighbors := ns\<rparr>) = routing_ok s"
  by (rule routing_cong; simp)+

lemma steady_timers [simp]:
  "steady (s\<lparr>s_changed := b\<rparr>) = steady s" "steady (s\<lparr>s_updatePending := b\<rparr>) = steady s"
  "steady (s\<lparr>s_raisedSeqno := b\<rparr>) = steady s" "steady (s\<lparr>s_originSeqno := q\<rparr>) = steady s"
  "steady (s\<lparr>s_retryAt := t\<rparr>) = steady s" "steady (s\<lparr>s_passes := w\<rparr>) = steady s" "steady (s\<lparr>s_lostWoke := t\<rparr>) = steady s"
  "steady (s\<lparr>s_nextHello := t\<rparr>) = steady s" "steady (s\<lparr>s_nextUpdate := t\<rparr>) = steady s" "steady (s\<lparr>s_sleepUntil := t\<rparr>) = steady s"
  "steady (s\<lparr>s_nextRequestSweep := t\<rparr>) = steady s" "steady (s\<lparr>s_nextStarveRetry := t\<rparr>) = steady s"
  "steady (s\<lparr>s_askedSeqno := a\<rparr>) = steady s"
  by (simp_all add: steady_def peers_ok_def)

lemma steady_wake [simp]: "steady (wake s) = steady s"
  by (simp add: wake_def)

text \<open>An operation that keeps the invariant, and that leaves the peers, the prefixes of this node and its identity alone.\<close>

definition kept :: "Speaker \<Rightarrow> Speaker \<Rightarrow> bool" where
  "kept s s' \<longleftrightarrow> s_neighbors s' = s_neighbors s \<and> s_fresh s' = s_fresh s \<and> s_originate s' = s_originate s \<and>
     s_routerID s' = s_routerID s \<and> (\<forall>n. nb_peer (s_store s' n) = nb_peer (s_store s n) \<and> nb_peerID (s_store s' n) = nb_peerID (s_store s n))"

definition moves :: "Speaker \<Rightarrow> Speaker \<Rightarrow> bool" where
  "moves s s' \<longleftrightarrow> steady s' \<and> kept s s'"

lemma moves_refl: "steady s \<Longrightarrow> moves s s"
  by (simp add: moves_def kept_def)

lemma moves_trans [trans]: "moves s t \<Longrightarrow> moves t u \<Longrightarrow> moves s u"
  by (simp add: moves_def kept_def)

lemma moves_steady: "moves s t \<Longrightarrow> steady t"
  by (simp add: moves_def)

lemma moves_timers [simp]:
  "moves s (t\<lparr>s_changed := b\<rparr>) = moves s t" "moves s (t\<lparr>s_updatePending := b\<rparr>) = moves s t"
  "moves s (t\<lparr>s_raisedSeqno := b\<rparr>) = moves s t" "moves s (t\<lparr>s_originSeqno := q\<rparr>) = moves s t"
  "moves s (t\<lparr>s_retryAt := x\<rparr>) = moves s t" "moves s (t\<lparr>s_passes := w\<rparr>) = moves s t" "moves s (t\<lparr>s_lostWoke := x\<rparr>) = moves s t"
  "moves s (t\<lparr>s_nextHello := x\<rparr>) = moves s t" "moves s (t\<lparr>s_nextUpdate := x\<rparr>) = moves s t" "moves s (t\<lparr>s_sleepUntil := x\<rparr>) = moves s t"
  "moves s (t\<lparr>s_nextRequestSweep := x\<rparr>) = moves s t" "moves s (t\<lparr>s_nextStarveRetry := x\<rparr>) = moves s t"
  "moves s (t\<lparr>s_askedSeqno := a\<rparr>) = moves s t" "moves s (wake t) = moves s t"
  by (simp_all add: moves_def kept_def wake_def)

lemma foldl_moves:
  assumes "steady s" "\<And>t x. steady t \<Longrightarrow> x \<in> set xs \<Longrightarrow> moves t (f t x)"
  shows "moves s (foldl f s xs)"
  using assms
proof (induction xs arbitrary: s)
  case (Cons x xs)
  have x: "moves s (f s x)" using Cons.prems by simp
  have "moves (f s x) (foldl f (f s x) xs)" by (rule Cons.IH) (use x Cons.prems(2) in \<open>auto dest: moves_steady\<close>)
  then show ?case using moves_trans [OF x] by simp
qed (simp add: moves_refl)

section \<open>Route table and forwarding table\<close>

interpretation foreign: provenance "foreign s" for s
  by unfold_locales (simp add: foreign_def)

lemma key_accepted:
  assumes "key_ok key"
  shows "prefix_ok (rk_source key)" "prefix_ok (rk_dest key)" "Masked (rk_source key) = rk_source key"
    "Masked (rk_dest key) = rk_dest key" "acceptable (rk_source key) (rk_dest key)"
proof -
  have "BitLen (p_ip (rk_source key)) = BitLen (p_ip (rk_dest key))"
    if "Is4 (p_ip (rk_source key)) = Is4 (p_ip (rk_dest key))" "canonical (rk_source key)" "canonical (rk_dest key)"
    using that by (cases "p_ip (rk_source key)"; cases "p_ip (rk_dest key)") (auto simp: p_IsValid_def canonical_def prefix_ok_def)
  then show "prefix_ok (rk_source key)" "prefix_ok (rk_dest key)" "Masked (rk_source key) = rk_source key"
    "Masked (rk_dest key) = rk_dest key" "acceptable (rk_source key) (rk_dest key)"
    using assms by (auto simp: key_ok_def canonical_def acceptable_def)
qed

lemma pair_upd:
  fixes k :: routeKey
  shows "(\<lambda>key. (f((rk_source k, rk_dest k) := x)) (rk_source key, rk_dest key)) = (\<lambda>key. f (rk_source key, rk_dest key))(k := x)"
proof -
  have "rk_source key = rk_source k \<and> rk_dest key = rk_dest k \<longleftrightarrow> key = k" for key :: routeKey by (cases key; cases k) auto
  then show ?thesis by (simp add: fun_eq_iff)
qed

lemma mesh_set:
  assumes "key_ok key" "table_ok (rt_table (s_mesh s))"
  shows "table_ok (rt_table (RouteTable_Set (s_mesh s) (rk_source key) (rk_dest key) p))"
    "meshMap (s\<lparr>s_mesh := RouteTable_Set (s_mesh s) (rk_source key) (rk_dest key) p\<rparr>) = (meshMap s)(key \<mapsto> p)"
  using Set_ok [OF assms(2) key_accepted(1,2) [OF assms(1)], of p] key_accepted [OF assms(1)] pair_upd
  by (simp_all add: RouteTable_Set_def meshMap_def [abs_def])

lemma mesh_remove:
  assumes "key_ok key" "table_ok (rt_table (s_mesh s))"
  shows "table_ok (rt_table (RouteTable_Remove (s_mesh s) (rk_source key) (rk_dest key)))"
    "meshMap (s\<lparr>s_mesh := RouteTable_Remove (s_mesh s) (rk_source key) (rk_dest key)\<rparr>) = (meshMap s)(key := None)"
  using Remove_ok [OF assms(2) key_accepted(1,2) [OF assms(1)]] key_accepted [OF assms(1)] pair_upd
  by (simp_all add: RouteTable_Remove_def meshMap_def [abs_def])

lemma applyEvents:
  assumes "table_ok (rt_table (s_mesh s))" "\<forall>e\<in>set es. key_ok (eventKey e)"
  shows "\<exists>m. foldl applyEvent s es = s\<lparr>s_mesh := m\<rparr> \<and> table_ok (rt_table m) \<and>
    meshMap (s\<lparr>s_mesh := m\<rparr>) = foldl (after (s_store s)) (meshMap s) es"
  using assms
proof (induction es arbitrary: s)
  case Nil
  then show ?case by (intro exI [of _ "s_mesh s"]) simp
next
  case (Cons e es)
  obtain m where m: "applyEvent s e = s\<lparr>s_mesh := m\<rparr>" "table_ok (rt_table m)" "meshMap (s\<lparr>s_mesh := m\<rparr>) = after (s_store s) (meshMap s) e"
    using Cons.prems mesh_set [of "eventKey e" s] mesh_remove [of "eventKey e" s]
    by (cases e) (auto simp: installRoute_def peerOf_def)
  then show ?case using Cons.IH [of "s\<lparr>s_mesh := m\<rparr>"] Cons.prems(2) by auto
qed

lemma after_other: "\<forall>e\<in>set es. eventKey e \<noteq> k \<Longrightarrow> foldl (after nb) m es k = m k"
proof (induction es arbitrary: m)
  case (Cons e es)
  then show ?case by (cases e) auto
qed simp

lemma applyEvents_frame: "kept s (foldl applyEvent s es)"
proof (induction es arbitrary: s)
  case (Cons e es)
  then show ?case by (cases e) (auto simp: kept_def installRoute_def)
qed (simp add: kept_def)

lemma onRoutes_kept: "kept s (onRoutes s f)"
  using applyEvents_frame [of "s\<lparr>s_routes := (f (s_routes s))\<lparr>rt_events := []\<rparr>\<rparr>" "rt_events (f (s_routes s))"]
  by (simp add: onRoutes_def Let_def kept_def)

lemma table_moves:
  fixes mexp op s
  defines "s' \<equiv> onRoutes s (\<lambda>rt. tableStep (s_store s) mexp rt op)"
  assumes "steady s"
    and "case op of Update n key adv hold now \<Rightarrow> key \<in> learnable s \<and> foreign s key n adv | Adopted key \<Rightarrow> False | _ \<Rightarrow> True"
  shows "moves s s'"
proof -
  let ?rt = "tableStep (s_store s) mexp (s_routes s) op"
  let ?m = "foldl (after (s_store s)) (meshMap s) (rt_events ?rt)"
  let ?s = "s\<lparr>s_routes := ?rt\<lparr>rt_events := []\<rparr>\<rparr>"
  have r: "table_ok (rt_table (s_mesh s))" "table_consistent (foreign s) (s_routes s)"
    "tracks (learnable s) {k. key_ok k} (s_store s) (meshMap s) (s_routes s)"
    "\<And>k. k \<in> set (s_originate s) \<Longrightarrow> key_ok k \<and> meshMap s k = Some Unreachable"
    using assms(2) by (simp_all add: steady_def routing_ok_def)
  have t: "tracks (learnable s) {k. key_ok k} (s_store s) (meshMap s) ?rt"
    using r(3) by (rule tableStep_tracks) (use assms(3) in \<open>auto simp: learnable_def split: routeOp.splits\<close>)
  then have e: "\<forall>e\<in>set (rt_events ?rt). eventKey e \<in> learnable s" by (auto simp: tracks_def)
  obtain m where m: "foldl applyEvent ?s (rt_events ?rt) = ?s\<lparr>s_mesh := m\<rparr>" "table_ok (rt_table m)" "meshMap (?s\<lparr>s_mesh := m\<rparr>) = ?m"
    using applyEvents [of ?s "rt_events ?rt"] r(1) e by (auto simp: learnable_def meshMap_def [abs_def])
  then have s': "s' = ?s\<lparr>s_mesh := m\<rparr>" by (simp add: s'_def onRoutes_def Let_def)
  have own: "?m k = Some Unreachable" if "k \<in> set (s_originate s)" for k
  proof -
    have "\<forall>e\<in>set (rt_events ?rt). eventKey e \<noteq> k" using e that by (auto simp: learnable_def)
    then show ?thesis using r(4) [OF that] by (simp add: after_other)
  qed
  have c: "table_consistent (foreign s) ?rt"
    using r(2) by (rule foreign.step_ok) (use assms(3) in \<open>auto split: routeOp.splits\<close>)
  have "tracks (learnable s) {k. key_ok k} (s_store s) ?m (?rt\<lparr>rt_events := []\<rparr>)"
    using t by (auto simp: tracks_def mirrors_def hop_def)
  moreover have "table_consistent (foreign s) (?rt\<lparr>rt_events := []\<rparr>)" by (rule table_consistent_view [OF c]) simp_all
  moreover have "foreign s' = foreign s" "learnable s' = learnable s" by (simp_all add: s' foreign_def [abs_def] learnable_def)
  ultimately have "routing_ok s'" using m(2,3) own r(4) by (simp add: routing_ok_def s')
  then have "steady s'" using assms(2) by (simp add: steady_def s' peers_ok_def)
  then show ?thesis using onRoutes_kept by (simp add: moves_def s'_def)
qed

text \<open>What the announcement of a prefix records.\<close>

lemma observe_moves:
  assumes "steady s" "op = Advertised key p now \<or> op = Originated key rid q p now"
  shows "moves s (s\<lparr>s_routes := tableStep (s_store s) mexp (s_routes s) op\<rparr>)"
proof -
  have "rt_events (tableStep (s_store s) mexp (s_routes s) op) = []"
    using assms by (auto simp: steady_def routing_ok_def observe_tracks Let_def split: option.split)
  then have "onRoutes s (\<lambda>rt. tableStep (s_store s) mexp rt op) = s\<lparr>s_routes := tableStep (s_store s) mexp (s_routes s) op\<rparr>"
    by (simp add: onRoutes_def Let_def)
  then show ?thesis using table_moves [OF assms(1), of op mexp] assms(2) by auto
qed

lemma queues_moves:
  assumes "steady s" "set d \<subseteq> {k. key_ok k}" "sv_key ` set q \<subseteq> {k. key_ok k}"
  shows "moves s (s\<lparr>s_routes := (s_routes s)\<lparr>rt_dirty := d, rt_starved := q\<rparr>\<rparr>)"
proof -
  let ?rt = "(s_routes s)\<lparr>rt_dirty := d, rt_starved := q\<rparr>"
  let ?s = "s\<lparr>s_routes := ?rt\<rparr>"
  have "foreign ?s = foreign s" "learnable ?s = learnable s" "meshMap ?s = meshMap s"
    by (simp_all add: foreign_def [abs_def] learnable_def meshMap_def [abs_def])
  moreover have "table_consistent (foreign s) ?rt"
    by (rule table_consistent_view [of _ "s_routes s"]) (use assms(1) in \<open>simp_all add: steady_def routing_ok_def\<close>)
  moreover have "tracks (learnable s) {k. key_ok k} (s_store s) (meshMap s) ?rt"
  proof -
    have "hop ?rt = hop (s_routes s)" by (simp add: hop_def [abs_def])
    moreover have "rt_events (s_routes s) = []" "tracks (learnable s) {k. key_ok k} (s_store s) (meshMap s) (s_routes s)"
      using assms(1) by (simp_all add: steady_def routing_ok_def)
    ultimately show ?thesis using assms(2,3) by (simp add: tracks_def mirrors_def)
  qed
  ultimately have "routing_ok ?s" using assms(1) by (simp add: steady_def routing_ok_def)
  then show ?thesis using assms(1) by (simp add: moves_def kept_def steady_def peers_ok_def)
qed

lemma steady_queues:
  assumes "steady s"
  shows "set (rt_dirty (s_routes s)) \<subseteq> {k. key_ok k}" "sv_key ` set (rt_starved (s_routes s)) \<subseteq> {k. key_ok k}"
  using assms by (simp_all add: steady_def routing_ok_def tracks_def)

lemma dirty_moves: "steady s \<Longrightarrow> set d \<subseteq> {k. key_ok k} \<Longrightarrow> moves s (s\<lparr>s_routes := (s_routes s)\<lparr>rt_dirty := d\<rparr>\<rparr>)"
  using queues_moves [of s d, OF _ _ steady_queues(2) [of s]] by simp

lemma starved_moves: "steady s \<Longrightarrow> sv_key ` set q \<subseteq> {k. key_ok k} \<Longrightarrow> moves s (s\<lparr>s_routes := (s_routes s)\<lparr>rt_starved := q\<rparr>\<rparr>)"
  using queues_moves [of s _ q, OF _ steady_queues(1) [of s]] by simp

section \<open>Neighbours\<close>

lemma neighbor_moves:
  assumes "steady s" "neighbor_ok (f (s_store s n))" "nb_peer (f (s_store s n)) = nb_peer (s_store s n)"
    and "nb_peerID (f (s_store s n)) = nb_peerID (s_store s n)"
  shows "moves s (onNeighbor s n f)"
proof -
  have "routing_ok (onNeighbor s n f)" using assms(1,3) routing_cong [of "onNeighbor s n f" s] by (simp add: onNeighbor_def steady_def)
  then show ?thesis using assms
    by (simp add: moves_def kept_def steady_def onNeighbor_def peers_ok_def)
qed

lemma steady_keys:
  assumes "steady s"
  shows "neighbor_ok (s_store s n)" "k \<in> set (s_originate s) \<Longrightarrow> key_ok k"
    "map_of (rt_entries (s_routes s)) k = Some e \<Longrightarrow> key_ok k" "k \<in> set (rt_dirty (s_routes s)) \<Longrightarrow> key_ok k"
    "v \<in> set (rt_starved (s_routes s)) \<Longrightarrow> key_ok (sv_key v)"
  using assms by (auto simp: steady_def peers_ok_def routing_ok_def tracks_def learnable_def dest!: map_of_SomeD)


section \<open>Requests\<close>

lemma pending_moves:
  "steady s \<Longrightarrow> pending_ok al m \<Longrightarrow> moves s (s\<lparr>s_pendingByAsker := m, s_pendingSeqno := al\<rparr>)"
  "steady s \<Longrightarrow> pending_ok al m \<Longrightarrow> moves s (s\<lparr>s_pendingSeqno := al, s_pendingByAsker := m\<rparr>)"
  using routing_cong [of "s\<lparr>s_pendingByAsker := m, s_pendingSeqno := al\<rparr>" s] routing_cong [of "s\<lparr>s_pendingSeqno := al, s_pendingByAsker := m\<rparr>" s] by (simp_all add: moves_def kept_def steady_def peers_ok_def)

lemma retries_moves:
  assumes "steady s" "retries_ok al m"
  shows "moves s (s\<lparr>s_starveRetries := al, s_starveBy := m\<rparr>)"
    "moves s (s\<lparr>s_starveRetries := al, s_nextStarveRetry := t, s_starveBy := m\<rparr>)"
  using assms routing_cong [of "s\<lparr>s_starveRetries := al, s_starveBy := m\<rparr>" s]
    routing_cong [of "s\<lparr>s_starveRetries := al, s_nextStarveRetry := t, s_starveBy := m\<rparr>" s]
  by (simp_all add: moves_def kept_def steady_def peers_ok_def)

lemma allow_moves:
  assumes "steady s"
  shows "moves s (snd (allowSeqnoRequest s index seqno asker now))"
proof -
  let ?al = "s_pendingSeqno s" and ?m = "s_pendingByAsker s" and ?v = "\<lparr>pq_seqno = seqno, pq_sentAt = now, pq_asker = asker\<rparr>"
  have p: "ledger pq_asker ?al ?m" "length ?al \<le> maxPendingSeqno" "\<And>p. shares pq_asker ?al p \<le> maxPendingSeqnoPerNeighbor"
    using assms by (auto simp: steady_def pending_ok_def)
  have c: "count_of ?m asker = shares pq_asker ?al asker" using p(1) by (simp add: ledger_def tally_count)
  show ?thesis
  proof (cases "map_of ?al index")
    case None
    have "pending_ok (AList.update index ?v ?al) (count_inc ?m asker)"
      if "\<not> (count_of ?m asker \<ge> maxPendingSeqnoPerNeighbor)" "\<not> length ?al \<ge> maxPendingSeqno"
      using ledger_insert [OF p(1) None, of ?v] that p(3) by (auto simp: pending_ok_def c)
    then show ?thesis using pending_moves [OF assms] moves_refl [OF assms] None
      by (simp add: allowSeqnoRequest_def recordSeqnoRequest_def noteRequestSweep_def Let_def)
  next
    case (Some old)
    have "pending_ok (AList.update index ?v ?al) (count_inc (count_dec ?m (pq_asker old)) asker)"
      if "\<not> (count_of ?m asker \<ge> maxPendingSeqnoPerNeighbor \<and> pq_asker old \<noteq> asker)"
    proof -
      note l = ledger_replace [OF p(1) Some, of ?v]
      have "shares pq_asker (AList.update index ?v ?al) q \<le> maxPendingSeqnoPerNeighbor" for q
        using l(2) [of q] p(3) [of q] that [unfolded c] by (cases "asker = q \<and> pq_asker old \<noteq> q") auto
      then show ?thesis using l p(2) by (simp add: pending_ok_def)
    qed
    then show ?thesis using pending_moves [OF assms] moves_refl [OF assms] Some
      by (auto simp: allowSeqnoRequest_def recordSeqnoRequest_def noteRequestSweep_def releaseSeqnoRequest_def Let_def)
  qed
qed

lemma allow_frame: "s_starveRetries (snd (allowSeqnoRequest s index seqno asker now)) = s_starveRetries s"
  "s_starveRetries (snd (allowAsk s n key rid now)) = s_starveRetries s"
  by (simp_all add: allowSeqnoRequest_def recordSeqnoRequest_def noteRequestSweep_def releaseSeqnoRequest_def allowAsk_def Let_def split: option.split)

lemma allowAsk_moves: "steady s \<Longrightarrow> moves s (snd (allowAsk s n key rid now))"
  by (simp add: allowAsk_def Let_def noteRequestSweep_def moves_refl split: option.split)

lemma sweepPending_moves:
  assumes "steady s" "distinct (map fst l)" "\<forall>(i, p)\<in>set l. map_of (s_pendingSeqno s) i = Some p"
  shows "moves s (foldl (sweepPending now) s l)"
  using assms
proof (induction l arbitrary: s)
  case (Cons x l)
  obtain i p where x: "x = (i, p)" by fastforce
  have m: "map_of (s_pendingSeqno s) i = Some p" using Cons.prems(3) x by simp
  let ?s = "sweepPending now s x"
  have l: "ledger pq_asker (s_pendingSeqno s) (s_pendingByAsker s)" using Cons.prems(1) by (simp add: steady_def pending_ok_def)
  have "pending_ok (AList.delete i (s_pendingSeqno s)) (count_dec (s_pendingByAsker s) (pq_asker p))"
    using Cons.prems(1) ledger_delete [OF l m] by (auto simp: steady_def pending_ok_def)
  from pending_moves(1) [OF Cons.prems(1) this] have s: "moves s ?s"
    using moves_refl [OF Cons.prems(1)] by (simp add: sweepPending_def x releaseSeqnoRequest_def noteRequestSweep_def Let_def)
  have "\<forall>(j, q)\<in>set l. map_of (s_pendingSeqno ?s) j = Some q"
  proof (clarify)
    fix j q assume "(j, q) \<in> set l"
    moreover from this have "j \<noteq> i" using Cons.prems(2) x by (force simp: image_iff)
    ultimately show "map_of (s_pendingSeqno ?s) j = Some q" using Cons.prems(3)
      by (auto simp: sweepPending_def x releaseSeqnoRequest_def noteRequestSweep_def Let_def delete_conv)
  qed
  then have "moves ?s (foldl (sweepPending now) ?s l)" using Cons.IH [of ?s] Cons.prems(2) moves_steady [OF s] by simp
  then show ?case using moves_trans [OF s] by simp
qed (simp add: moves_refl)

lemma sweepRequests_moves:
  assumes "steady s"
  shows "moves s (sweepRequestsLocked s now)"
proof -
  let ?s = "s\<lparr>s_nextRequestSweep := 0\<rparr>"
  let ?t = "foldl (sweepPending now) ?s (s_pendingSeqno s)"
  have "distinct (map fst (s_pendingSeqno s))" using assms by (simp add: steady_def pending_ok_def ledger_def)
  then have "moves ?s ?t" using assms by (intro sweepPending_moves) auto
  then have t: "moves s ?t" using moves_trans [of s ?s ?t] moves_refl [OF assms] by simp
  have "moves ?t (foldl (sweepAsked now) ?t (s_askedSeqno ?t))"
    using moves_steady [OF t] by (rule foldl_moves) (auto simp: sweepAsked_def noteRequestSweep_def moves_refl split: prod.split)
  then show ?thesis using moves_trans [OF t] by (simp add: sweepRequestsLocked_def Let_def)
qed

lemma remember_moves:
  assumes "steady s" "key_ok key"
  shows "moves s (rememberStarved s key rid seqno asker now)"
proof -
  let ?al = "s_starveRetries s" and ?m = "s_starveBy s" and ?i = "(key, rid)"
  have p: "ledger ry_asker ?al ?m" "length ?al \<le> maxStarveRetries" "\<And>p. shares ry_asker ?al p \<le> maxStarveRetriesPerNeighbor"
    "\<forall>(i, e)\<in>set ?al. key_ok (ry_key e) \<and> ry_attempts e \<le> seqnoRequestRetries"
    using assms(1) by (auto simp: steady_def retries_ok_def)
  have d: "distinct (map fst ?al)" and c: "count_of ?m asker = shares ry_asker ?al asker"
    using p(1) by (simp_all add: ledger_def tally_count)
  show ?thesis
  proof (cases "map_of ?al ?i")
    case None
    let ?v = "\<lparr>ry_key = key, ry_routerID = rid, ry_seqno = seqno, ry_attempts = 0, ry_nextAt = now + seqnoRetryInitial, ry_asker = asker\<rparr>"
    have "retries_ok (AList.update ?i ?v ?al) (count_inc ?m asker)"
      if "\<not> length ?al \<ge> maxStarveRetries" "\<not> count_of ?m asker \<ge> maxStarveRetriesPerNeighbor"
      using ledger_insert [OF p(1) None, of ?v] that p(3,4) assms(2) alist_set_update [OF d, of ?i ?v] by (auto simp: retries_ok_def c)
    then show ?thesis using retries_moves [OF assms(1)] moves_refl [OF assms(1)] None by (simp add: rememberStarved_def Let_def)
  next
    case (Some old)
    let ?v = "old\<lparr>ry_seqno := seqno, ry_nextAt := now + seqnoRetryInitial\<rparr>"
    have "(?i, old) \<in> set ?al" using map_of_SomeD [OF Some] .
    then have "retries_ok (AList.update ?i ?v ?al) ?m"
      using ledger_same [OF p(1) Some, of ?v] p(2-4) alist_set_update [OF d, of ?i ?v] by (auto simp: retries_ok_def)
    from retries_moves(1) [OF assms(1) this] show ?thesis using Some by (simp add: rememberStarved_def Let_def)
  qed
qed

lemma forget_moves:
  assumes "steady s" "map_of (s_starveRetries s) i = Some r"
  shows "moves s (forgetStarved s i r)"
proof -
  have l: "ledger ry_asker (s_starveRetries s) (s_starveBy s)" using assms(1) by (simp add: steady_def retries_ok_def)
  have "retries_ok (AList.delete i (s_starveRetries s)) (count_dec (s_starveBy s) (ry_asker r))"
    using assms(1) ledger_delete [OF l assms(2)] by (auto simp: steady_def retries_ok_def AList.delete_eq)
  from retries_moves(1) [OF assms(1) this] show ?thesis by (simp add: forgetStarved_def)
qed

lemma attempt_moves:
  assumes "steady s" "map_of (s_starveRetries s) i = Some r" "ry_attempts r < seqnoRequestRetries"
  shows "moves s (s\<lparr>s_starveRetries := AList.update i (r\<lparr>ry_attempts := ry_attempts r + 1, ry_nextAt := t\<rparr>) (s_starveRetries s)\<rparr>)"
proof -
  let ?v = "r\<lparr>ry_attempts := ry_attempts r + 1, ry_nextAt := t\<rparr>" and ?al = "s_starveRetries s"
  have p: "ledger ry_asker ?al (s_starveBy s)" "retries_ok ?al (s_starveBy s)" using assms(1) by (simp_all add: steady_def retries_ok_def)
  have d: "distinct (map fst ?al)" using p(1) by (simp add: ledger_def)
  have "retries_ok (AList.update i ?v ?al) (s_starveBy s)"
    using ledger_same [OF p(1) assms(2), of ?v] p(2) assms(3) alist_set_update [OF d, of i ?v] map_of_SomeD [OF assms(2)]
    by (auto simp: retries_ok_def)
  from retries_moves(1) [OF assms(1) this] show ?thesis by simp
qed


section \<open>Announcements\<close>

lemma foldOpt_ok:
  assumes "I acc" "\<And>acc x. I acc \<Longrightarrow> x \<in> set xs \<Longrightarrow> \<exists>acc'. f acc x = Some acc' \<and> I acc'"
  shows "\<exists>acc'. foldOpt f acc xs = Some acc' \<and> I acc'"
  using assms
proof (induction xs arbitrary: acc)
  case (Cons x xs)
  obtain acc' where "f acc x = Some acc'" "I acc'" using Cons.prems by auto
  then show ?case using Cons.IH [of acc'] Cons.prems(2) by auto
qed simp

definition undos_ok :: "tlvUndo list \<Rightarrow> bool" where
  "undos_ok us \<longleftrightarrow> (\<forall>u\<in>set us. key_ok (tu_key u))"

definition actions_ok :: "sendAction list \<Rightarrow> bool" where
  "actions_ok as \<longleftrightarrow> (\<forall>a\<in>set as. undos_ok (act_rollback a))"

lemma undos_simps [simp]: "undos_ok []" "undos_ok (xs @ ys) \<longleftrightarrow> undos_ok xs \<and> undos_ok ys" "undos_ok (x # xs) \<longleftrightarrow> key_ok (tu_key x) \<and> undos_ok xs"
  by (auto simp: undos_ok_def)

lemma actions_simps [simp]:
  "actions_ok []" "actions_ok (xs @ ys) \<longleftrightarrow> actions_ok xs \<and> actions_ok ys" "actions_ok (x # xs) \<longleftrightarrow> undos_ok (act_rollback x) \<and> actions_ok xs"
  by (auto simp: actions_ok_def)

lemma neighbor_advertised:
  "neighbor_ok nb \<Longrightarrow> neighbor_ok (nb\<lparr>nb_advertised := removeAll key (nb_advertised nb)\<rparr>)"
  "neighbor_ok nb \<Longrightarrow> key_ok key \<Longrightarrow> neighbor_ok (nb\<lparr>nb_advertised := List.insert key (nb_advertised nb)\<rparr>)"
  "neighbor_ok nb \<Longrightarrow> key_ok key \<Longrightarrow> neighbor_ok (nb\<lparr>nb_owed := List.insert key (nb_owed nb)\<rparr>)"
  "neighbor_ok nb \<Longrightarrow> neighbor_ok (nb\<lparr>nb_owed := []\<rparr>)"
  by (auto simp: neighbor_ok_def)

lemma told_observe:
  assumes "steady s" "adv_metric (toldTo s n key) \<noteq> MetricInfinity"
  shows "\<exists>op. (op = Advertised key p now \<or> op = Originated key (s_routerID s) (s_originSeqno s) p now) \<and>
    observe (s_routes s) key (toldTo s n key) p now = tableStep nb mexp (s_routes s) op"
proof (cases "key \<in> set (s_originate s)")
  case True
  then have "map_of (rt_entries (s_routes s)) key = None"
    using assms(1) by (force simp: steady_def routing_ok_def tracks_def learnable_def map_of_eq_None_iff)
  then show ?thesis using True by (intro exI [of _ "Originated key (s_routerID s) (s_originSeqno s) p now"])
      (simp add: toldTo_def advertisementFor_def)
next
  case False
  then show ?thesis using assms(2)
    by (intro exI [of _ "Advertised key p now"]) (auto simp: toldTo_def advertisementFor_def Let_def split: option.splits if_splits)
qed

lemma advertise_moves:
  assumes "steady s" "key_ok key"
  shows "\<exists>tlvs spent t. advertiseTo s n key force now = Some (tlvs, spent, t) \<and> moves s t"
proof (cases "adv_metric (toldTo s n key) = MetricInfinity")
  case True
  have "moves s (onNeighbor s n (\<lambda>nb. nb\<lparr>nb_advertised := removeAll key (nb_advertised nb)\<rparr>))"
    by (rule neighbor_moves [OF assms(1)]) (simp_all add: neighbor_advertised(1) steady_keys(1) [OF assms(1)])
  then show ?thesis using True updateTLVs_ok [OF assms(2)] moves_refl [OF assms(1)] by (auto simp: advertiseTo_def Let_def)
next
  case False
  let ?t = "s\<lparr>s_routes := observe (s_routes s) key (toldTo s n key) (selectedPeer s key) now\<rparr>"
  obtain op where op: "op = Advertised key (selectedPeer s key) now \<or> op = Originated key (s_routerID s) (s_originSeqno s) (selectedPeer s key) now"
    "observe (s_routes s) key (toldTo s n key) (selectedPeer s key) now = tableStep (s_store s) (\<lambda>_ _. 0) (s_routes s) op"
    using told_observe [OF assms(1) False] by blast
  have t: "moves s ?t" unfolding op(2) by (rule observe_moves [OF assms(1) op(1)])
  have "moves ?t (onNeighbor ?t n (\<lambda>nb. nb\<lparr>nb_advertised := List.insert key (nb_advertised nb)\<rparr>))"
    using moves_steady [OF t] by (rule neighbor_moves) (simp_all add: neighbor_advertised(2) steady_keys(1) [OF assms(1)] assms(2))
  from moves_trans [OF t this] show ?thesis using False updateTLVs_ok [OF assms(2)] by (auto simp: advertiseTo_def Let_def)
qed

lemma dump_moves:
  assumes "steady s" "\<forall>k\<in>set keys. key_ok k"
  shows "\<exists>tlvs rb t. dumpFor s n keys now = Some (tlvs, rb, t) \<and> undos_ok rb \<and> moves s t"
proof -
  have "\<exists>acc. dumpFor s n keys now = Some acc \<and> (case acc of (tlvs, rb, t) \<Rightarrow> undos_ok rb \<and> moves s t)"
    unfolding dumpFor_def
  proof (rule foldOpt_ok)
    fix acc :: "RawTLV list \<times> tlvUndo list \<times> Speaker" and k
    assume a: "case acc of (tlvs, rb, t) \<Rightarrow> undos_ok rb \<and> moves s t" "k \<in> set keys"
    obtain tlvs rb t where acc: "acc = (tlvs, rb, t)" "undos_ok rb" "moves s t" using a(1) by (cases acc) auto
    obtain l b u where u: "advertiseTo t n k False now = Some (l, b, u)" "moves t u"
      using advertise_moves [OF moves_steady [OF acc(3)]] a(2) assms(2) by blast
    show "\<exists>acc'. dumpKey n now acc k = Some acc' \<and> (case acc' of (tlvs, rb, t) \<Rightarrow> undos_ok rb \<and> moves s t)"
      using acc(2) u moves_trans [OF acc(3) u(2)] a(2) assms(2) by (simp add: dumpKey_def acc(1))
  qed (use moves_refl [OF assms(1)] in simp)
  then show ?thesis by auto
qed

text \<open>An operation that answers with actions and does not panic.\<close>

definition replies :: "Speaker \<Rightarrow> (sendAction list \<times> Speaker) option \<Rightarrow> bool" where
  "replies s r \<longleftrightarrow> (\<exists>actions t. r = Some (actions, t) \<and> actions_ok actions \<and> moves s t)"

lemma replies_fold:
  assumes "steady s" "actions_ok actions" "\<And>t as x. moves s t \<Longrightarrow> actions_ok as \<Longrightarrow> x \<in> set xs \<Longrightarrow> replies t (f (as, t) x)"
  shows "replies s (foldOpt f (actions, s) xs)"
proof -
  have "\<exists>acc. foldOpt f (actions, s) xs = Some acc \<and> (case acc of (as, t) \<Rightarrow> actions_ok as \<and> moves s t)"
  proof (rule foldOpt_ok)
    fix acc x assume "case acc of (as, t) \<Rightarrow> actions_ok as \<and> moves s t" "x \<in> set xs"
    then obtain as t where a: "acc = (as, t)" "actions_ok as" "moves s t" "x \<in> set xs" by (cases acc) auto
    then show "\<exists>acc'. f acc x = Some acc' \<and> (case acc' of (as, t) \<Rightarrow> actions_ok as \<and> moves s t)"
      using assms(3) [OF a(3,2,4)] moves_trans [OF a(3)] by (auto simp: replies_def)
  qed (use assms(1,2) moves_refl in simp)
  then show ?thesis by (auto simp: replies_def)
qed

lemma advertisable_ok:
  assumes "steady s"
  shows "\<forall>k\<in>set (advertisableKeys s). key_ok k"
proof -
  have f: "set (foldl (\<lambda>keys key. if key \<in> set keys then keys else keys @ [key]) acc ks) = set acc \<union> set ks" for acc ks :: "routeKey list"
    by (induction ks arbitrary: acc) auto
  show ?thesis using steady_keys [OF assms] assms
    by (auto simp: advertisableKeys_def f neighbor_ok_def steady_def routing_ok_def tracks_def learnable_def)
qed

lemma dumpAction_replies:
  assumes "steady s" "\<forall>k\<in>set keys. key_ok k" "actions_ok actions"
  shows "replies s (Option.bind (dumpFor s n keys now) (\<lambda>(tlvs, rollback, s).
    Some (if tlvs = [] then actions else actions @ [dumpAction n tlvs rollback], s)))"
  using dump_moves [OF assms(1,2), of n now] assms(3) by (auto simp: replies_def dumpAction_def)

lemma clearOwed_moves: "steady s \<Longrightarrow> moves s (clearOwed s x)"
  unfolding clearOwed_def by (rule neighbor_moves) (simp_all add: neighbor_advertised(4) steady_keys(1))

lemma replies_trans: "moves s t \<Longrightarrow> replies t r \<Longrightarrow> replies s r"
  unfolding replies_def using moves_trans by blast

lemma updateActions_replies:
  assumes "steady s"
  shows "replies s (updateActions s now)"
proof -
  let ?t = "s\<lparr>s_routes := snd (takeDirty (s_routes s))\<rparr>"
  let ?u = "foldl clearOwed ?t (s_neighbors s)"
  have t: "moves s ?t" using dirty_moves [OF assms, of "[]"] by (simp add: takeDirty_def)
  have u: "moves ?t ?u" using moves_steady [OF t] by (rule foldl_moves) (rule clearOwed_moves)
  have "replies ?u (updateActionsFor ?u (advertisableKeys s) now)"
  proof (cases "advertisableKeys s = []")
    case True
    then show ?thesis using moves_refl [OF moves_steady [OF u]] by (simp add: updateActionsFor_def replies_def)
  next
    case False
    show ?thesis unfolding updateActionsFor_def if_not_P [OF False]
      using moves_steady [OF u]
      by (rule replies_fold) (auto split: prod.split intro!: dumpAction_replies [OF moves_steady] advertisable_ok [OF assms, rule_format])
  qed
  then show ?thesis using replies_trans [OF moves_trans [OF t u]] by (simp add: updateActions_def Let_def)
qed

lemma oweKey_moves: "steady s \<Longrightarrow> key_ok key \<Longrightarrow> moves s (oweKey s key)"
  unfolding oweKey_def by (rule foldl_moves) (auto intro!: neighbor_moves neighbor_advertised(3) steady_keys(1) split: prod.split)

lemma triggered_replies:
  assumes "steady s"
  shows "replies s (triggeredActions s now)"
proof -
  let ?t = "s\<lparr>s_routes := snd (takeDirty (s_routes s))\<rparr>"
  let ?u = "foldl oweKey ?t (rt_dirty (s_routes s))"
  have t: "moves s ?t" using dirty_moves [OF assms, of "[]"] by (simp add: takeDirty_def)
  have u: "moves ?t ?u" using moves_steady [OF t] by (rule foldl_moves) (auto intro!: oweKey_moves steady_keys(4) [OF assms])
  have "replies v (let keys = nb_owed (s_store v n) in if keys = [] then Some (as, v)
      else Option.bind (dumpFor (clearOwed v (i, n)) n keys now) (\<lambda>(tlvs, rollback, s).
        Some (if tlvs = [] then as else as @ [dumpAction n tlvs rollback], s)))"
    if v: "moves ?u v" and as: "actions_ok as" for v as i n
  proof -
    have k: "\<forall>k\<in>set (nb_owed (s_store v n)). key_ok k" using steady_keys(1) [OF moves_steady [OF v], of n] by (simp add: neighbor_ok_def)
    note c = clearOwed_moves [OF moves_steady [OF v], of "(i, n)"]
    show ?thesis using replies_trans [OF c dumpAction_replies [OF moves_steady [OF c] k as]] moves_refl [OF moves_steady [OF v]] as
      by (simp add: Let_def replies_def)
  qed
  then have "replies ?u (triggeredActions s now)" unfolding triggeredActions_def takeDirty_def Let_def
    using moves_steady [OF u] by (auto simp: takeDirty_def Let_def intro!: replies_fold split: prod.split)
  then show ?thesis by (rule replies_trans [OF moves_trans [OF t u]])
qed


section \<open>Requests of this node\<close>

lemma requestTo_moves:
  assumes "steady s" "key_ok key"
  shows "\<exists>a t. seqnoRequestTo s n key rid seqno now = Some (a, t) \<and> act_rollback a = [] \<and> moves s t \<and>
    s_starveRetries t = s_starveRetries s \<and> s_routes t = s_routes s"
proof -
  let ?t = "snd (allowSeqnoRequest s (key, rid) seqno [] now)"
  obtain a where a: "requestAction ?t n key rid seqno seqnoRequestHopCount = Some a" using requestAction_ok [OF assms(2)] by blast
  moreover have "act_rollback a = []" using a by (auto simp: requestAction_def)
  moreover have "s_routes ?t = s_routes s"
    by (simp add: allowSeqnoRequest_def recordSeqnoRequest_def noteRequestSweep_def releaseSeqnoRequest_def Let_def split: option.split)
  ultimately show ?thesis using allow_moves [OF assms(1)] allow_frame(1) by (simp add: seqnoRequestTo_def Let_def)
qed

lemma ask_frame: "s_routes (snd (allowAsk s n key rid now)) = s_routes s"
  by (simp add: allowAsk_def noteRequestSweep_def Let_def split: option.split)

lemma starvedAction_replies:
  assumes "steady s" "actions_ok actions" "key_ok (sv_key request)"
  shows "replies s (starvedAction now (actions, s) request)"
proof -
  let ?n = "sv_neighbor request" and ?k = "sv_key request" and ?r = "sv_routerID request" and ?p = "nb_peerID (s_store s (sv_neighbor request))"
  obtain allowed t where t: "allowAsk s ?n ?k ?r now = (allowed, t)" by fastforce
  then have m: "moves s t" using allowAsk_moves [OF assms(1), of ?n ?k ?r now] by simp
  obtain a u where u: "seqnoRequestTo t ?n ?k ?r (sv_seqno request) now = Some (a, u)" "act_rollback a = []" "moves t u"
    using requestTo_moves [OF moves_steady [OF m] assms(3)] by blast
  have "moves u (rememberStarved u ?k ?r (sv_seqno request) ?p now)" by (rule remember_moves [OF moves_steady [OF u(3)] assms(3)])
  then have "moves s (rememberStarved u ?k ?r (sv_seqno request) ?p now)" using m u(3) moves_trans by blast
  then show ?thesis using assms(1,2) u t m moves_refl [OF assms(1)] by (simp add: replies_def starvedAction_def Let_def)
qed

lemma starved_replies:
  assumes "steady s"
  shows "replies s (starvedActions s now)"
proof -
  let ?t = "s\<lparr>s_routes := (s_routes s)\<lparr>rt_starved := []\<rparr>\<rparr>"
  have t: "moves s ?t" using starved_moves [OF assms, of "[]"] by simp
  have "replies ?t (foldOpt (starvedAction now) ([], ?t) (rt_starved (s_routes s)))"
    using moves_steady [OF t]
    by (rule replies_fold) (auto intro!: starvedAction_replies moves_steady steady_keys(5) [OF assms])
  then show ?thesis using replies_trans [OF t] by (simp add: starvedActions_def takeStarved_def)
qed

text \<open>What becomes of a repeated request: answered, not due, given up or asked again.\<close>

definition retryAgain :: "Speaker \<Rightarrow> time \<Rightarrow> starveRetry \<Rightarrow> starveRetry option" where
  "retryAgain s now r =
     (if hop (s_routes s) (ry_key r) \<noteq> None then None
      else if now < ry_nextAt r then Some r
      else if ry_attempts r \<ge> seqnoRequestRetries then None
      else Some (r\<lparr>ry_attempts := ry_attempts r + 1, ry_nextAt := now + seqnoRetryInitial * 2 ^ ry_attempts r\<rparr>))"

definition retried :: "Speaker \<Rightarrow> (sourceKey \<times> starveRetry) list \<Rightarrow> (sendAction list \<times> Speaker) option \<Rightarrow> bool" where
  "retried s al r \<longleftrightarrow> (\<exists>actions t. r = Some (actions, t) \<and> actions_ok actions \<and> moves s t \<and> s_starveRetries t = al \<and> s_routes t = s_routes s)"

lemma retryNeighbor_retried:
  assumes "steady s" "actions_ok actions" "key_ok (ry_key r)"
  shows "retried s (s_starveRetries s) (retryNeighbor now r (actions, s) x)"
proof -
  let ?n = "snd x"
  obtain allowed t where t: "allowAsk s ?n (ry_key r) (ry_routerID r) now = (allowed, t)" by fastforce
  have m: "moves s t" "s_starveRetries t = s_starveRetries s" "s_routes t = s_routes s"
    using t allowAsk_moves [OF assms(1), of ?n "ry_key r" "ry_routerID r" now] ask_frame [of s ?n "ry_key r" "ry_routerID r" now]
      allow_frame(2) [of s ?n "ry_key r" "ry_routerID r" now] by simp_all
  obtain a u where u: "seqnoRequestTo t ?n (ry_key r) (ry_routerID r) (ry_seqno r) now = Some (a, u)" "act_rollback a = []" "moves t u"
    "s_starveRetries u = s_starveRetries s" "s_routes u = s_routes s"
    using requestTo_moves [OF moves_steady [OF m(1)] assms(3)] m by metis
  then show ?thesis using assms moves_trans [OF m(1) u(3)] t m moves_refl [OF assms(1)]
    by (simp add: retried_def retryNeighbor_def Let_def)
qed

lemma retryOne_retried:
  assumes "steady s" "actions_ok actions" "map_of (s_starveRetries s) i = Some r"
  shows "retried s (case retryAgain s now r of None \<Rightarrow> AList.delete i (s_starveRetries s) | Some r' \<Rightarrow> AList.update i r' (s_starveRetries s))
    (retryOne now (actions, s) (i, r))"
proof -
  have sel: "(case map_of (rt_entries (s_routes s)) (ry_key r) of Some e \<Rightarrow> sel_neighbor (ke_selected e) \<noteq> None | None \<Rightarrow> False) \<longleftrightarrow>
      hop (s_routes s) (ry_key r) \<noteq> None" by (simp add: hop_def split: option.split)
  have same: "AList.update i r (s_starveRetries s) = s_starveRetries s"
    using alist_split [of "s_starveRetries s" i r] assms(1,3) by (auto simp: steady_def retries_ok_def ledger_def)
  note fm = forget_moves [OF assms(1,3)]
  show ?thesis
  proof (cases "hop (s_routes s) (ry_key r) \<noteq> None \<or> now < ry_nextAt r \<or> seqnoRequestRetries \<le> ry_attempts r")
    case True
    then show ?thesis using fm same moves_refl [OF assms(1)] assms(2)
      by (auto simp: retried_def retryOne_def Let_def sel retryAgain_def forgetStarved_def)
  next
    case False
    let ?r = "r\<lparr>ry_attempts := ry_attempts r + 1, ry_nextAt := now + seqnoRetryInitial * 2 ^ ry_attempts r\<rparr>"
    let ?t = "s\<lparr>s_starveRetries := AList.update i ?r (s_starveRetries s), s_nextStarveRetry := earlier (s_nextStarveRetry s) (ry_nextAt ?r)\<rparr>"
    have t: "moves s ?t" using attempt_moves [OF assms(1,3)] False by simp
    have k: "key_ok (ry_key ?r)" using assms(1) map_of_SomeD [OF assms(3)] by (auto simp: steady_def retries_ok_def)
    let ?I = "\<lambda>(as, u). actions_ok as \<and> moves s u \<and> s_starveRetries u = s_starveRetries ?t \<and> s_routes u = s_routes s"
    have "\<exists>acc. foldOpt (retryNeighbor now ?r) (actions, ?t) (s_neighbors s) = Some acc \<and> ?I acc"
    proof (rule foldOpt_ok)
      fix acc x assume "?I acc"
      then obtain as u where a: "acc = (as, u)" "actions_ok as" "moves s u" "s_starveRetries u = s_starveRetries ?t" "s_routes u = s_routes s"
        by (cases acc) auto
      then show "\<exists>acc'. retryNeighbor now ?r acc x = Some acc' \<and> ?I acc'"
        using retryNeighbor_retried [OF moves_steady [OF a(3)] a(2) k, of now x] moves_trans [OF a(3)] by (auto simp: retried_def)
    qed (use assms(2) t in simp)
    then show ?thesis using False by (auto simp: retried_def retryOne_def Let_def sel retryAgain_def)
  qed
qed

lemma retryLoop_retried:
  assumes "steady s" "actions_ok actions" "distinct (map fst l)" "\<forall>(i, r)\<in>set l. map_of (s_starveRetries s) i = Some r"
  shows "\<exists>as t. foldOpt (retryOne now) (actions, s) l = Some (as, t) \<and> actions_ok as \<and> moves s t \<and> s_routes t = s_routes s \<and>
    (\<forall>i. map_of (s_starveRetries t) i =
      (if i \<in> fst ` set l then Option.bind (map_of (s_starveRetries s) i) (retryAgain s now) else map_of (s_starveRetries s) i))"
  using assms
proof (induction l arbitrary: s actions)
  case (Cons x l)
  obtain i r where x: "x = (i, r)" by fastforce
  have m: "map_of (s_starveRetries s) i = Some r" using Cons.prems(4) x by simp
  obtain as t where t: "retryOne now (actions, s) x = Some (as, t)" "actions_ok as" "moves s t" "s_routes t = s_routes s"
    "s_starveRetries t = (case retryAgain s now r of None \<Rightarrow> AList.delete i (s_starveRetries s) | Some r' \<Rightarrow> AList.update i r' (s_starveRetries s))"
    using retryOne_retried [OF Cons.prems(1,2) m, of now] by (auto simp: retried_def x)
  have mt: "map_of (s_starveRetries t) j = (if j = i then retryAgain s now r else map_of (s_starveRetries s) j)" for j
    by (simp add: t(5) delete_conv update_conv split: option.split)
  have ni: "i \<notin> fst ` set l" using Cons.prems(3) x by simp
  have again: "retryAgain t now = retryAgain s now" using t(4) by (simp add: retryAgain_def fun_eq_iff)
  have "\<forall>(j, q)\<in>set l. map_of (s_starveRetries t) j = Some q" using Cons.prems(4) ni by (force simp: mt)
  then obtain as' u where u: "foldOpt (retryOne now) (as, t) l = Some (as', u)" "actions_ok as'" "moves t u" "s_routes u = s_routes t"
    "\<forall>j. map_of (s_starveRetries u) j = (if j \<in> fst ` set l then Option.bind (map_of (s_starveRetries t) j) (retryAgain t now) else map_of (s_starveRetries t) j)"
    using Cons.IH [OF moves_steady [OF t(3)] t(2)] Cons.prems(3) by fastforce
  show ?case using t(1,4) u(1,2,4,5) moves_trans [OF t(3) u(3)] ni m by (auto simp: x mt again)
qed (simp add: moves_refl)

lemma retry_exact:
  assumes "steady s"
  shows "\<exists>as t. retryStarvedLocked s now = Some (as, t) \<and> actions_ok as \<and> moves s t \<and> s_routes t = s_routes s \<and>
    (\<forall>i. map_of (s_starveRetries t) i = Option.bind (map_of (s_starveRetries s) i) (retryAgain s now))"
proof -
  let ?s = "s\<lparr>s_nextStarveRetry := 0\<rparr>"
  have d: "distinct (map fst (s_starveRetries s))" using assms by (simp add: steady_def retries_ok_def ledger_def)
  obtain as t where t: "foldOpt (retryOne now) ([], ?s) (s_starveRetries s) = Some (as, t)" "actions_ok as" "moves ?s t" "s_routes t = s_routes ?s"
    "\<forall>i. map_of (s_starveRetries t) i =
      (if i \<in> fst ` set (s_starveRetries s) then Option.bind (map_of (s_starveRetries ?s) i) (retryAgain ?s now) else map_of (s_starveRetries ?s) i)"
    using retryLoop_retried [of ?s "[]" "s_starveRetries s" now] assms d by auto
  have "moves s ?s" using assms by (simp add: moves_refl)
  then have "moves s t" using t(3) by (rule moves_trans)
  moreover have "retryAgain ?s now = retryAgain s now" by (simp add: retryAgain_def fun_eq_iff)
  moreover have "map_of (s_starveRetries s) i = None" if "i \<notin> fst ` set (s_starveRetries s)" for i using that by (simp add: map_of_eq_None_iff)
  ultimately show ?thesis using t(1,2,4,5) by (simp add: retryStarvedLocked_def)
qed


section \<open>Emission\<close>

lemma neighbor_same_moves:
  assumes "steady s"
    and "nb_advertised (f (s_store s n)) = nb_advertised (s_store s n) \<and> nb_owed (f (s_store s n)) = nb_owed (s_store s n) \<and>
      nb_peer (f (s_store s n)) = nb_peer (s_store s n) \<and> nb_peerID (f (s_store s n)) = nb_peerID (s_store s n)"
  shows "moves s (onNeighbor s n f)"
  using assms steady_keys(1) [OF assms(1), of n] by (intro neighbor_moves) (simp_all add: neighbor_ok_def)

lemma oweAgain_moves:
  assumes "steady s" "key_ok (tu_key undo)"
  shows "moves s (oweAgain s n undo)"
proof -
  let ?t = "if tu_spent undo then onNeighbor s n (\<lambda>nb. nb\<lparr>nb_advertised := List.insert (tu_key undo) (nb_advertised nb)\<rparr>) else s"
  have t: "moves s ?t" using assms by (auto intro!: neighbor_moves neighbor_advertised(2) steady_keys(1) moves_refl)
  have "moves ?t (onNeighbor ?t n (\<lambda>nb. nb\<lparr>nb_owed := List.insert (tu_key undo) (nb_owed nb)\<rparr>))"
    using moves_steady [OF t] by (intro neighbor_moves) (simp_all only: neighbor_advertised(3) steady_keys(1) assms(2), simp_all)
  then show ?thesis using t moves_trans [OF t] by (simp add: oweAgain_def Let_def)
qed

lemma oweAll_moves: "steady s \<Longrightarrow> undos_ok us \<Longrightarrow> moves s (foldl (\<lambda>s undo. oweAgain s n undo) s us)"
  by (rule foldl_moves) (auto simp: undos_ok_def intro: oweAgain_moves)

lemma giveHelloBack_moves: "steady s \<Longrightarrow> moves s (giveHelloBack s n)"
  unfolding giveHelloBack_def by (rule neighbor_same_moves) simp_all

lemma reserve_undos:
  "undos_ok pending \<Longrightarrow> reservePieces ll env k action pending pieces = (reserved, lost, whole, k') \<Longrightarrow>
    undos_ok lost \<and> (\<forall>p\<in>set reserved. undos_ok (rp_undo p))"
proof (induction pieces arbitrary: pending k reserved lost whole k')
  case (Cons x pieces)
  obtain batch lo hi where x: "x = (batch, lo, hi)" by (cases x)
  obtain undo rest where u: "takeUndos pending lo hi = (undo, rest)" by fastforce
  have "undos_ok undo" "undos_ok rest" using u Cons.prems(1)
    by (auto simp: takeUndos_def Let_def undos_ok_def dest!: set_takeWhileD set_dropWhileD)
  moreover obtain r l w j where r: "reservePieces ll env (k + 1) action rest pieces = (r, l, w, j)" by (metis prod_cases4)
  ultimately show ?case using Cons.IH [OF _ r] Cons.prems(2) u r by (auto simp: x split: option.splits)
qed simp

lemma mergeInto_ok: "actions_ok [a] \<Longrightarrow> actions_ok ms \<Longrightarrow> actions_ok (mergeInto a ms)"
  by (induction ms) (auto simp: mergeAction_def Let_def undos_ok_def)

lemma coalesce_ok:
  assumes "actions_ok actions"
  shows "actions_ok (sort_key f (coalesce actions))"
proof -
  have "actions_ok (foldl (\<lambda>merged a. if act_tlvs a = [] then merged else mergeInto a merged) ms actions)" if "actions_ok ms" for ms
    using that assms by (induction actions arbitrary: ms) (auto simp: mergeInto_ok)
  from this [of "[]"] have "actions_ok (coalesce actions)" using assms by (simp add: coalesce_def)
  then show ?thesis by (simp add: actions_ok_def)
qed

text \<open>What is queued carries undos the encoders accept, so the loss of a packet is safe as well.\<close>

lemma emit_moves:
  assumes "steady s" "actions_ok actions"
  shows "moves s (fst (emitLocked env s actions now))"
    "\<forall>p\<in>set (snd (emitLocked env s actions now)). undos_ok (rp_undo p)"
proof -
  let ?as = "sort_key (\<lambda>a. priorityValue (act_priority a)) (coalesce actions)"
  let ?I = "\<lambda>(t, ps, r, k). moves s t \<and> (\<forall>p\<in>set ps. undos_ok (rp_undo p))"
  have step: "?I (emitAction env acc a)" if i: "?I acc" and a: "undos_ok (act_rollback a)" for acc a
  proof -
    obtain t ps r k where acc: "acc = (t, ps, r, k)" "moves s t" "\<forall>p\<in>set ps. undos_ok (rp_undo p)" using i by (cases acc) auto
    obtain res lost whole k' where b: "reserveBatchesTo (s_linkLocal t) (s_packetSize t) env k a = (res, lost, whole, k')" by (metis prod_cases4)
    have l: "undos_ok lost" "\<forall>p\<in>set res. undos_ok (rp_undo p)" using reserve_undos [OF a] b by (auto simp: reserveBatchesTo_def)
    let ?u = "foldl (\<lambda>s undo. oweAgain s (act_neighbor a) undo) t lost"
    have u: "moves s ?u" using moves_trans [OF acc(2) oweAll_moves [OF moves_steady [OF acc(2)] l(1)]] .
    have "moves ?u (foldl giveHelloBack ?u (act_whenRefused a))" by (rule foldl_moves [OF moves_steady [OF u]]) (rule giveHelloBack_moves)
    then show ?thesis using moves_trans [OF u] u l(2) acc(3) b by (auto simp: emitAction_def acc(1) Let_def)
  qed
  have "?I (foldl (emitAction env) acc xs)" if "?I acc" "actions_ok xs" for acc xs
    using that by (induction xs arbitrary: acc) (simp, simp only: foldl_Cons actions_simps step)
  from this [OF _ coalesce_ok [OF assms(2)], of "(s, [], False, 0)" "\<lambda>a. priorityValue (act_priority a)"]
  have "?I (foldl (emitAction env) (s, [], False, 0) ?as)" using moves_refl [OF assms(1)] by simp
  then show "moves s (fst (emitLocked env s actions now))" "\<forall>p\<in>set (snd (emitLocked env s actions now)). undos_ok (rp_undo p)"
    by (auto simp: emitLocked_def Let_def noteSendRetryLocked_def split: prod.splits)
qed

lemma lost_moves:
  assumes "steady s" "\<forall>l\<in>set ls. key_ok (tu_key (lu_undo l))"
  shows "moves s (s\<lparr>s_lost := ls\<rparr>)"
  using assms by (simp add: moves_def kept_def steady_def peers_ok_def)

lemma noteLost_moves:
  assumes "steady s" "undos_ok undo"
  shows "moves s (noteLost s n undo now)"
proof -
  have "\<forall>l\<in>set (s_lost s). key_ok (tu_key (lu_undo l))" using assms(1) by (simp add: steady_def peers_ok_def)
  then have "moves s (s\<lparr>s_lost := s_lost s @ map (\<lambda>u. \<lparr>lu_neighbor = n, lu_undo = u\<rparr>) undo\<rparr>)"
    using assms(2) by (intro lost_moves [OF assms(1)]) (auto simp: undos_ok_def)
  then show ?thesis using moves_refl [OF assms(1)] by (simp add: noteLost_def Let_def)
qed

lemma applyLost_moves:
  assumes "steady s"
  shows "moves s (applyLostLocked s)"
proof -
  have l: "\<forall>l\<in>set (s_lost s). key_ok (tu_key (lu_undo l))" using assms by (simp add: steady_def peers_ok_def)
  have t: "moves s (s\<lparr>s_lost := []\<rparr>)" by (rule lost_moves [OF assms]) simp
  have "moves (s\<lparr>s_lost := []\<rparr>) (foldl (\<lambda>s l. oweAgain s (lu_neighbor l) (lu_undo l)) (s\<lparr>s_lost := []\<rparr>) (s_lost s))"
    using moves_steady [OF t] by (rule foldl_moves) (auto intro: oweAgain_moves simp: l)
  then show ?thesis using moves_trans [OF t] by (simp add: applyLostLocked_def)
qed

lemma hellos_moves:
  assumes "steady s"
  shows "\<exists>as t. helloActions s due now = (as, t) \<and> actions_ok as \<and> moves s t"
proof -
  let ?f = "\<lambda>(actions, s) (_, n). if due \<or> \<not> nb_sentHello (s_store s n) then let (a, s) = helloAction s n now in (actions @ [a], s) else (actions, s)"
  have "case foldl ?f acc xs of (as, t) \<Rightarrow> actions_ok as \<and> moves s t" if "case acc of (as, t) \<Rightarrow> actions_ok as \<and> moves s t" for acc and xs :: "(string \<times> nat) list"
    using that
  proof (induction xs arbitrary: acc)
    case (Cons x xs)
    obtain as t where acc: "acc = (as, t)" "actions_ok as" "moves s t" using Cons.prems by (cases acc) auto
    obtain i n where x: "x = (i, n)" by fastforce
    have "moves t (onNeighbor t n (\<lambda>nb. nb\<lparr>nb_sentHello := True, nb_helloSeqno := nb_helloSeqno nb + 1\<rparr>))"
      by (rule neighbor_same_moves [OF moves_steady [OF acc(3)]]) simp
    then have "case ?f acc x of (as, t) \<Rightarrow> actions_ok as \<and> moves s t"
      using acc(2,3) moves_trans [OF acc(3)] by (simp add: acc(1) x helloAction_def Let_def)
    then show ?case using Cons.IH [of "?f acc x"] by simp
  qed simp
  from this [of "([], s)" "s_neighbors s"] show ?thesis using moves_refl [OF assms] by (auto simp: helloActions_def split: prod.splits)
qed

end
