(* ===== verification/Babel_Runs.thy ===== *)
theory Babel_Runs
  imports Babel_Machine
begin

text \<open>
  The operations of the speaker that its callers run, a packet, a pass of the loop, the peers and the configuration, and
  the reachable states they make. None of them panics on a reachable state.
\<close>

section \<open>Reception\<close>

lemma handleHello_moves: "steady s \<Longrightarrow> moves s (fst (handleHello s n h ts now))"
  unfolding handleHello_def by (auto simp: Let_def intro!: moves_refl neighbor_same_moves split: prod.split)

lemma handleIHU_moves: "steady s \<Longrightarrow> moves s (fst (handleIHU s n ihu rx ts hts now))"
  unfolding handleIHU_def by (auto simp: Let_def intro!: moves_refl neighbor_same_moves split: prod.split option.split)

lemma received_key:
  assumes "Decode d body = (Inr u, d')" "dest = Masked (PrefixFrom a (u_Plen u))" "p_IsValid dest"
    and "\<not> (p_IsValid (u_SourcePrefix u) \<and> Is4 (p_ip (u_SourcePrefix u)) \<noteq> Is4 (p_ip dest))"
  shows "key_ok \<lparr>rk_source = u_SourcePrefix u, rk_dest = dest\<rparr>"
proof -
  obtain ae where "source_ok ae (u_SourcePrefix u)" using Decode_source [OF assms(1)] by blast
  moreover have "canonical dest" using canonical_masked [of "PrefixFrom a (u_Plen u)"] assms(2,3) by simp
  ultimately show ?thesis using source_key assms(4) by blast
qed

lemma handleUpdate_moves:
  assumes "steady (pk_speaker pk)" "n < s_fresh (pk_speaker pk)"
  shows "moves (pk_speaker pk) (pk_speaker (handleUpdate mexp n now pk body)) \<and> pk_actions (handleUpdate mexp n now pk body) = pk_actions pk"
proof -
  let ?s = "pk_speaker pk"
  have up: "moves ?s (onRoutes ?s (\<lambda>rt. rt_update (s_store ?s) mexp rt n key adv hold now))"
    if "key_ok key" "key \<notin> set (s_originate ?s)" "adv_metric adv = MetricInfinity \<or> adv_routerID adv \<noteq> s_routerID ?s" for key adv hold
    using table_moves [OF assms(1), of "Update n key adv hold now" mexp] that assms(2) by (simp add: learnable_def foreign_def)
  have re: "moves ?s (onRoutes ?s (\<lambda>rt. retractNeighbor (s_store ?s) mexp rt n now))"
    using table_moves [OF assms(1), of "Retract n now" mexp] by simp
  note r = moves_refl [OF assms(1)]
  obtain decoded dec where d: "Decode (pk_prefixDec pk) body = (decoded, dec)" by fastforce
  show ?thesis
  proof (cases decoded)
    case (Inl e)
    then show ?thesis using r d by (simp add: handleUpdate_def)
  next
    case (Inr u)
    note k = received_key [OF d [unfolded Inr] refl]
    show ?thesis unfolding handleUpdate_def d prod.case Let_def Inr sum.case
      using r re by (auto intro!: up k split: option.splits)
  qed
qed


lemma answer_replies:
  assumes "steady s" "key_ok key"
  shows "replies s (answer s n key now)"
proof -
  obtain tlvs spent t where t: "advertiseTo s n key True now = Some (tlvs, spent, t)" "moves s t"
    using advertise_moves [OF assms, of n True now] by blast
  have "answer s n key now = Some (sendTLVs t n key tlvs spent, t)" "actions_ok (sendTLVs t n key tlvs spent)"
    using t(1) assms(2) by (simp_all add: answer_def sendTLVs_def)
  then show ?thesis using t(2) by (simp add: replies_def)
qed

lemma routeReply_replies:
  assumes "steady s" "DecodeRouteRequest body = Inr request"
  shows "replies s (routeReply s n request now)"
proof (cases "rr_AE request = AEWildcard")
  case True
  let ?t = "onNeighbor s n (\<lambda>nb. nb\<lparr>nb_lastFullDump := now\<rparr>)"
  have t: "moves s ?t" by (rule neighbor_same_moves [OF assms(1)]) simp
  obtain tlvs rb u where "dumpFor ?t n (advertisableKeys ?t) now = Some (tlvs, rb, u)" "undos_ok rb" "moves ?t u"
    using dump_moves [OF moves_steady [OF t] advertisable_ok [OF moves_steady [OF t]]] by blast
  then show ?thesis using True moves_trans [OF t] moves_refl [OF assms(1)] by (simp add: replies_def routeReply_def Let_def)
next
  case False
  obtain raw where "decodeRequestPrefix (rr_AE request) raw (drop 2 body) = Inr (rr_Prefix request, rr_SourcePrefix request)"
    using assms(2) by (auto simp: DecodeRouteRequest_def split: if_splits sum.splits)
  moreover from this have "p_IsValid (rr_Prefix request)" using False by (auto simp: decodeRequestPrefix_def Let_def split: if_splits sum.splits)
  ultimately show ?thesis using False answer_replies [OF assms(1) decodeRequestPrefix_key] by (simp add: routeReply_def)
qed

lemma raise_moves:
  assumes "steady s"
  shows "moves s (raiseSeqno s)"
proof -
  have "set (foldl (\<lambda>dirty key. List.insert key dirty) d ks) = set d \<union> set ks" for d ks :: "routeKey list"
    by (induction ks arbitrary: d) auto
  then have "set (foldl (\<lambda>dirty key. List.insert key dirty) (rt_dirty (s_routes s)) (s_originate s)) \<subseteq> {k. key_ok k}"
    using steady_keys(2,4) [OF assms] by auto
  from dirty_moves [OF _ this, of "s\<lparr>s_raisedSeqno := True, s_originSeqno := s_originSeqno s + 1\<rparr>"] assms
  show ?thesis using moves_trans [of s "s\<lparr>s_raisedSeqno := True, s_originSeqno := s_originSeqno s + 1\<rparr>"] moves_refl [OF assms]
    by (simp add: raiseSeqno_def)
qed

lemma requestForward_replies:
  assumes "steady s" "key_ok key"
  shows "replies s (map_option (\<lambda>(action, s). (case action of Some a \<Rightarrow> [a] | None \<Rightarrow> [], s))
    (seqnoRequestAction s n asker key rid seqno hops now))"
proof -
  obtain allowed t where t: "allowSeqnoRequest s (key, rid) seqno asker now = (allowed, t)" by fastforce
  then have m: "moves s t" using allow_moves [OF assms(1), of "(key, rid)" seqno asker now] by simp
  obtain a where a: "requestAction t n key rid seqno hops = Some a" using requestAction_ok [OF assms(2)] by blast
  then have "act_rollback a = []" by (auto simp: requestAction_def)
  then show ?thesis using m a by (simp add: replies_def seqnoRequestAction_def Let_def t)
qed

lemma seqnoReply_replies:
  assumes "steady s" "DecodeSeqnoRequest body = Inr request"
  shows "replies s (seqnoReply s n request now)"
proof -
  let ?key = "\<lparr>rk_source = sr_SourcePrefix request, rk_dest = sr_Prefix request\<rparr>"
  have k: "key_ok ?key" using assms(2) decodeRequestPrefix_key
    by (auto simp: DecodeSeqnoRequest_def split: if_splits sum.splits)
  note m = raise_moves [OF assms(1)]
  have "replies s (answer (raiseSeqno s) n ?key now)" by (rule replies_trans [OF m answer_replies [OF moves_steady [OF m] k]])
  moreover have "replies s (answer s n ?key now)" by (rule answer_replies [OF assms(1) k])
  moreover have "replies s (Some ([], s))" using moves_refl [OF assms(1)] by (simp add: replies_def)
  moreover note requestForward_replies [OF assms(1) k]
  ultimately show ?thesis by (auto simp: seqnoReply_def Let_def split: option.split)
qed

definition packet_ok :: "Speaker \<Rightarrow> packetState \<Rightarrow> bool" where
  "packet_ok s pk \<longleftrightarrow> moves s (pk_speaker pk) \<and> actions_ok (pk_actions pk)"

lemma withReply_ok:
  assumes "packet_ok s pk" "replies (pk_speaker pk) r"
  shows "\<exists>pk'. withReply pk r = Some pk' \<and> packet_ok s pk'"
  using assms moves_trans by (auto simp: withReply_def replies_def packet_ok_def)

lemma handleTLV_ok:
  assumes "packet_ok s pk" "n < s_fresh s"
  shows "\<exists>pk'. handleTLV mexp n ts hts now pk t = Some pk' \<and> packet_ok s pk'"
proof -
  let ?s = "pk_speaker pk"
  have st: "steady ?s" "moves s ?s" "n < s_fresh ?s" using assms by (auto simp: packet_ok_def moves_def kept_def)
  have link: "packet_ok s (withLink pk x)" if "moves ?s (fst x)" for x
    using assms(1) moves_trans [OF st(2) that] by (simp add: packet_ok_def withLink_def)
  have "packet_ok s (handleUpdate mexp n now pk (tlv_Body t))"
    using handleUpdate_moves [OF st(1,3), of mexp now "tlv_Body t"] moves_trans [OF st(2)] assms(1) by (simp add: packet_ok_def)
  moreover have "packet_ok s (pk\<lparr>pk_haveIPv4NextHop := b\<rparr>)" "packet_ok s (pk\<lparr>pk_routerID := r\<rparr>)" for b r
    using assms(1) by (simp_all add: packet_ok_def)
  moreover have "packet_ok s (pk\<lparr>pk_actions := pk_actions pk @ [\<lparr>act_neighbor = n, act_dest = d, act_priority = p, act_tlvs = l,
      act_rollback = [], act_whenRefused = []\<rparr>]\<rparr>)" for d p l using assms(1) by (simp add: packet_ok_def)
  moreover have e: "\<exists>x. (if c then f else g) = Some x \<and> packet_ok s x"
    if "c \<Longrightarrow> \<exists>x. f = Some x \<and> packet_ok s x" "\<not> c \<Longrightarrow> \<exists>x. g = Some x \<and> packet_ok s x" for c f g using that by auto
  moreover have c: "\<exists>x. (case d of Inl _ \<Rightarrow> Some pk | Inr v \<Rightarrow> f v) = Some x \<and> packet_ok s x"
    if "\<And>v. d = Inr v \<Longrightarrow> \<exists>x. f v = Some x \<and> packet_ok s x" for d :: "tlv_error + 'x" and f using that assms(1) by (cases d) auto
  ultimately show ?thesis using assms(1) unfolding handleTLV_def Let_def
    by (intro e c) (auto intro!: link handleHello_moves handleIHU_moves st(1) withReply_ok routeReply_replies seqnoReply_replies)
qed

lemma handlePacket_replies:
  assumes "steady s" "n < s_fresh s"
  shows "replies s (handlePacketLocked mexp s n raw now)"
proof (cases "DecodePacket raw")
  case (Inl e)
  then show ?thesis using moves_refl [OF assms(1)] by (simp add: handlePacketLocked_def replies_def)
next
  case (Inr tlvs)
  let ?pk = "\<lparr>pk_speaker = s\<lparr>s_raisedSeqno := False\<rparr>, pk_actions = [], pk_prefixDec = newPrefixDecoder, pk_routerID = None,
    pk_haveIPv4NextHop = False, pk_linkChanged = False\<rparr>"
  have "\<exists>pk. foldOpt (handleTLV mexp n (unixMicro now) (helloTimestamp tlvs) now) ?pk tlvs = Some pk \<and> packet_ok s pk"
    by (rule foldOpt_ok) (use moves_refl [OF assms(1)] in \<open>simp add: packet_ok_def\<close>, rule handleTLV_ok [OF _ assms(2)])
  then obtain pk where pk: "foldOpt (handleTLV mexp n (unixMicro now) (helloTimestamp tlvs) now) ?pk tlvs = Some pk" "packet_ok s pk" by blast
  let ?t = "if pk_linkChanged pk then onRoutes (pk_speaker pk) (\<lambda>rt. recomputeNeighbor (s_store (pk_speaker pk)) mexp rt n now) else pk_speaker pk"
  have p: "moves s (pk_speaker pk)" "actions_ok (pk_actions pk)" using pk(2) by (simp_all add: packet_ok_def)
  have "moves (pk_speaker pk) (onRoutes (pk_speaker pk) (\<lambda>rt. recomputeNeighbor (s_store (pk_speaker pk)) mexp rt n now))"
    using table_moves [OF moves_steady [OF p(1)], of "Recompute n now" mexp] by simp
  then have t: "moves s ?t" using p(1) moves_trans by auto
  obtain as u where u: "starvedActions ?t now = Some (as, u)" "actions_ok as" "moves ?t u"
    using starved_replies [OF moves_steady [OF t], of now] by (auto simp: replies_def)
  have "handlePacketLocked mexp s n raw now = Some (pk_actions pk @ as, u)"
    using u(1) by (simp add: handlePacketLocked_def Inr pk(1) Let_def)
  then show ?thesis using moves_trans [OF t u(3)] p(2) u(2) by (simp add: replies_def)
qed

text \<open>An operation that returns, keeps the invariant and queues packets whose loss can be undone.\<close>

definition queues :: "Speaker \<Rightarrow> Speaker \<times> reservedPacket list \<Rightarrow> bool" where
  "queues s r \<longleftrightarrow> moves s (fst r) \<and> (\<forall>p\<in>set (snd r). undos_ok (rp_undo p))"

lemma Receive_queues:
  assumes "steady s"
  shows "\<exists>handled r. Receive mexp env s peer ident raw now sentAt = Some (handled, r) \<and> queues s r"
proof -
  note r = moves_refl [OF assms]
  have "\<exists>handled r. Option.bind (handlePacketLocked mexp (onNeighbor s n (\<lambda>nb. nb\<lparr>nb_addr := src\<rparr>)) n payload now) (\<lambda>(actions, s).
      let (s, packets) = emitLocked env s actions sentAt in Some (True, wakeForPacketLocked s, packets)) = Some (handled, r) \<and> queues s r"
    if "map_of (s_neighbors s) ident = Some n" for n src payload
  proof -
    let ?t = "onNeighbor s n (\<lambda>nb. nb\<lparr>nb_addr := src\<rparr>)"
    have t: "moves s ?t" by (rule neighbor_same_moves [OF assms]) simp
    have "n < s_fresh s" using assms map_of_SomeD [OF that] by (auto simp: steady_def peers_ok_def)
    then have "n < s_fresh ?t" by (simp add: onNeighbor_def)
    then obtain as u where u: "handlePacketLocked mexp ?t n payload now = Some (as, u)" "actions_ok as" "moves ?t u"
      using handlePacket_replies [OF moves_steady [OF t], of n mexp payload now] by (auto simp: replies_def)
    have "wakeForPacketLocked v = v \<or> wakeForPacketLocked v = wake v" for v by (simp add: wakeForPacketLocked_def)
    then have w: "moves s (wakeForPacketLocked v) = moves s v" for v by (metis moves_timers(14))
    show ?thesis using u(1) emit_moves [OF moves_steady [OF u(3)] u(2), of env sentAt] moves_trans [OF t moves_trans [OF u(3)]]
      by (auto simp: queues_def w split: prod.split)
  qed
  then show ?thesis using r by (auto simp: Receive_def queues_def Let_def split: sum.split option.split)
qed

section \<open>The run loop\<close>

lemma missLoop_frame: "nb_advertised (missLoop i now n) = nb_advertised n \<and> nb_owed (missLoop i now n) = nb_owed n \<and>
    nb_peer (missLoop i now n) = nb_peer n \<and> nb_peerID (missLoop i now n) = nb_peerID n"
  by (induction i arbitrary: n) auto

lemma sweep_moves:
  assumes "steady s"
  shows "moves s (sweepExpiredLocked mexp s now)"
proof -
  let ?t = "foldl (\<lambda>s (_, n). onNeighbor s n (sweepNeighbor now)) s (s_neighbors s)"
  let ?u = "onRoutes ?t (\<lambda>rt. sweepExpired (s_store ?t) mexp rt now)"
  have t: "moves s ?t" using assms
    by (rule foldl_moves) (auto intro!: neighbor_same_moves simp: sweepNeighbor_def missLoop_frame forgetLink_def Let_def split: prod.split)
  have u: "moves ?t ?u" using table_moves [OF moves_steady [OF t], of "SweepExpired now" mexp] by simp
  show ?thesis using moves_trans [OF t moves_trans [OF u sweepRequests_moves [OF moves_steady [OF u]]]]
    by (simp add: sweepExpiredLocked_def Let_def)
qed


lemma replies_map: "replies s r \<Longrightarrow> (\<And>t. moves s t \<Longrightarrow> moves s (f t)) \<Longrightarrow> replies s (map_option (\<lambda>(a, t). (a, f t)) r)"
  by (force simp: replies_def)

lemma runPass_queues:
  assumes "steady s"
  shows "\<exists>r. runPass mexp env s now sentAt = Some r \<and> queues s r"
proof -
  let ?a = "s\<lparr>s_retryAt := 0, s_passes := s_passes s + 1\<rparr>"
  let ?b = "sweepExpiredLocked mexp (applyLostLocked ?a) now"
  let ?due = "\<not> now < s_nextHello ?b"
  let ?c = "if ?due then ?b\<lparr>s_nextHello := now + s_hello ?b\<rparr> else ?b"
  have "moves s ?a" using moves_refl [OF assms] by simp
  moreover have l: "moves ?a (applyLostLocked ?a)" using assms by (intro applyLost_moves) simp
  moreover note sweep_moves [OF moves_steady [OF l], of mexp now]
  ultimately have "moves s ?b" using moves_trans by blast
  then have c: "moves s ?c" by simp
  obtain hs d where d: "helloActions ?c ?due now = (hs, d)" "actions_ok hs" "moves ?c d"
    using hellos_moves [OF moves_steady [OF c]] by blast
  let ?up = "if \<not> now < s_nextUpdate d \<or> s_updatePending d
    then map_option (\<lambda>(a, s). (a, (if \<not> now < s_nextUpdate s then s\<lparr>s_nextUpdate := now + s_update s\<rparr> else s)\<lparr>s_updatePending := False\<rparr>)) (updateActions d now)
    else triggeredActions d now"
  have "replies d ?up" using updateActions_replies [OF moves_steady [OF d(3)], of now] triggered_replies [OF moves_steady [OF d(3)], of now]
    by (simp add: replies_map)
  then obtain us e where e: "?up = Some (us, e)" "actions_ok us" "moves d e" by (auto simp: replies_def)
  obtain ss f where f: "starvedActions e now = Some (ss, f)" "actions_ok ss" "moves e f"
    using starved_replies [OF moves_steady [OF e(3)], of now] by (auto simp: replies_def)
  obtain rs g where g: "retryStarvedLocked f now = Some (rs, g)" "actions_ok rs" "moves f g" using retry_exact [OF moves_steady [OF f(3)]] by blast
  have m: "moves s g" using c d(3) e(3) f(3) g(3) moves_trans by blast
  obtain h ps where h: "emitLocked env g (hs @ us @ ss @ rs) sentAt = (h, ps)" by fastforce
  have q: "queues g (h, ps)" using emit_moves [OF moves_steady [OF m], of "hs @ us @ ss @ rs" env sentAt] d(2) e(2) f(2) g(2) h
    by (simp add: queues_def)
  have "runPass mexp env s now sentAt = Some (h\<lparr>s_sleepUntil := deadlineLocked h\<rparr>, ps)"
    unfolding runPass_def Let_def d(1) prod.case e(1) bind.bind_lunit f(1) g(1) h ..
  then show ?thesis using q moves_trans [OF m] by (simp add: queues_def)
qed

section \<open>Peers\<close>

lemma expire_moves: "steady s \<Longrightarrow> moves s (onRoutes s (\<lambda>rt. expireNeighbor (s_store s) mexp rt n now))"
  using table_moves [of s "Expire n now" mexp] by simp

lemma foreign_mono: "foreign s k n adv \<Longrightarrow> s_fresh s \<le> s_fresh t \<Longrightarrow> s_routerID t = s_routerID s \<Longrightarrow> foreign t k n adv"
  by (simp add: foreign_def)

lemma table_consistent_mono:
  assumes "table_consistent P rt" "\<And>k n adv. P k n adv \<Longrightarrow> Q k n adv"
  shows "table_consistent Q rt"
  using assms by (fastforce simp: table_consistent_def entry_ok_def)

lemma hop_fresh:
  assumes "steady s" "hop (s_routes s) key = Some n"
  shows "n < s_fresh s"
proof -
  obtain e where e: "map_of (rt_entries (s_routes s)) key = Some e" "sel_neighbor (ke_selected e) = Some n"
    using assms(2) by (auto simp: hop_def bind_eq_Some_conv)
  have "entry_ok (foreign s) (rt_sources (s_routes s)) key e"
    using assms(1) table_consistent_entry [OF _ e(1)] by (simp add: steady_def routing_ok_def)
  then show ?thesis using e(2) by (auto simp: entry_ok_def selection_ok_def foreign_def dest!: map_of_SomeD)
qed

lemma fresh_steady:
  assumes "steady t"
  shows "steady (t\<lparr>s_store := (s_store t)(s_fresh t := emptyNeighbor peer ident), s_fresh := s_fresh t + 1,
    s_neighbors := AList.update ident (s_fresh t) (s_neighbors t)\<rparr>)" (is "steady ?u")
proof -
  have r: "routing_ok t" "peers_ok t" using assms by (simp_all add: steady_def)
  have e: "rt_events (s_routes t) = []" using r(1) by (simp add: routing_ok_def)
  have "peerOf (s_store ?u) (hop (s_routes t) key) = peerOf (s_store t) (hop (s_routes t) key)" for key
    using hop_fresh [OF assms, of key] by (auto simp: peerOf_def split: option.split)
  moreover have "mirrors (s_store t) (meshMap t) (s_routes t)" using r(1) e by (simp add: routing_ok_def tracks_def)
  ultimately have mir: "mirrors (s_store ?u) (meshMap t) (s_routes t)" unfolding mirrors_def by simp
  have "learnable ?u = learnable t" "meshMap ?u = meshMap t" by (simp_all add: learnable_def meshMap_def [abs_def])
  moreover have "table_consistent (foreign ?u) (s_routes t)"
    by (rule table_consistent_mono [of "foreign t"]) (use r(1) in \<open>auto simp: routing_ok_def foreign_def\<close>)
  ultimately have "routing_ok ?u" using r(1) mir e by (simp add: routing_ok_def tracks_def)
  moreover have "peers_ok ?u"
  proof -
    have d: "distinct (map fst (s_neighbors t))" using r(2) by (simp add: peers_ok_def)
    have "neighbor_ok (emptyNeighbor peer ident)" by (simp add: neighbor_ok_def emptyNeighbor_def)
    then show ?thesis using r(2) alist_set_update [OF d, of ident "s_fresh t"] distinct_update [OF d, of ident "s_fresh t"]
      by (auto simp: peers_ok_def)
  qed
  ultimately show ?thesis using assms by (simp add: steady_def)
qed

lemma AddPeer_steady:
  assumes "steady s"
  shows "steady (snd (AddPeer mexp s peer ident now))"
proof -
  obtain t where t: "(case map_of (s_neighbors s) ident of
      Some old \<Rightarrow> onRoutes s (\<lambda>rt. expireNeighbor (s_store s) mexp rt old now) | None \<Rightarrow> s) = t" "steady t"
    using assms moves_steady [OF expire_moves [OF assms]] by (cases "map_of (s_neighbors s) ident") auto
  show ?thesis using fresh_steady [OF t(2), where peer = peer and ident = ident] by (simp add: AddPeer_def Let_def t(1))
qed

lemma removePeer_steady:
  assumes "steady s"
  shows "steady (removePeer mexp s n now)"
proof -
  let ?t = "s\<lparr>s_neighbors := AList.delete (nb_peerID (s_store s n)) (s_neighbors s), s_askedSeqno := filter (\<lambda>((_, m), _). m \<noteq> n) (s_askedSeqno s)\<rparr>"
  have "steady ?t" using assms by (auto simp: steady_def peers_ok_def AList.delete_eq distinct_map_filter)
  from moves_steady [OF expire_moves [OF this]] show ?thesis using assms by (simp add: removePeer_def Let_def)
qed

section \<open>Originated prefixes\<close>

lemma release_fold:
  assumes "table_ok (rt_table (s_mesh s))" "\<forall>k\<in>set ks. key_ok k"
  shows "\<exists>m. foldl releaseOriginatedLocked s ks = s\<lparr>s_mesh := m\<rparr> \<and> table_ok (rt_table m) \<and>
    meshMap (s\<lparr>s_mesh := m\<rparr>) = (\<lambda>k. if k \<in> set ks then None else meshMap s k)"
  using assms
proof (induction ks arbitrary: s)
  case Nil
  then show ?case by (intro exI [of _ "s_mesh s"]) simp
next
  case (Cons k ks)
  let ?s = "releaseOriginatedLocked s k"
  have p: "table_ok (rt_table (s_mesh ?s))" using mesh_remove(1) [of k s] Cons.prems by (simp add: releaseOriginatedLocked_def)
  obtain m where "foldl releaseOriginatedLocked ?s ks = ?s\<lparr>s_mesh := m\<rparr>" "table_ok (rt_table m)"
    "meshMap (?s\<lparr>s_mesh := m\<rparr>) = (\<lambda>k. if k \<in> set ks then None else meshMap ?s k)"
    using Cons.IH [OF p] Cons.prems(2) by auto
  moreover have "meshMap ?s = (meshMap s)(k := None)" "?s\<lparr>s_mesh := m\<rparr> = s\<lparr>s_mesh := m\<rparr>"
    using mesh_remove(2) [of k s] Cons.prems by (simp_all add: releaseOriginatedLocked_def)
  ultimately show ?case by (intro exI [of _ m]) (auto simp: fun_eq_iff)
qed

lemma adopt_fold:
  assumes "table_ok (rt_table (s_mesh s))" "\<forall>k\<in>set ks. key_ok k"
  shows "\<exists>m. foldl adoptOriginatedLocked s ks =
      s\<lparr>s_routes := (s_routes s)\<lparr>rt_entries := filter (\<lambda>(k, e). k \<notin> set ks) (rt_entries (s_routes s))\<rparr>, s_mesh := m\<rparr> \<and> table_ok (rt_table m) \<and>
    meshMap (s\<lparr>s_mesh := m\<rparr>) = (\<lambda>k. if k \<in> set ks then Some Unreachable else meshMap s k)"
  using assms
proof (induction ks arbitrary: s)
  case Nil
  have "filter (\<lambda>(k, e). k \<notin> set []) (rt_entries (s_routes s)) = rt_entries (s_routes s)" by (simp add: filter_True split_def)
  then show ?case using Nil by (intro exI [of _ "s_mesh s"]) simp
next
  case (Cons k ks)
  let ?s = "adoptOriginatedLocked s k"
  have p: "table_ok (rt_table (s_mesh ?s))" using mesh_set(1) [of k s Unreachable] Cons.prems by (simp add: adoptOriginatedLocked_def)
  have f: "filter (\<lambda>(j, e). j \<notin> set ks) (AList.delete k al) = filter (\<lambda>(j, e). j \<notin> set (k # ks)) al" for al :: "(routeKey \<times> keyEntry) list"
    by (induction al) (auto simp: AList.delete_eq)
  obtain m where m: "foldl adoptOriginatedLocked ?s ks =
      ?s\<lparr>s_routes := (s_routes ?s)\<lparr>rt_entries := filter (\<lambda>(k, e). k \<notin> set ks) (rt_entries (s_routes ?s))\<rparr>, s_mesh := m\<rparr>" "table_ok (rt_table m)"
    "meshMap (?s\<lparr>s_mesh := m\<rparr>) = (\<lambda>k. if k \<in> set ks then Some Unreachable else meshMap ?s k)"
    using Cons.IH [OF p] Cons.prems(2) by auto
  have s: "meshMap ?s = (meshMap s)(k \<mapsto> Unreachable)" using mesh_set(2) [of k s Unreachable] Cons.prems
    by (simp add: adoptOriginatedLocked_def meshMap_def [abs_def])
  have "meshMap (s\<lparr>s_mesh := m\<rparr>) = meshMap (?s\<lparr>s_mesh := m\<rparr>)" by (simp add: meshMap_def [abs_def])
  also have "\<dots> = (\<lambda>j. if j \<in> set (k # ks) then Some Unreachable else meshMap s j)" unfolding m(3) s by auto
  finally have "meshMap (s\<lparr>s_mesh := m\<rparr>) = (\<lambda>j. if j \<in> set (k # ks) then Some Unreachable else meshMap s j)" .
  moreover have "?s\<lparr>s_routes := (s_routes ?s)\<lparr>rt_entries := filter (\<lambda>(k, e). k \<notin> set ks) (rt_entries (s_routes ?s))\<rparr>, s_mesh := m\<rparr> =
      s\<lparr>s_routes := (s_routes s)\<lparr>rt_entries := filter (\<lambda>(j, e). j \<notin> set (k # ks)) (rt_entries (s_routes s))\<rparr>, s_mesh := m\<rparr>"
    by (simp add: adoptOriginatedLocked_def f)
  ultimately show ?case using m(1,2) by (intro exI [of _ m]) simp
qed

text \<open>
  The prefixes of the node become \<open>new\<close>: those given up lose their hold and those taken up their routes.
\<close>

lemma reoriginate_steady:
  assumes "steady s" "\<forall>k\<in>set new. key_ok k" "set gone \<inter> set new = {}" "set gone \<subseteq> set (s_originate s)"
    and "set (s_originate s) \<subseteq> set new \<union> set gone" "set taken \<subseteq> set new" "set new \<subseteq> set (s_originate s) \<union> set taken"
  shows "steady (foldl adoptOriginatedLocked ((foldl releaseOriginatedLocked s gone)\<lparr>s_originate := new\<rparr>) taken)" (is "steady ?u")
proof -
  have r: "table_ok (rt_table (s_mesh s))" "table_consistent (foreign s) (s_routes s)"
    "tracks (learnable s) {k. key_ok k} (s_store s) (meshMap s) (s_routes s)" "rt_events (s_routes s) = []"
    "\<And>k. k \<in> set (s_originate s) \<Longrightarrow> key_ok k \<and> meshMap s k = Some Unreachable"
    using assms(1) by (simp_all add: steady_def routing_ok_def)
  obtain m where m: "foldl releaseOriginatedLocked s gone = s\<lparr>s_mesh := m\<rparr>" "table_ok (rt_table m)"
    "meshMap (s\<lparr>s_mesh := m\<rparr>) = (\<lambda>k. if k \<in> set gone then None else meshMap s k)"
    using release_fold [OF r(1), of gone] assms(4) r(5) by blast
  let ?t = "s\<lparr>s_mesh := m, s_originate := new\<rparr>"
  let ?rt = "(s_routes s)\<lparr>rt_entries := filter (\<lambda>(k, e). k \<notin> set taken) (rt_entries (s_routes s))\<rparr>"
  obtain l where l: "foldl adoptOriginatedLocked ?t taken = ?t\<lparr>s_routes := ?rt, s_mesh := l\<rparr>" "table_ok (rt_table l)"
    "meshMap (?t\<lparr>s_mesh := l\<rparr>) = (\<lambda>k. if k \<in> set taken then Some Unreachable else meshMap ?t k)"
    using adopt_fold [of ?t taken] m(2) assms(2,6) by auto
  have u: "?u = ?t\<lparr>s_routes := ?rt, s_mesh := l\<rparr>" using l(1) m(1) by simp
  have mm: "meshMap ?u k = (if k \<in> set taken then Some Unreachable else if k \<in> set gone then None else meshMap s k)" for k
    using l(3) m(3) by (simp add: u meshMap_def fun_eq_iff)
  have own: "hop (s_routes s) k = None" if "k \<in> set (s_originate s)" for k
    using r(3) that by (force simp: tracks_def learnable_def hop_def bind_eq_None_conv map_of_eq_None_iff)
  have h: "hop ?rt k = (if k \<in> set taken then None else hop (s_routes s) k)" for k
  proof -
    have "map_of (filter (\<lambda>(k, e). k \<notin> set taken) al) k = (if k \<in> set taken then None else map_of al k)" for al :: "(routeKey \<times> keyEntry) list"
      by (induction al) auto
    then show ?thesis by (simp add: hop_def)
  qed
  have "mirrors (s_store s) (meshMap ?u) ?rt"
    using r(3,4) own assms(4) by (auto simp: mirrors_def mm h tracks_def peerOf_def)
  moreover have "fst ` set (rt_entries ?rt) \<subseteq> learnable ?u"
    using r(3) assms(7) by (force simp: tracks_def learnable_def u)
  moreover have "dom (meshMap ?u) \<subseteq> fst ` set (rt_entries ?rt) \<union> ({k. key_ok k} - learnable ?u)"
  proof
    fix k assume "k \<in> dom (meshMap ?u)"
    then consider "k \<in> set taken" | "k \<notin> set taken" "k \<notin> set gone" "k \<in> dom (meshMap s)" by (auto simp: dom_def mm split: if_splits)
    then show "k \<in> fst ` set (rt_entries ?rt) \<union> ({k. key_ok k} - learnable ?u)"
    proof cases
      case 1
      then show ?thesis using assms(2,6) by (auto simp: learnable_def u)
    next
      case 2
      then have "k \<in> fst ` set (rt_entries (s_routes s)) \<or> key_ok k \<and> k \<in> set (s_originate s)"
        using r(3,4) by (auto simp: tracks_def learnable_def)
      then show ?thesis using 2 assms(5) by (force simp: learnable_def u)
    qed
  qed
  ultimately have "tracks (learnable ?u) {k. key_ok k} (s_store s) (meshMap ?u) ?rt" using r(3,4) by (simp add: tracks_def)
  moreover have "table_consistent (foreign ?u) ?rt"
  proof -
    have "length (filter (\<lambda>(k, e). k \<notin> set taken) (rt_entries (s_routes s))) \<le> maxRouteKeys"
      by (rule order_trans [OF length_filter_le]) (use r(2) in \<open>simp add: table_consistent_def\<close>)
    moreover have "foreign ?u = foreign s" by (simp add: u foreign_def [abs_def])
    ultimately show ?thesis using r(2) accounted_view [of ?rt "s_routes s"] by (auto simp: table_consistent_def distinct_map_filter)
  qed
  moreover have "key_ok k \<and> meshMap ?u k = Some Unreachable" if "k \<in> set new" for k
    using that assms(2,3,7) r(5) [of k] by (auto simp: mm)
  ultimately have "routing_ok ?u" using l(2) r(4) by (simp add: routing_ok_def u)
  then show ?thesis using assms(1) by (simp add: steady_def u peers_ok_def)
qed

lemma SetOriginated_steady:
  assumes "steady s" "\<forall>r\<in>set routes. prefix_ok (or_Destination r) \<and> prefix_ok (or_Source r)"
  shows "steady (SetOriginated s routes)"
proof -
  let ?w = "wantedKeys routes" and ?g = "filter (\<lambda>k. k \<notin> set (wantedKeys routes)) (s_originate s)"
  have w: "\<forall>k\<in>set ?w. key_ok k" using assms(2) by (auto simp: wantedKeys_def map_filter_def intro: originatedKey_ok)
  have "steady (foldl adoptOriginatedLocked ((foldl releaseOriginatedLocked s ?g)\<lparr>s_originate := ?w\<rparr>) ?w)"
    using assms(1) w by (intro reoriginate_steady) auto
  then show ?thesis using assms(1) by (simp add: SetOriginated_def Let_def)
qed

lemma OriginateFrom_steady:
  assumes "steady s" "prefix_ok dest" "prefix_ok source"
  shows "steady (OriginateFrom s dest source)"
proof (cases "originatedKey dest source")
  case None
  then show ?thesis using assms(1) by (simp add: OriginateFrom_def)
next
  case (Some key)
  have "steady (foldl adoptOriginatedLocked ((foldl releaseOriginatedLocked s [])\<lparr>s_originate := List.insert key (s_originate s)\<rparr>) [key])"
    using originatedKey_ok [OF Some assms(2,3)] steady_keys(2) [OF assms(1)] by (intro reoriginate_steady [OF assms(1)]) auto
  then show ?thesis using Some by (simp add: OriginateFrom_def Let_def)
qed


section \<open>Runs\<close>

lemma mesh_empty: "rt_table (s_mesh s) = None \<Longrightarrow> meshMap s = Map.empty"
  by (simp add: meshMap_def [abs_def])

lemma NewSpeaker_steady:
  assumes "rt_table mesh = None" "\<forall>e\<in>set (ro_Announce routes). prefix_ok (an_Prefix e) \<and> prefix_ok (an_From e)"
  shows "steady (NewSpeaker cfg routes rt mesh)"
proof -
  have e: "neighbor_ok (emptyNeighbor 0 [])" by (simp add: neighbor_ok_def emptyNeighbor_def)
  have r: "mirrors nb Map.empty (newRouteTable tau trigger cost)" for nb tau trigger cost
    by (simp add: mirrors_def hop_def newRouteTable_def)
  have "steady s" if "s_mesh s = mesh" "s_routes s = newRouteTable tau trigger cost" "s_originate s = []" "s_neighbors s = []" "s_lost s = []"
    "s_store s = (\<lambda>_. emptyNeighbor 0 [])" "s_pendingSeqno s = []" "s_pendingByAsker s = Map.empty" "s_starveRetries s = []" "s_starveBy s = Map.empty"
    for s tau trigger cost
    using that assms(1) table_consistent_new [of "foreign s" tau trigger cost] mesh_empty [of s] e r
    by (simp add: steady_def routing_ok_def peers_ok_def pending_ok_def retries_ok_def ledger_def tracks_def newRouteTable_def) (simp add: tally_def shares_def)
  then show ?thesis unfolding NewSpeaker_def SetRoutes_def
    by (intro SetOriginated_steady) (use assms(2) in \<open>auto simp: Routes_Originated_def\<close>)
qed

text \<open>
  A state of the speaker, with the packets that wait to be written: what the transport, the configuration and the
  clock do to it, in any order.
\<close>

inductive speaker_run :: "(int \<Rightarrow> int \<Rightarrow> real) \<Rightarrow> Speaker \<Rightarrow> reservedPacket list \<Rightarrow> bool" for mexp where
  started: "rt_table mesh = None \<Longrightarrow> \<forall>e\<in>set (ro_Announce routes). prefix_ok (an_Prefix e) \<and> prefix_ok (an_From e) \<Longrightarrow>
    speaker_run mexp (NewSpeaker cfg routes rt mesh) []"
| received: "speaker_run mexp s q \<Longrightarrow> Receive mexp env s peer ident raw now sentAt = Some (handled, t, ps) \<Longrightarrow> speaker_run mexp t (q @ ps)"
| passed: "speaker_run mexp s q \<Longrightarrow> runPass mexp env s now sentAt = Some (t, ps) \<Longrightarrow> speaker_run mexp t (q @ ps)"
| written: "speaker_run mexp s q \<Longrightarrow> speaker_run mexp s (remove1 p q)"
| lost: "speaker_run mexp s q \<Longrightarrow> p \<in> set q \<Longrightarrow> speaker_run mexp (noteLost s (rp_neighbor p) (rp_undo p) now) (remove1 p q)"
| joined: "speaker_run mexp s q \<Longrightarrow> speaker_run mexp (snd (AddPeer mexp s peer ident now)) q"
| left: "speaker_run mexp s q \<Longrightarrow> speaker_run mexp (removePeer mexp s n now) q"
| configured: "speaker_run mexp s q \<Longrightarrow> \<forall>e\<in>set (ro_Announce routes). prefix_ok (an_Prefix e) \<and> prefix_ok (an_From e) \<Longrightarrow>
    speaker_run mexp (SetRoutes s routes) q"
| originated: "speaker_run mexp s q \<Longrightarrow> prefix_ok dest \<Longrightarrow> prefix_ok source \<Longrightarrow> speaker_run mexp (OriginateFrom s dest source) q"

lemma run_steady: "speaker_run mexp s q \<Longrightarrow> steady s \<and> (\<forall>p\<in>set q. undos_ok (rp_undo p))"
proof (induction rule: speaker_run.induct)
  case (received s q env peer ident raw now sentAt handled t ps)
  then show ?case using Receive_queues [of s mexp env peer ident raw now sentAt] by (auto simp: queues_def moves_def)
next
  case (passed s q env now sentAt t ps)
  then show ?case using runPass_queues [of s mexp env now sentAt] by (auto simp: queues_def moves_def)
next
  case (lost s q p now)
  then show ?case using moves_steady [OF noteLost_moves] by (auto dest: set_remove1_subset [THEN subsetD])
next
  case (configured s q routes)
  then show ?case by (auto simp: SetRoutes_def Routes_Originated_def intro!: SetOriginated_steady)
qed (auto simp: NewSpeaker_steady AddPeer_steady removePeer_steady OriginateFrom_steady dest: set_remove1_subset [THEN subsetD])

text \<open>
  C27. The speaker never panics: in every state that its peers, the packets they send, the packets it loses, the
  configuration and the clock can bring about, the handling of any packet from any peer returns, and so does a pass of the run loop.
\<close>

theorem speaker_never_panics:
  assumes "speaker_run mexp s q"
  shows "(\<exists>r. Receive mexp env s peer ident raw now sentAt = Some r) \<and> (\<exists>r. runPass mexp env s now sentAt = Some r)"
  using run_steady [OF assms] Receive_queues runPass_queues by blast

definition sampleSpeaker :: Speaker where
  "sampleSpeaker = snd (AddPeer (\<lambda>_ _. 0) (NewSpeaker
     \<lparr>cf_Hello = 0, cf_Update = 0, cf_Quality = LinkQualityETX, cf_Cost = \<lparr>co_Rx = None, co_Weight = None, co_Min = None, co_Max = None\<rparr>\<rparr>
     \<lparr>ro_Announce = [\<lparr>an_Prefix = PrefixFrom (Addr6 (push_bit 112 0x2001)) 64, an_From = noPrefix\<rparr>], ro_Transit = None\<rparr>
     \<lparr>rn_RouterID = 1, rn_LinkLocalAddr = Addr6 (push_bit 112 0xfe80 + 1), rn_PacketSize = 1200\<rparr> NewRouteTable) 7 ''p'' 0)"

lemma sample_run: "speaker_run (\<lambda>_ _. 0) sampleSpeaker []"
  unfolding sampleSpeaker_def by (intro speaker_run.joined speaker_run.started) (simp_all add: NewRouteTable_def)

theorem speaker_never_panics_witness:
  "(\<exists>r. Receive (\<lambda>_ _. 0) (\<lambda>_. (True, 5)) sampleSpeaker 7 ''p'' [0x60, 0, 0] 100 200 = Some r) \<and>
   (\<exists>r. runPass (\<lambda>_ _. 0) (\<lambda>_. (True, 5)) sampleSpeaker 100 200 = Some r)"
  by (rule speaker_never_panics [OF sample_run])

text \<open>Which routes a packet may take, and which of two is more specific.\<close>

definition covers :: "routeKey \<Rightarrow> addr \<Rightarrow> addr \<Rightarrow> bool" where
  "covers key src dst \<longleftrightarrow> src_match (rk_source key) src \<and> dest_match (rk_dest key) dst"

definition outranks :: "routeKey \<Rightarrow> routeKey \<Rightarrow> bool" where
  "outranks key k \<longleftrightarrow> p_Bits (rk_dest k) < p_Bits (rk_dest key) \<or> rk_dest k = rk_dest key \<and> p_Bits (rk_source k) \<le> p_Bits (rk_source key)"

text \<open>A prefix whose traffic goes nowhere: one of this node, or one whose routes are all unusable.\<close>

definition held :: "Speaker \<Rightarrow> routeKey \<Rightarrow> bool" where
  "held s k \<longleftrightarrow> k \<in> set (s_originate s) \<or> (\<exists>e. map_of (rt_entries (s_routes s)) k = Some e \<and> sel_neighbor (ke_selected e) = None)"

lemma selected_route:
  assumes "steady s" "hop (s_routes s) key = Some n"
  shows "\<exists>e r. map_of (rt_entries (s_routes s)) key = Some e \<and> sel_neighbor (ke_selected e) = Some n \<and> map_of (ke_routes e) n = Some r \<and>
    ri_rxMetric r \<noteq> MetricInfinity \<and> ri_routerID r \<noteq> s_routerID s \<and>
    (\<forall>d. map_of (rt_sources (s_routes s)) (key, ri_routerID r) = Some d \<longrightarrow> better d (ri_seqno r) (ri_rxMetric r))"
proof -
  obtain e where e: "map_of (rt_entries (s_routes s)) key = Some e" "sel_neighbor (ke_selected e) = Some n"
    using assms(2) by (auto simp: hop_def bind_eq_Some_conv)
  have "table_consistent (foreign s) (s_routes s)" using assms(1) by (simp add: steady_def routing_ok_def)
  then obtain r where r: "map_of (ke_routes e) n = Some r" "ri_rxMetric r < sel_cost (ke_selected e)" "foreign s key n (advertised r)"
    "\<forall>d. map_of (rt_sources (s_routes s)) (key, ri_routerID r) = Some d \<longrightarrow> better d (ri_seqno r) (ri_rxMetric r)"
    using table_consistent_entry [OF _ e(1)] e(2) by (fastforce simp: entry_ok_def selection_ok_def dest: map_of_SomeD)
  have "ri_rxMetric r \<noteq> MetricInfinity" using r(2) metric_le(1) [of "sel_cost (ke_selected e)"]
    by (auto simp: metric_le(2) word_less_nat_alt)
  then show ?thesis using e r by (auto simp: foreign_def advertised_def)
qed



text \<open>
  C29. The tables of requests are bounded and their counters exact. In every reachable state there are at most \<open>maxPendingSeqno\<close>
  suppressed requests and \<open>maxStarveRetries\<close> repeated ones, at most \<open>maxPendingSeqnoPerNeighbor\<close> and
  \<open>maxStarveRetriesPerNeighbor\<close> of one neighbour, no request is listed twice, and the counter of a neighbour is the number of its
  entries, absent when it has none: no counter leaks.
\<close>

theorem requests_bounded:
  assumes "speaker_run mexp s q"
  shows "distinct (map fst (s_pendingSeqno s)) \<and> length (s_pendingSeqno s) \<le> maxPendingSeqno \<and>
    distinct (map fst (s_starveRetries s)) \<and> length (s_starveRetries s) \<le> maxStarveRetries \<and>
    (\<forall>p. let n = length (filter (\<lambda>(i, e). pq_asker e = p) (s_pendingSeqno s));
             m = length (filter (\<lambda>(i, e). ry_asker e = p) (s_starveRetries s))
         in n \<le> maxPendingSeqnoPerNeighbor \<and> s_pendingByAsker s p = (if n = 0 then None else Some n) \<and>
            m \<le> maxStarveRetriesPerNeighbor \<and> s_starveBy s p = (if m = 0 then None else Some m))"
  using run_steady [OF assms]
  by (simp add: steady_def pending_ok_def retries_ok_def ledger_def tally_def shares_def Let_def)

theorem requests_bounded_witness: "length (s_pendingSeqno sampleSpeaker) \<le> maxPendingSeqno"
  using requests_bounded [OF sample_run] by blast

section \<open>The end of the repetition\<close>

definition retryPass :: "Speaker \<Rightarrow> time \<Rightarrow> Speaker option" where
  "retryPass s now = map_option snd (retryStarvedLocked s now)"

text \<open>Passes far enough apart that every repetition is due: the longest delay is that of the last attempt.\<close>

fun spaced :: "time \<Rightarrow> time list \<Rightarrow> bool" where
  "spaced t [] = True"
| "spaced t (u # us) = (t + seqnoRetryInitial * 2 ^ (seqnoRequestRetries - 1) \<le> u \<and> spaced u us)"

lemma retryAgain_due:
  assumes "retryAgain s now r = Some r'" "ry_nextAt r \<le> now"
  shows "ry_attempts r' = ry_attempts r + 1 \<and> ry_attempts r < seqnoRequestRetries \<and>
    ry_nextAt r' \<le> now + seqnoRetryInitial * 2 ^ (seqnoRequestRetries - 1)"
proof -
  have a: "ry_attempts r < seqnoRequestRetries" "r' = r\<lparr>ry_attempts := ry_attempts r + 1, ry_nextAt := now + seqnoRetryInitial * 2 ^ ry_attempts r\<rparr>"
    using assms by (auto simp: retryAgain_def split: if_splits)
  have "(2::int) ^ ry_attempts r \<le> 2 ^ (seqnoRequestRetries - 1)" using a(1) by (intro power_increasing) auto
  then show ?thesis using a by (simp add: seqnoRetryInitial_def seconds_def)
qed

lemma retries_count_down:
  assumes "steady s" "spaced t ts" "\<forall>(i, r)\<in>set (s_starveRetries s). ry_nextAt r \<le> t \<and> k \<le> ry_attempts r"
    and "k + length ts = seqnoRequestRetries"
  shows "\<exists>u. foldOpt retryPass s (t # ts) = Some u \<and> s_starveRetries u = []"
  using assms
proof (induction ts arbitrary: s t k)
  case (Nil s t k)
  obtain as u where u: "retryStarvedLocked s t = Some (as, u)" "\<forall>i. map_of (s_starveRetries u) i = Option.bind (map_of (s_starveRetries s) i) (retryAgain s t)"
    using retry_exact [OF Nil(1)] by blast
  have n: "map_of (s_starveRetries u) i = None" for i
  proof (cases "map_of (s_starveRetries s) i")
    case None
    then show ?thesis using u(2) [THEN spec, of i] by simp
  next
    case (Some r)
    have "ry_nextAt r \<le> t" "seqnoRequestRetries \<le> ry_attempts r" using Nil(3,4) map_of_SomeD [OF Some] by auto
    then show ?thesis using u(2) [THEN spec, of i] Some by (simp add: retryAgain_def)
  qed
  have "s_starveRetries u = []" using n [of "fst (hd (s_starveRetries u))"] by (cases "s_starveRetries u") auto
  then show ?case using u(1) by (simp add: retryPass_def)
next
  case (Cons w ts s t k)
  obtain as u where u: "retryStarvedLocked s t = Some (as, u)" "moves s u"
    "\<forall>i. map_of (s_starveRetries u) i = Option.bind (map_of (s_starveRetries s) i) (retryAgain s t)"
    using retry_exact [OF Cons.prems(1)] by blast
  have d: "distinct (map fst (s_starveRetries u))" using moves_steady [OF u(2)] by (simp add: steady_def retries_ok_def ledger_def)
  have "\<forall>(i, r)\<in>set (s_starveRetries u). ry_nextAt r \<le> w \<and> k + 1 \<le> ry_attempts r"
  proof clarify
    fix i r' assume "(i, r') \<in> set (s_starveRetries u)"
    then have "map_of (s_starveRetries u) i = Some r'" using d by simp
    then obtain r where r: "map_of (s_starveRetries s) i = Some r" "retryAgain s t r = Some r'" using u(3) [THEN spec, of i] by (auto simp: bind_eq_Some_conv)
    have "ry_nextAt r \<le> t" "k \<le> ry_attempts r" using Cons.prems(3) map_of_SomeD [OF r(1)] by auto
    then show "ry_nextAt r' \<le> w \<and> k + 1 \<le> ry_attempts r'" using retryAgain_due [OF r(2)] Cons.prems(2) by auto
  qed
  from Cons.IH [OF moves_steady [OF u(2)] _ this] show ?case using Cons.prems(2,4) u(1) by (simp add: retryPass_def)
qed


definition starvingSpeaker :: Speaker where
  "starvingSpeaker = rememberStarved sampleSpeaker sampleKey 9 4 ''p'' 0"


end
