(* ===== verification/Babel_Mesh.thy ===== *)
theory Babel_Mesh
  imports Babel_Route
begin

text \<open>
  A mesh of Babel nodes: each node runs the route table of \<open>route.go\<close> and \<open>source.go\<close>, and hears what its
  neighbours have announced, in any order, any number of times and after any delay. The result is the
  loop freedom that the package comment of \<open>speaker.go\<close> rests on the feasibility condition and the source table.

  Two things are outside: sequence numbers do not leave the first half of their range, where the circular
  comparison is the ordinary order, and no feasibility distance is collected. A retraction may be heard at any time,
  announced or not.
\<close>

section \<open>Steps\<close>

record mesh =
  m_tables :: "nat \<Rightarrow> routeTable"
  m_sent :: "(nat \<times> routeKey \<times> advertisement) set"

text \<open>
  \<open>own i\<close> is the router-id of node \<open>i\<close> and \<open>peerOf i n\<close> the node behind the neighbour state \<open>n\<close> of node \<open>i\<close>. A finite
  update is one its neighbour announced and does not carry the receiver's own router-id, which \<open>handlePacketLocked\<close>
  drops.
\<close>

definition heard :: "(nat \<Rightarrow> routerid) \<Rightarrow> (nat \<Rightarrow> nat \<Rightarrow> nat) \<Rightarrow> (nat \<times> routeKey \<times> advertisement) set \<Rightarrow> nat \<Rightarrow>
    routeKey \<Rightarrow> nat \<Rightarrow> advertisement \<Rightarrow> bool" where
  "heard own peerOf sent i key n adv \<longleftrightarrow>
     adv_metric adv = MetricInfinity \<or> (peerOf i n, key, adv) \<in> sent \<and> adv_routerID adv \<noteq> own i"

fun allowed :: "(nat \<Rightarrow> routerid) \<Rightarrow> (nat \<Rightarrow> nat \<Rightarrow> nat) \<Rightarrow> mesh \<Rightarrow> nat \<Rightarrow> routeOp \<Rightarrow> bool" where
  "allowed own peerOf m i (Update n key adv hold now) = heard own peerOf (m_sent m) i key n adv"
| "allowed own peerOf m i (SweepExpired now) = (\<forall>(x, d)\<in>set (rt_sources (m_tables m i)). now < se_gcAt d)"
| "allowed own peerOf m i (Originated key rid seqno peer now) = (rid = own i \<and> unat seqno < 2 ^ 15)"
| "allowed own peerOf m i _ = True"

text \<open>What a call announces: the selection as \<open>advertisementFor\<close> states it, or the prefix of this node.\<close>

fun announced :: "routeTable \<Rightarrow> routeOp \<Rightarrow> (routeKey \<times> advertisement) set" where
  "announced rt (Advertised key peer now) =
     (case map_of (rt_entries rt) key of
        None \<Rightarrow> {}
      | Some e \<Rightarrow> let sel = ke_selected e in
          if sel_neighbor sel = None then {}
          else {(key, \<lparr>adv_routerID = sel_routerID sel, adv_seqno = sel_seqno sel, adv_metric = sel_cost sel\<rparr>)})"
| "announced rt (Originated key rid seqno peer now) =
     (if map_of (rt_entries rt) key \<noteq> None then {} else {(key, \<lparr>adv_routerID = rid, adv_seqno = seqno, adv_metric = 0\<rparr>)})"
| "announced rt _ = {}"

inductive mesh_step :: "(nat \<Rightarrow> routerid) \<Rightarrow> (nat \<Rightarrow> nat \<Rightarrow> nat) \<Rightarrow> (int \<Rightarrow> int \<Rightarrow> real) \<Rightarrow> mesh \<Rightarrow> mesh \<Rightarrow> bool"
  for own peerOf mexp where
  step: "allowed own peerOf m i op \<Longrightarrow>
    mesh_step own peerOf mexp m
      \<lparr>m_tables = (m_tables m)(i := tableStep nb mexp (m_tables m i) op),
       m_sent = m_sent m \<union> {i} \<times> announced (m_tables m i) op\<rparr>"

inductive_cases mesh_stepE: "mesh_step own peerOf mexp m m'"

inductive mesh_run :: "(nat \<Rightarrow> routerid) \<Rightarrow> (nat \<Rightarrow> nat \<Rightarrow> nat) \<Rightarrow> (int \<Rightarrow> int \<Rightarrow> real) \<Rightarrow> mesh \<Rightarrow> bool"
  for own peerOf mexp where
  start: "mesh_run own peerOf mexp \<lparr>m_tables = (\<lambda>i. newRouteTable (tau i) (trigger i) (cost i)), m_sent = {}\<rparr>"
| step: "mesh_run own peerOf mexp m \<Longrightarrow> mesh_step own peerOf mexp m m' \<Longrightarrow> mesh_run own peerOf mexp m'"

section \<open>The order on distances\<close>

definition rank :: "u16 \<Rightarrow> u16 \<Rightarrow> nat" where
  "rank seqno metric = (2 ^ 15 - unat seqno) * 65536 + unat metric"

lemma u15: "unat w < 2 ^ 15 \<Longrightarrow> uint w < 2 ^ 15" for w :: u16
  by (metis nat_less_numeral_power_cancel_iff unat_eq_nat_uint)

lemma sint_small: "sint w = uint w" if "unat w < 2 ^ 15" for w :: u16
proof -
  have "- (2 ^ 15) \<le> uint w" using uint_ge_0 [of w] by (rule order_trans [rotated]) simp
  then have "signed_take_bit 15 (uint w) = uint w" by (rule signed_take_bit_int_eq_self) (rule u15 [OF that])
  then show ?thesis by (simp add: sint_uint)
qed

lemma seqnoGT_small:
  assumes "unat a < 2 ^ 15" "unat b < 2 ^ 15"
  shows "seqnoGT a b \<longleftrightarrow> unat b < unat a"
proof -
  obtain x y where xy: "uint a = x" "uint b = y" "0 \<le> x" "0 \<le> y" "x < 2 ^ 15" "y < 2 ^ 15"
    using u15 [OF assms(1)] u15 [OF assms(2)] by simp
  have "sint (a - b) = signed_take_bit 15 (sint a - sint b)" by (simp add: sint_word_ariths)
  also have "\<dots> = signed_take_bit 15 (x - y)" by (simp only: sint_small assms xy)
  also have "\<dots> = x - y" by (rule signed_take_bit_int_eq_self) (use xy in linarith)+
  finally have "seqnoGT a b \<longleftrightarrow> y < x" by (simp add: seqnoGT_def)
  then show ?thesis unfolding xy(1,2) [symmetric] by (simp add: word_less_nat_alt [symmetric] word_less_def)
qed
lemma metric_bound: "unat (m :: u16) < 65536"
  using unsigned_less [of m] by simp

lemma rank_less:
  assumes "unat s < 2 ^ 15" "unat t < 2 ^ 15"
  shows "rank s m < rank t n \<longleftrightarrow> unat t < unat s \<or> s = t \<and> m < n"
proof -
  have *: "a * 65536 + x < b * 65536 + y \<longleftrightarrow> a < b \<or> a = b \<and> x < y" if "x < 65536" "y < 65536" for a b x y :: nat
    using that by (cases a b rule: linorder_cases) auto
  have "2 ^ 15 - unat s < 2 ^ 15 - unat t \<longleftrightarrow> unat t < unat s" "2 ^ 15 - unat s = 2 ^ 15 - unat t \<longleftrightarrow> s = t"
    using assms by (auto simp: word_unat_eq_iff)
  then show ?thesis unfolding rank_def by (simp only: * [OF metric_bound metric_bound] word_less_nat_alt)
qed

lemma better_rank:
  assumes "unat s < 2 ^ 15" "unat (se_seqno d) < 2 ^ 15"
  shows "better d s m \<longleftrightarrow> rank s m < rank (se_seqno d) (se_metric d)"
  by (simp add: better_def seqnoGT_small [OF assms] rank_less [OF assms])

section \<open>The invariant\<close>

interpretation heardRoute: provenance "heard own peerOf sent i" for own peerOf sent i
  by unfold_locales (simp add: heard_def)

lemma consistent_mono:
  assumes "table_consistent P rt" "\<And>k n a. P k n a \<Longrightarrow> Q k n a"
  shows "table_consistent Q rt"
proof -
  have "entry_ok P ss k e \<Longrightarrow> entry_ok Q ss k e" for ss k e using assms(2) by (fastforce simp: entry_ok_def)
  then show ?thesis using assms(1) by (auto simp: table_consistent_def)
qed

definition bounded :: "routeTable \<Rightarrow> bool" where
  "bounded rt \<longleftrightarrow> (\<forall>x d. map_of (rt_sources rt) x = Some d \<longrightarrow> unat (se_seqno d) < 2 ^ 15)"

text \<open>An announced distance is finite and no better than the one its node has recorded.\<close>

definition recorded :: "routeTable \<Rightarrow> routeKey \<Rightarrow> advertisement \<Rightarrow> bool" where
  "recorded rt key adv \<longleftrightarrow> adv_metric adv \<noteq> MetricInfinity \<and> unat (adv_seqno adv) < 2 ^ 15 \<and>
     (\<exists>d. map_of (rt_sources rt) (key, adv_routerID adv) = Some d \<and>
        rank (se_seqno d) (se_metric d) \<le> rank (adv_seqno adv) (adv_metric adv))"

definition mesh_ok :: "(nat \<Rightarrow> routerid) \<Rightarrow> (nat \<Rightarrow> nat \<Rightarrow> nat) \<Rightarrow> mesh \<Rightarrow> bool" where
  "mesh_ok own peerOf m \<longleftrightarrow> (\<forall>i. bounded (m_tables m i) \<and> table_consistent (heard own peerOf (m_sent m) i) (m_tables m i)) \<and>
     (\<forall>(j, key, adv)\<in>m_sent m. recorded (m_tables m j) key adv)"

lemma selected_heard:
  assumes "mesh_ok own peerOf m" "map_of (rt_entries (m_tables m i)) key = Some e" "sel_neighbor (ke_selected e) = Some n"
  shows "\<exists>r. (peerOf i n, key, \<lparr>adv_routerID = sel_routerID (ke_selected e), adv_seqno = sel_seqno (ke_selected e), adv_metric = r\<rparr>) \<in> m_sent m \<and>
    unat (sel_seqno (ke_selected e)) < 2 ^ 15 \<and> sel_cost (ke_selected e) \<noteq> MetricInfinity \<and>
    (\<forall>d. map_of (rt_sources (m_tables m i)) (key, sel_routerID (ke_selected e)) = Some d \<longrightarrow>
      rank (sel_seqno (ke_selected e)) r < rank (se_seqno d) (se_metric d))"
proof -
  have ok: "entry_ok (heard own peerOf (m_sent m) i) (rt_sources (m_tables m i)) key e"
    using assms(1,2) table_consistent_entry by (auto simp: mesh_ok_def)
  then obtain r where r: "map_of (ke_routes e) n = Some r" "sel_routerID (ke_selected e) = ri_routerID r"
    "sel_seqno (ke_selected e) = ri_seqno r" "ri_rxMetric r < sel_cost (ke_selected e)" "sel_cost (ke_selected e) \<noteq> MetricInfinity"
    "\<And>d. map_of (rt_sources (m_tables m i)) (key, ri_routerID r) = Some d \<Longrightarrow> better d (ri_seqno r) (ri_rxMetric r)"
    using assms(3) by (auto simp: entry_ok_def selection_ok_def)
  have fin: "ri_rxMetric r \<noteq> MetricInfinity" using r(4) metric_bound [of "sel_cost (ke_selected e)"] by (auto simp: MetricInfinity_def word_less_nat_alt)
  have "heard own peerOf (m_sent m) i key n (advertised r)"
    using ok map_of_SomeD [OF r(1)] by (auto simp: entry_ok_def)
  then have s: "(peerOf i n, key, advertised r) \<in> m_sent m" using fin by (simp add: heard_def advertised_def)
  then have q: "unat (ri_seqno r) < 2 ^ 15" using assms(1) by (auto simp: mesh_ok_def recorded_def advertised_def)
  have "rank (ri_seqno r) (ri_rxMetric r) < rank (se_seqno d) (se_metric d)"
    if "map_of (rt_sources (m_tables m i)) (key, ri_routerID r) = Some d" for d
    using r(6) [OF that] better_rank [OF q] assms(1) that by (auto simp: mesh_ok_def bounded_def)
  then show ?thesis using s q r by (auto simp: advertised_def)
qed


section \<open>What a step does to the distances\<close>

lemma forEntries_view:
  assumes "\<And>rt key e. sourceView (f rt key e) = sourceView rt"
  shows "sourceView (forEntries rt f) = sourceView rt"
proof -
  have "sourceView (foldl (\<lambda>rt key. case map_of (rt_entries rt) key of Some entry \<Rightarrow> f rt key entry | None \<Rightarrow> rt) rt ks) = sourceView rt" for ks
    by (induction ks arbitrary: rt) (auto simp: assms split: option.split)
  then show ?thesis by (simp add: forEntries_def)
qed

lemma step_view:
  "sourceView (tableStep nb mexp rt (Update n key adv hold now)) = sourceView rt"
  "sourceView (tableStep nb mexp rt (Recompute n now)) = sourceView rt"
  "sourceView (tableStep nb mexp rt (Expire n now)) = sourceView rt"
  "sourceView (tableStep nb mexp rt (Retract n now)) = sourceView rt"
  "sourceView (tableStep nb mexp rt (Adopted key)) = sourceView rt"
proof -
  have a: "sourceView (acquire nb mexp rt n key entry route adv feas hold now) = sourceView rt" for rt entry route feas
    by (simp add: acquire_def Let_def selectRoute_effect)
  have f: "sourceView (forgetRetraction rt n) = sourceView rt" by (simp add: forgetRetraction_def)
  show "sourceView (tableStep nb mexp rt (Update n key adv hold now)) = sourceView rt"
    by (simp add: rt_update_def Let_def a f split: option.split)
  show "sourceView (tableStep nb mexp rt (Recompute n now)) = sourceView rt"
    by (simp add: recomputeNeighbor_def forEntries_view selectRoute_effect split: option.split)
  show "sourceView (tableStep nb mexp rt (Expire n now)) = sourceView rt"
    by (simp add: expireNeighbor_def forEntries_view selectRoute_effect split: option.split)
  show "sourceView (tableStep nb mexp rt (Retract n now)) = sourceView rt"
    by (simp add: retractNeighbor_def forEntries_view selectRoute_effect Let_def split: option.split)
  show "sourceView (tableStep nb mexp rt (Adopted key)) = sourceView rt" by simp
qed

lemma sweep_sources:
  assumes "table_consistent P rt" "\<forall>(x, d)\<in>set (rt_sources rt). now < se_gcAt d"
  shows "rt_sources (tableStep nb mexp rt (SweepExpired now)) = rt_sources rt"
proof -
  let ?rt = "forEntries (rt\<lparr>rt_nextExpiryAt := 0\<rparr>) (\<lambda>rt key entry. selectRoute nb mexp rt key entry now)"
  have v: "sourceView ?rt = sourceView rt" by (simp add: forEntries_view selectRoute_effect)
  then have "accounted ?rt" using assms(1) accounted_view [OF v] by (simp add: table_consistent_def)
  then have "rt_sources (sweepSources ?rt now) = filter (\<lambda>(i, e). now < se_gcAt e) (rt_sources rt)"
    using v by (simp add: sweepSources_exact sourceView_def)
  also have "\<dots> = rt_sources rt" using assms(2) by (auto simp: filter_id_conv)
  finally show ?thesis by (simp add: sweepExpired_def)
qed

lemma observe_recorded:
  assumes "bounded rt" "unat (adv_seqno adv) < 2 ^ 15"
  shows "bounded (observe rt key adv peer now)"
    "recorded rt k a \<Longrightarrow> recorded (observe rt key adv peer now) k a"
    "adv_metric adv \<noteq> MetricInfinity \<Longrightarrow> recorded (observe rt key adv peer now) key adv"
proof -
  have b: "unat (se_seqno d) < 2 ^ 15" if "map_of (rt_sources rt) x = Some d" for x d using assms(1) that unfolding bounded_def by blast
  show "bounded (observe rt key adv peer now)"
    unfolding bounded_def observe_source using b assms(2) by (auto split: if_splits option.splits)
  show "recorded (observe rt key adv peer now) k a" if r: "recorded rt k a"
  proof -
    obtain d where d: "map_of (rt_sources rt) (k, adv_routerID a) = Some d"
      "rank (se_seqno d) (se_metric d) \<le> rank (adv_seqno a) (adv_metric a)" using r by (auto simp: recorded_def)
    show ?thesis
    proof (cases "adv_metric adv \<noteq> MetricInfinity \<and> (k, adv_routerID a) = (key, adv_routerID adv)")
      case True
      then have e: "map_of (rt_sources rt) (key, adv_routerID adv) = Some d" using d(1) by simp
      show ?thesis using r True d(2) better_rank [OF assms(2) b [OF e], of "adv_metric adv"]
        by (auto simp: recorded_def observe_source e)
    next
      case False
      then show ?thesis using r by (auto simp: recorded_def observe_source)
    qed
  qed
  show "recorded (observe rt key adv peer now) key adv" if "adv_metric adv \<noteq> MetricInfinity"
  proof (cases "map_of (rt_sources rt) (key, adv_routerID adv)")
    case None
    then show ?thesis using that assms(2) by (simp add: recorded_def observe_source)
  next
    case (Some d)
    then show ?thesis using that assms(2) better_rank [OF assms(2) b [OF Some], of "adv_metric adv"]
      by (auto simp: recorded_def observe_source)
  qed
qed

lemma recorded_sources: "rt_sources rt' = rt_sources rt \<Longrightarrow> recorded rt' = recorded rt \<and> bounded rt' = bounded rt"
  by (auto simp: recorded_def bounded_def fun_eq_iff)

lemma step_distances:
  assumes "mesh_ok own peerOf m" "allowed own peerOf m i op"
  shows "bounded (tableStep nb mexp (m_tables m i) op)"
    "recorded (m_tables m i) k a \<Longrightarrow> recorded (tableStep nb mexp (m_tables m i) op) k a"
    "(k, a) \<in> announced (m_tables m i) op \<Longrightarrow> recorded (tableStep nb mexp (m_tables m i) op) k a"
proof -
  let ?rt = "m_tables m i" and ?rt' = "tableStep nb mexp (m_tables m i) op"
  have b: "bounded ?rt" and c: "table_consistent (heard own peerOf (m_sent m) i) ?rt" using assms(1) by (auto simp: mesh_ok_def)
  have keep: "bounded ?rt' \<and> (recorded ?rt k a \<longrightarrow> recorded ?rt' k a) \<and> ((k, a) \<in> announced ?rt op \<longrightarrow> recorded ?rt' k a)"
    if "sourceView ?rt' = sourceView ?rt" "announced ?rt op = {}"
    using recorded_sources [of ?rt' ?rt] that b by (simp add: sourceView_def)
  have "bounded ?rt' \<and> (recorded ?rt k a \<longrightarrow> recorded ?rt' k a) \<and> ((k, a) \<in> announced ?rt op \<longrightarrow> recorded ?rt' k a)"
  proof (cases op)
    case (SweepExpired now)
    then show ?thesis using recorded_sources [OF sweep_sources [OF c]] assms(2) b by simp
  next
    case (Originated key rid seqno peer now)
    then show ?thesis
      using observe_recorded [OF b, where adv = "\<lparr>adv_routerID = rid, adv_seqno = seqno, adv_metric = 0\<rparr>" and key = key and peer = peer and now = now] assms(2) b
      by (auto simp: MetricInfinity_def)
  next
    case (Advertised key peer now)
    show ?thesis
    proof (cases "\<exists>e n. map_of (rt_entries ?rt) key = Some e \<and> sel_neighbor (ke_selected e) = Some n")
      case True
      then obtain e n where e: "map_of (rt_entries ?rt) key = Some e" "sel_neighbor (ke_selected e) = Some n" by blast
      note s = selected_heard [OF assms(1) e]
      let ?a = "\<lparr>adv_routerID = sel_routerID (ke_selected e), adv_seqno = sel_seqno (ke_selected e), adv_metric = sel_cost (ke_selected e)\<rparr>"
      have "unat (adv_seqno ?a) < 2 ^ 15" "adv_metric ?a \<noteq> MetricInfinity" using s by auto
      then show ?thesis using observe_recorded [OF b, where adv = ?a and key = key and peer = peer and now = now] e by (simp add: Advertised Let_def)
    next
      case False
      then show ?thesis using b by (auto simp: Advertised Let_def split: option.splits)
    qed
  qed (rule keep, simp only: step_view, simp)+
  then show "bounded ?rt'" "recorded ?rt k a \<Longrightarrow> recorded ?rt' k a" "(k, a) \<in> announced ?rt op \<Longrightarrow> recorded ?rt' k a" by blast+
qed


section \<open>Loop freedom\<close>

lemma heard_mono: "heard own peerOf sent i k n a \<Longrightarrow> sent \<subseteq> sent' \<Longrightarrow> heard own peerOf sent' i k n a"
  by (auto simp: heard_def)

lemma mesh_step_ok:
  assumes "mesh_ok own peerOf m" "mesh_step own peerOf mexp m m'"
  shows "mesh_ok own peerOf m'"
proof -
  obtain i op nb where al: "allowed own peerOf m i op" and m': "m' = \<lparr>m_tables = (m_tables m)(i := tableStep nb mexp (m_tables m i) op),
       m_sent = m_sent m \<union> {i} \<times> announced (m_tables m i) op\<rparr>"
    using assms(2) by (blast elim: mesh_stepE)
  let ?rt = "tableStep nb mexp (m_tables m i) op"
  have c: "table_consistent (heard own peerOf (m_sent m) j) (m_tables m j)" "bounded (m_tables m j)" for j
    using assms(1) by (auto simp: mesh_ok_def)
  have "table_consistent (heard own peerOf (m_sent m) i) ?rt"
    using al by (intro heardRoute.step_ok [OF c(1)]) auto
  then have t: "table_consistent (heard own peerOf (m_sent m') j) (m_tables m' j)" for j
    using c(1) [of j] by (auto simp: m' intro!: consistent_mono [OF _ heard_mono])
  note d = step_distances [OF assms(1) al, where nb = nb and mexp = mexp]
  have "recorded (m_tables m' j) k a" if "(j, k, a) \<in> m_sent m'" for j k a
    using that assms(1) d(2,3) [where k = k and a = a] by (auto simp: m' mesh_ok_def)
  then show ?thesis using t c(2) d(1) by (auto simp: mesh_ok_def m')
qed

lemma mesh_run_ok: "mesh_run own peerOf mexp m \<Longrightarrow> mesh_ok own peerOf m"
proof (induction rule: mesh_run.induct)
  case (start tau trigger cost)
  then show ?case using table_consistent_new by (simp add: mesh_ok_def bounded_def newRouteTable_def)
qed (rule mesh_step_ok)

definition nextHops :: "(nat \<Rightarrow> nat \<Rightarrow> nat) \<Rightarrow> mesh \<Rightarrow> routeKey \<Rightarrow> routerid \<Rightarrow> (nat \<times> nat) set" where
  "nextHops peerOf m key rid = {(i, peerOf i n) | i n e. map_of (rt_entries (m_tables m i)) key = Some e \<and>
     sel_neighbor (ke_selected e) = Some n \<and> sel_routerID (ke_selected e) = rid}"

definition distance :: "mesh \<Rightarrow> routeKey \<Rightarrow> routerid \<Rightarrow> nat \<Rightarrow> nat" where
  "distance m key rid i = (case map_of (rt_sources (m_tables m i)) (key, rid) of
     None \<Rightarrow> 2 ^ 31 + 65536 | Some d \<Rightarrow> rank (se_seqno d) (se_metric d))"

lemma rank_bound: "rank s m < 2 ^ 31 + 65536"
proof -
  have "(2 ^ 15 - unat s) * 65536 \<le> 2 ^ 15 * 65536" by (rule mult_le_mono1) simp
  then show ?thesis using metric_bound [of m] by (simp add: rank_def)
qed

lemma next_hop_closer:
  assumes "mesh_ok own peerOf m" "(i, j) \<in> nextHops peerOf m key rid"
  shows "distance m key rid j < distance m key rid i"
proof -
  obtain n e where e: "j = peerOf i n" "map_of (rt_entries (m_tables m i)) key = Some e" "sel_neighbor (ke_selected e) = Some n"
    "sel_routerID (ke_selected e) = rid" using assms(2) by (auto simp: nextHops_def)
  obtain r where r: "(j, key, \<lparr>adv_routerID = rid, adv_seqno = sel_seqno (ke_selected e), adv_metric = r\<rparr>) \<in> m_sent m"
    "\<And>d. map_of (rt_sources (m_tables m i)) (key, rid) = Some d \<Longrightarrow>
      rank (sel_seqno (ke_selected e)) r < rank (se_seqno d) (se_metric d)"
    using selected_heard [OF assms(1) e(2,3)] e by auto
  obtain d where d: "map_of (rt_sources (m_tables m j)) (key, rid) = Some d"
    "rank (se_seqno d) (se_metric d) \<le> rank (sel_seqno (ke_selected e)) r"
    using assms(1) r(1) by (auto simp: mesh_ok_def recorded_def)
  then show ?thesis using r(2) rank_bound by (auto simp: distance_def split: option.split intro: le_less_trans)
qed



text \<open>Node 0 originates a prefix, node 1 hears of it over a live link and selects it.\<close>

definition sampleAdv :: advertisement where "sampleAdv = \<lparr>adv_routerID = 5, adv_seqno = 1, adv_metric = 0\<rparr>"

definition sampleOwn :: "nat \<Rightarrow> routerid" where "sampleOwn i = 5 + of_nat i"

definition originator :: mesh where
  "originator = \<lparr>m_tables = (\<lambda>_. sampleTable)(0 := observe sampleTable sampleKey sampleAdv [] 0), m_sent = {(0, sampleKey, sampleAdv)}\<rparr>"

definition listener :: mesh where
  "listener = originator\<lparr>m_tables := (m_tables originator)
     (1 := rt_update (\<lambda>_. liveNeighbor ''p'') (\<lambda>_ _. 0) sampleTable 0 sampleKey sampleAdv 5 50)\<rparr>"

lemma originator_run: "mesh_run sampleOwn (\<lambda>i n. n) (\<lambda>_ _. 0) originator"
proof -
  let ?m = "\<lparr>m_tables = (\<lambda>i. newRouteTable 0 1 DefaultCostParams), m_sent = {}\<rparr>"
  have "mesh_step sampleOwn (\<lambda>i n. n) (\<lambda>_ _. 0) ?m
      \<lparr>m_tables = (m_tables ?m)(0 := tableStep (\<lambda>_. liveNeighbor []) (\<lambda>_ _. 0) (m_tables ?m 0) (Originated sampleKey 5 1 [] 0)),
       m_sent = m_sent ?m \<union> {0} \<times> announced (m_tables ?m 0) (Originated sampleKey 5 1 [] 0)\<rparr>"
    by (rule mesh_step.step) (simp add: sampleOwn_def)
  moreover have "\<lparr>m_tables = (m_tables ?m)(0 := tableStep (\<lambda>_. liveNeighbor []) (\<lambda>_ _. 0) (m_tables ?m 0) (Originated sampleKey 5 1 [] 0)),
       m_sent = m_sent ?m \<union> {0} \<times> announced (m_tables ?m 0) (Originated sampleKey 5 1 [] 0)\<rparr> = originator"
    by (auto simp: originator_def sampleTable_def sampleAdv_def newRouteTable_def)
  ultimately show ?thesis using mesh_run.start [of sampleOwn "\<lambda>i n. n" "\<lambda>_ _. 0" "\<lambda>_. 0" "\<lambda>_. 1" "\<lambda>_. DefaultCostParams"]
    mesh_run.step by metis
qed

lemma listener_run: "mesh_run sampleOwn (\<lambda>i n. n) (\<lambda>_ _. 0) listener"
proof -
  have "mesh_step sampleOwn (\<lambda>i n. n) (\<lambda>_ _. 0) originator
      \<lparr>m_tables = (m_tables originator)(1 := tableStep (\<lambda>_. liveNeighbor ''p'') (\<lambda>_ _. 0) (m_tables originator 1) (Update 0 sampleKey sampleAdv 5 50)),
       m_sent = m_sent originator \<union> {1} \<times> announced (m_tables originator 1) (Update 0 sampleKey sampleAdv 5 50)\<rparr>"
    by (rule mesh_step.step) (simp add: sampleOwn_def heard_def originator_def sampleAdv_def)
  moreover have "\<lparr>m_tables = (m_tables originator)(1 := tableStep (\<lambda>_. liveNeighbor ''p'') (\<lambda>_ _. 0) (m_tables originator 1) (Update 0 sampleKey sampleAdv 5 50)),
       m_sent = m_sent originator \<union> {1} \<times> announced (m_tables originator 1) (Update 0 sampleKey sampleAdv 5 50)\<rparr> = listener"
    by (simp add: listener_def originator_def)
  ultimately show ?thesis using originator_run mesh_run.step by metis
qed

lemma listener_selects: "(1, 0) \<in> nextHops (\<lambda>i n. n) listener sampleKey 5"
proof -
  let ?nb = "\<lambda>_ :: nat. liveNeighbor ''p''" and ?r = "storeRoute newRoute sampleAdv 5 50"
  let ?e = "newKeyEntry\<lparr>ke_routes := [(0, ?r)]\<rparr>" and ?m = "\<lambda>_ _. 0 :: real"
  let ?rt = "sampleTable\<lparr>rt_entries := [(sampleKey, ?e)]\<rparr>"
  have f: "feasible rt sampleKey sampleAdv p" if "sourceView rt = sourceView sampleTable" for rt p
    unfolding feasible_view [OF that]
    by (simp add: feasible_def sampleTable_def newRouteTable_def maxSources_def maxOriginsPerPrefix_def maxSourcesPerNeighbor_def
        maxOriginsPerPrefixPerNeighbor_def)
  have t: "forgetRetraction sampleTable 0 = sampleTable" "rt_entries sampleTable = []" "feasible sampleTable sampleKey sampleAdv p"
    "adv_metric sampleAdv \<noteq> MetricInfinity" "ke_routes newKeyEntry = []" for p
    using f [OF refl, of p] by (simp_all add: forgetRetraction_def sampleTable_def newRouteTable_def sampleAdv_def MetricInfinity_def newKeyEntry_def)
  have u: "m_tables listener 1 = selectRoute ?nb ?m ?rt sampleKey ?e 50"
    by (simp add: listener_def rt_update_def acquire_def t maxRouteKeys_def Let_def)
  have "max 1 (linkCost (liveNeighbor ''p'') 50 DefaultCostParams) = 96" unfolding live_cost by (simp add: max_def)
  then have "route_cost ?r (?nb 0) 50 (rt_cost ?rt) \<noteq> MetricInfinity"
    by (simp add: route_cost_def storeRoute_def Let_def sampleAdv_def sampleTable_def newRouteTable_def metric_le(2) saturatingAdd_unat)
  then have "candidateRoute ?nb ?rt sampleKey 50 0 ?r" using f by (simp add: candidateRoute_def anyRoute.storeRoute_adv)
  then obtain e where e: "map_of (rt_entries (m_tables listener 1)) sampleKey = Some e" "sel_neighbor (ke_selected e) \<noteq> None"
    using selectRoute_finds [of ?e 0 ?r 50 ?nb ?rt sampleKey ?m] u by (auto simp: storeRoute_def Let_def sampleAdv_def MetricInfinity_def)
  then obtain n where n: "sel_neighbor (ke_selected e) = Some n" by blast
  have ok: "mesh_ok sampleOwn (\<lambda>i n. n) listener" by (rule mesh_run_ok [OF listener_run])
  then have "(n, sampleKey, \<lparr>adv_routerID = sel_routerID (ke_selected e), adv_seqno = sel_seqno (ke_selected e), adv_metric = r\<rparr>) \<in> m_sent listener
      \<Longrightarrow> n = 0 \<and> sel_routerID (ke_selected e) = 5" for r by (simp add: listener_def originator_def sampleAdv_def)
  then have "n = 0" "sel_routerID (ke_selected e) = 5" using selected_heard [OF ok e(1) n] by auto
  then show ?thesis using e(1) n by (auto simp: nextHops_def)
qed


end
