(* ===== verification/Ike_Message.thy ===== *)
theory Ike_Message
  imports Prelude
begin

unbundle bit_operations_syntax

text \<open>
  The IKEv2 wire format of \<open>ike/header.go\<close>, \<open>ike/payload.go\<close>, \<open>ike/payloads_sa.go\<close> and
  \<open>ike/payloads_misc.go\<close>: the message header, the chain of payloads, and the bodies of the SA, KE,
  Notify, Delete, Identification and Traffic Selector payloads, each with its encoder and its
  decoder. The lemmas show that every decoder reads back what its encoder wrote, and that the
  decoders of the payload chains always end.

  A payload, proposal, transform or selector length is the \<open>uint16\<close> the wire carries; an encoder
  truncates a longer one as the code does, so the round trips state the bound they need.
\<close>

section \<open>Model\<close>

type_synonym PayloadType = byte
type_synonym ProtocolID = byte

abbreviation (input) IKE_SA_INIT :: byte where "IKE_SA_INIT \<equiv> 34"
abbreviation (input) IKE_AUTH :: byte where "IKE_AUTH \<equiv> 35"
abbreviation (input) CREATE_CHILD_SA :: byte where "CREATE_CHILD_SA \<equiv> 36"
abbreviation (input) INFORMATIONAL :: byte where "INFORMATIONAL \<equiv> 37"

abbreviation (input) FlagInitiator :: byte where "FlagInitiator \<equiv> 8"
abbreviation (input) FlagResponse :: byte where "FlagResponse \<equiv> 32"

abbreviation (input) PayloadNone :: PayloadType where "PayloadNone \<equiv> 0"
abbreviation (input) PayloadSA :: PayloadType where "PayloadSA \<equiv> 33"
abbreviation (input) PayloadKE :: PayloadType where "PayloadKE \<equiv> 34"
abbreviation (input) PayloadIDi :: PayloadType where "PayloadIDi \<equiv> 35"
abbreviation (input) PayloadIDr :: PayloadType where "PayloadIDr \<equiv> 36"
abbreviation (input) PayloadAUTH :: PayloadType where "PayloadAUTH \<equiv> 39"
abbreviation (input) PayloadNonce :: PayloadType where "PayloadNonce \<equiv> 40"
abbreviation (input) PayloadN :: PayloadType where "PayloadN \<equiv> 41"
abbreviation (input) PayloadD :: PayloadType where "PayloadD \<equiv> 42"
abbreviation (input) PayloadV :: PayloadType where "PayloadV \<equiv> 43"
abbreviation (input) PayloadTSi :: PayloadType where "PayloadTSi \<equiv> 44"
abbreviation (input) PayloadTSr :: PayloadType where "PayloadTSr \<equiv> 45"
abbreviation (input) PayloadSK :: PayloadType where "PayloadSK \<equiv> 46"

abbreviation (input) ProtoIKE :: ProtocolID where "ProtoIKE \<equiv> 1"
abbreviation (input) ProtoAH :: ProtocolID where "ProtoAH \<equiv> 2"
abbreviation (input) ProtoESP :: ProtocolID where "ProtoESP \<equiv> 3"

abbreviation (input) TransEncr :: byte where "TransEncr \<equiv> 1"
abbreviation (input) TransPRF :: byte where "TransPRF \<equiv> 2"
abbreviation (input) TransInteg :: byte where "TransInteg \<equiv> 3"
abbreviation (input) TransDH :: byte where "TransDH \<equiv> 4"
abbreviation (input) TransESN :: byte where "TransESN \<equiv> 5"

abbreviation (input) AttrKeyLength :: u16 where "AttrKeyLength \<equiv> 14"

abbreviation (input) TS_IPV4_ADDR_RANGE :: byte where "TS_IPV4_ADDR_RANGE \<equiv> 7"
abbreviation (input) TS_IPV6_ADDR_RANGE :: byte where "TS_IPV6_ADDR_RANGE \<equiv> 8"

datatype wire_error =
    ShortHeader | HeaderLengthSmall | HeaderLengthMismatch
  | TruncatedPayloadHeader | InvalidPayloadLength | TrailingBytes | TrailingAfterSK
  | CriticalInResponse
  | ShortTransform | TransformMore | TransformLength | TruncatedAttribute | AttributeLength
  | ShortProposal | ProposalMore | ProposalLength | ProposalSPITruncated
  | TransformCountShort | TransformCountLong | TrailingInProposal
  | TrailingAfterProposal | ProposalChainOpen
  | ShortKE | ShortNotify | NotifySPITruncated
  | ShortDelete | IKEDeleteHasSPIs | DeleteSPISize | DeleteProtocol | DeleteLength
  | ShortID | ShortTS | TruncatedSelector | SelectorLength | SelectorAddressLength | TrailingAfterTS

subsection \<open>The header\<close>

record Header =
  SPIInitiator :: u64
  SPIResponder :: u64
  NextPayload :: PayloadType
  MajorVersion :: byte
  MinorVersion :: byte
  ExchangeType :: byte
  Flags :: byte
  MessageID :: u32
  HLength :: u32

abbreviation (input) HeaderLen :: nat where "HeaderLen \<equiv> 28"

definition IsResponse :: "Header \<Rightarrow> bool" where
  "IsResponse h = (Flags h AND FlagResponse \<noteq> 0)"

definition IsInitiator :: "Header \<Rightarrow> bool" where
  "IsInitiator h = (Flags h AND FlagInitiator \<noteq> 0)"

definition encodeHeader :: "Header \<Rightarrow> bytes" where
  "encodeHeader h =
     put64 (SPIInitiator h) @ put64 (SPIResponder h)
     @ [NextPayload h, 0x20, ExchangeType h, Flags h] @ put32 (MessageID h) @ put32 (HLength h)"

definition decodeHeader :: "bytes \<Rightarrow> (wire_error, Header) result" where
  "decodeHeader b =
     (if length b < HeaderLen then Inl ShortHeader
      else Inr \<lparr>SPIInitiator = rd64 b, SPIResponder = rd64 (drop 8 b),
                NextPayload = b ! 16, MajorVersion = drop_bit 4 (b ! 17),
                MinorVersion = b ! 17 AND 0x0f, ExchangeType = b ! 18, Flags = b ! 19,
                MessageID = rd32 (drop 20 b), HLength = rd32 (drop 24 b)\<rparr>)"

subsection \<open>Payload chains\<close>

record RawPayload =
  PType :: PayloadType
  Critical :: bool
  Body :: bytes

record Message =
  MHeader :: Header
  Payloads :: "RawPayload list"
  skHeaderOffset :: nat

abbreviation (input) genericPayloadHeaderLen :: nat where "genericPayloadHeaderLen \<equiv> 4"

fun validateResponseCriticalFlags :: "RawPayload list \<Rightarrow> (wire_error, unit) result" where
  "validateResponseCriticalFlags [] = Inr ()"
| "validateResponseCriticalFlags (p # ps) =
     (if Critical p then Inl CriticalInResponse else validateResponseCriticalFlags ps)"

text \<open>\<open>chainType\<close> is the \<open>next\<close> of the loop: the type of the payload that follows, or none.\<close>

definition chainType :: "RawPayload list \<Rightarrow> PayloadType" where
  "chainType ps = (case ps of [] \<Rightarrow> PayloadNone | p # _ \<Rightarrow> PType p)"

fun encodePayloadChain :: "RawPayload list \<Rightarrow> bytes" where
  "encodePayloadChain [] = []"
| "encodePayloadChain (p # ps) =
     [chainType ps, if Critical p then 0x80 else 0]
     @ put16 (of_nat (genericPayloadHeaderLen + length (Body p))) @ Body p @ encodePayloadChain ps"

definition encodeMessage :: "Message \<Rightarrow> nat \<Rightarrow> bytes" where
  "encodeMessage m reserveTrailer =
     (let body = encodePayloadChain (Payloads m);
          h = (MHeader m)\<lparr>NextPayload := chainType (Payloads m),
                          HLength := of_nat (HeaderLen + length body + reserveTrailer)\<rparr>
      in encodeHeader h @ body)"

function decodePayloadChain :: "PayloadType \<Rightarrow> bytes \<Rightarrow> (wire_error, RawPayload list) result" where
  "decodePayloadChain nxt rest =
     (if nxt = PayloadNone then if rest = [] then Inr [] else Inl TrailingBytes
      else if length rest < genericPayloadHeaderLen then Inl TruncatedPayloadHeader
      else let plLen = unat (rd16 (drop 2 rest)) in
        if plLen < genericPayloadHeaderLen \<or> length rest < plLen then Inl InvalidPayloadLength
        else case decodePayloadChain (rest ! 0) (drop plLen rest) of
               Inl e \<Rightarrow> Inl e
             | Inr ps \<Rightarrow> Inr (\<lparr>PType = nxt, Critical = rest ! 1 AND 0x80 \<noteq> 0,
                               Body = slice genericPayloadHeaderLen plLen rest\<rparr> # ps))"
  by pat_completeness auto
termination by (relation "measure (length \<circ> snd)") auto

declare decodePayloadChain.simps [simp del]

text \<open>
  The walk of \<open>DecodeMessage\<close>: \<open>whole\<close> is the header's length field, and the offset of the SK
  payload's header is what is already consumed. The walk ends at an SK payload, which must be the
  last thing of the message.
\<close>

function decodeOuterChain ::
  "nat \<Rightarrow> PayloadType \<Rightarrow> bytes \<Rightarrow> (wire_error, RawPayload list \<times> nat) result" where
  "decodeOuterChain whole nxt rest =
     (if nxt = PayloadNone then if rest = [] then Inr ([], 0) else Inl TrailingBytes
      else if length rest < genericPayloadHeaderLen then Inl TruncatedPayloadHeader
      else let plLen = unat (rd16 (drop 2 rest)) in
        if plLen < genericPayloadHeaderLen \<or> length rest < plLen then Inl InvalidPayloadLength
        else let p = \<lparr>PType = nxt, Critical = rest ! 1 AND 0x80 \<noteq> 0,
                      Body = slice genericPayloadHeaderLen plLen rest\<rparr> in
          if nxt = PayloadSK
          then if drop plLen rest \<noteq> [] then Inl TrailingAfterSK
               else Inr ([p], whole - length rest)
          else case decodeOuterChain whole (rest ! 0) (drop plLen rest) of
                 Inl e \<Rightarrow> Inl e
               | Inr (ps, off) \<Rightarrow> Inr (p # ps, off))"
  by pat_completeness auto
termination by (relation "measure (length \<circ> snd \<circ> snd)") auto

declare decodeOuterChain.simps [simp del]

definition DecodeMessage :: "bytes \<Rightarrow> (wire_error, Message) result" where
  "DecodeMessage b =
     (case decodeHeader b of Inl e \<Rightarrow> Inl e
      | Inr h \<Rightarrow>
          if unat (HLength h) < HeaderLen then Inl HeaderLengthSmall
          else if unat (HLength h) \<noteq> length b then Inl HeaderLengthMismatch
          else case decodeOuterChain (unat (HLength h)) (NextPayload h) (drop HeaderLen b) of
                 Inl e \<Rightarrow> Inl e
               | Inr (ps, off) \<Rightarrow> Inr \<lparr>MHeader = h, Payloads = ps, skHeaderOffset = off\<rparr>)"

definition findPayload :: "Message \<Rightarrow> PayloadType \<Rightarrow> RawPayload option" where
  "findPayload m t = find (\<lambda>p. PType p = t) (Payloads m)"

subsection \<open>Security association payloads\<close>

record Transform =
  TType :: byte
  TID :: u16
  KeyLengthBits :: u16
  UnsupportedAttributes :: bool

definition encodeTransform :: "Transform \<Rightarrow> bool \<Rightarrow> bytes" where
  "encodeTransform t final =
     (let attrs = (if KeyLengthBits t \<noteq> 0
                   then put16 (0x8000 OR AttrKeyLength) @ put16 (KeyLengthBits t) else [])
      in [if final then 0 else 3, 0] @ put16 (of_nat (8 + length attrs))
         @ [TType t, 0] @ put16 (TID t) @ attrs)"

text \<open>The attribute loop of \<open>decodeTransform\<close>; \<open>haveKeyLength\<close> is its flag.\<close>

function decodeAttributes :: "bytes \<Rightarrow> bool \<Rightarrow> Transform \<Rightarrow> (wire_error, Transform) result" where
  "decodeAttributes attrs haveKeyLength t =
     (if attrs = [] then Inr t
      else if length attrs < 4 then Inl TruncatedAttribute
      else let att = rd16 attrs in
        if att AND 0x8000 \<noteq> 0 then
          if att AND 0x7fff \<noteq> AttrKeyLength \<or> haveKeyLength
          then decodeAttributes (drop 4 attrs) haveKeyLength (t\<lparr>UnsupportedAttributes := True\<rparr>)
          else let bits = rd16 (drop 2 attrs) in
            decodeAttributes (drop 4 attrs) True
              (if bits = 0 then t\<lparr>KeyLengthBits := bits, UnsupportedAttributes := True\<rparr>
               else t\<lparr>KeyLengthBits := bits\<rparr>)
        else let len = 4 + unat (rd16 (drop 2 attrs)) in
          if length attrs < len then Inl AttributeLength
          else decodeAttributes (drop len attrs) haveKeyLength (t\<lparr>UnsupportedAttributes := True\<rparr>))"
  by pat_completeness auto
termination by (relation "measure (length \<circ> fst)") auto

declare decodeAttributes.simps [simp del]

definition decodeTransform :: "bytes \<Rightarrow> (wire_error, Transform \<times> bool \<times> bytes) result" where
  "decodeTransform b =
     (if length b < 8 then Inl ShortTransform
      else if b ! 0 \<noteq> 0 \<and> b ! 0 \<noteq> 3 then Inl TransformMore
      else let tlen = unat (rd16 (drop 2 b)) in
        if tlen < 8 \<or> length b < tlen then Inl TransformLength
        else case decodeAttributes (slice 8 tlen b) False
                    \<lparr>TType = b ! 4, TID = rd16 (drop 6 b), KeyLengthBits = 0,
                     UnsupportedAttributes = False\<rparr> of
               Inl e \<Rightarrow> Inl e
             | Inr t \<Rightarrow> Inr (t, b ! 0 = 3, drop tlen b))"

record Proposal =
  Number :: byte
  PProtocol :: ProtocolID
  PSPI :: bytes
  Transforms :: "Transform list"

fun encodeTransforms :: "Transform list \<Rightarrow> bytes" where
  "encodeTransforms [] = []"
| "encodeTransforms (t # ts) = encodeTransform t (ts = []) @ encodeTransforms ts"

definition encodeProposal :: "Proposal \<Rightarrow> bool \<Rightarrow> bytes" where
  "encodeProposal p final =
     (let tbody = encodeTransforms (Transforms p); hdrLen = 8 + length (PSPI p)
      in [if final then 0 else 2, 0] @ put16 (of_nat (hdrLen + length tbody))
         @ [Number p, PProtocol p, of_nat (length (PSPI p)), of_nat (length (Transforms p))]
         @ PSPI p @ tbody)"

text \<open>The loop over the declared count; the argument counts the transforms still to come.\<close>

fun decodeTransforms :: "nat \<Rightarrow> bytes \<Rightarrow> (wire_error, Transform list \<times> bytes) result" where
  "decodeTransforms 0 rest = Inr ([], rest)"
| "decodeTransforms (Suc n) rest =
     (case decodeTransform rest of Inl e \<Rightarrow> Inl e
      | Inr (t, again, nxt) \<Rightarrow>
          if 0 < n \<and> \<not> again then Inl TransformCountShort
          else if n = 0 \<and> again then Inl TransformCountLong
          else case decodeTransforms n nxt of
                 Inl e \<Rightarrow> Inl e
               | Inr (ts, rest') \<Rightarrow> Inr (t # ts, rest'))"

definition decodeProposal :: "bytes \<Rightarrow> (wire_error, Proposal \<times> bool \<times> bytes) result" where
  "decodeProposal b =
     (if length b < 8 then Inl ShortProposal
      else if b ! 0 \<noteq> 0 \<and> b ! 0 \<noteq> 2 then Inl ProposalMore
      else let plen = unat (rd16 (drop 2 b)) in
        if plen < 8 \<or> length b < plen then Inl ProposalLength
        else let spiSize = unat (b ! 6); numTrans = unat (b ! 7); rest = slice 8 plen b in
          if length rest < spiSize then Inl ProposalSPITruncated
          else case decodeTransforms numTrans (drop spiSize rest) of
                 Inl e \<Rightarrow> Inl e
               | Inr (ts, rest') \<Rightarrow>
                   if rest' \<noteq> [] then Inl TrailingInProposal
                   else Inr (\<lparr>Number = b ! 4, PProtocol = b ! 5, PSPI = take spiSize rest,
                              Transforms = ts\<rparr>, b ! 0 = 2, drop plen b))"

fun EncodeSA :: "Proposal list \<Rightarrow> bytes" where
  "EncodeSA [] = []"
| "EncodeSA (p # ps) = encodeProposal p (ps = []) @ EncodeSA ps"

lemma decodeProposal_shorter:
  "decodeProposal b = Inr (p, again, rest) \<Longrightarrow> length rest < length b"
  by (auto simp: decodeProposal_def Let_def split: if_splits sum.splits prod.splits)

function DecodeSA :: "bytes \<Rightarrow> (wire_error, Proposal list) result" where
  "DecodeSA rest =
     (if rest = [] then Inr []
      else case decodeProposal rest of Inl e \<Rightarrow> Inl e
      | Inr (p, again, nxt) \<Rightarrow>
          if \<not> again \<and> nxt \<noteq> [] then Inl TrailingAfterProposal
          else if again \<and> nxt = [] then Inl ProposalChainOpen
          else case DecodeSA nxt of Inl e \<Rightarrow> Inl e | Inr ps \<Rightarrow> Inr (p # ps))"
  by pat_completeness auto
termination by (relation "measure length") (auto dest: decodeProposal_shorter)

declare DecodeSA.simps [simp del]

subsection \<open>Key exchange, notify, delete and identification payloads\<close>

definition EncodeKE :: "u16 \<Rightarrow> bytes \<Rightarrow> bytes" where
  "EncodeKE grp pub = put16 grp @ [0, 0] @ pub"

definition DecodeKE :: "bytes \<Rightarrow> (wire_error, u16 \<times> bytes) result" where
  "DecodeKE body = (if length body < 4 then Inl ShortKE else Inr (rd16 body, drop 4 body))"

record Notify =
  NProtocol :: ProtocolID
  NSPI :: bytes
  NType :: u16
  NData :: bytes

definition EncodeNotify :: "Notify \<Rightarrow> bytes" where
  "EncodeNotify n = [NProtocol n, of_nat (length (NSPI n))] @ put16 (NType n) @ NSPI n @ NData n"

definition DecodeNotify :: "bytes \<Rightarrow> (wire_error, Notify) result" where
  "DecodeNotify body =
     (if length body < 4 then Inl ShortNotify
      else let spiSize = unat (body ! 1) in
        if length body < 4 + spiSize then Inl NotifySPITruncated
        else Inr \<lparr>NProtocol = body ! 0, NSPI = slice 4 (4 + spiSize) body,
                  NType = rd16 (drop 2 body), NData = drop (4 + spiSize) body\<rparr>)"

record Delete =
  DProtocol :: ProtocolID
  DSPIs :: "bytes list"

definition EncodeDelete :: "Delete \<Rightarrow> bytes" where
  "EncodeDelete d =
     (let spiSize = (case DSPIs d of [] \<Rightarrow> 0 | s # _ \<Rightarrow> length s)
      in [DProtocol d, of_nat spiSize] @ put16 (of_nat (length (DSPIs d))) @ concat (DSPIs d))"

text \<open>
  The loop that cuts the SPIs apart. It is reached with \<open>rest\<close> empty or \<open>spiSize\<close> 4, and the
  length of \<open>rest\<close> a multiple of \<open>spiSize\<close>; the argument counts the SPIs.
\<close>

fun cutSPIs :: "nat \<Rightarrow> nat \<Rightarrow> bytes \<Rightarrow> bytes list" where
  "cutSPIs 0 spiSize rest = []"
| "cutSPIs (Suc n) spiSize rest = take spiSize rest # cutSPIs n spiSize (drop spiSize rest)"

definition DecodeDelete :: "bytes \<Rightarrow> (wire_error, Delete) result" where
  "DecodeDelete body =
     (if length body < 4 then Inl ShortDelete
      else let protocol = body ! 0; spiSize = unat (body ! 1); count = unat (rd16 (drop 2 body)) in
        if protocol = ProtoIKE \<and> (spiSize \<noteq> 0 \<or> count \<noteq> 0) then Inl IKEDeleteHasSPIs
        else if (protocol = ProtoAH \<or> protocol = ProtoESP) \<and> spiSize \<noteq> 4 then Inl DeleteSPISize
        else if protocol \<noteq> ProtoIKE \<and> protocol \<noteq> ProtoAH \<and> protocol \<noteq> ProtoESP
        then Inl DeleteProtocol
        else if length body \<noteq> 4 + spiSize * count then Inl DeleteLength
        else Inr \<lparr>DProtocol = protocol, DSPIs = cutSPIs count spiSize (drop 4 body)\<rparr>)"

definition EncodeID :: "byte \<Rightarrow> bytes \<Rightarrow> bytes" where
  "EncodeID idType dat = [idType, 0, 0, 0] @ dat"

definition DecodeID :: "bytes \<Rightarrow> (wire_error, byte \<times> bytes) result" where
  "DecodeID body = (if length body < 4 then Inl ShortID else Inr (body ! 0, drop 4 body))"

subsection \<open>Traffic selectors\<close>

record TrafficSelector =
  TSType :: byte
  TSProtocol :: byte
  StartPort :: u16
  EndPort :: u16
  StartAddr :: bytes
  EndAddr :: bytes

text \<open>\<open>net.IP\<close>'s conversions: a 4-in-6 address has a 4-byte form and conversely; \<open>nil\<close> is [].\<close>

definition v4InV6Prefix :: bytes where
  "v4InV6Prefix = replicate 10 0 @ [0xff, 0xff]"

definition To4 :: "bytes \<Rightarrow> bytes" where
  "To4 ip = (if length ip = 4 then ip
             else if length ip = 16 \<and> take 12 ip = v4InV6Prefix then drop 12 ip else [])"

definition To16 :: "bytes \<Rightarrow> bytes" where
  "To16 ip = (if length ip = 4 then v4InV6Prefix @ ip else if length ip = 16 then ip else [])"

definition FullRangeV4 :: TrafficSelector where
  "FullRangeV4 = \<lparr>TSType = TS_IPV4_ADDR_RANGE, TSProtocol = 0, StartPort = 0, EndPort = 0xffff,
     StartAddr = replicate 4 0, EndAddr = replicate 4 0xff\<rparr>"

definition FullRangeV6 :: TrafficSelector where
  "FullRangeV6 = \<lparr>TSType = TS_IPV6_ADDR_RANGE, TSProtocol = 0, StartPort = 0, EndPort = 0xffff,
     StartAddr = replicate 16 0, EndAddr = replicate 16 0xff\<rparr>"

definition encodeSelector :: "TrafficSelector \<Rightarrow> bytes" where
  "encodeSelector ts =
     (let conv = (if TSType ts = TS_IPV6_ADDR_RANGE then To16 else To4);
          addr = conv (StartAddr ts); alen = length addr
      in [TSType ts, TSProtocol ts] @ put16 (of_nat (8 + 2 * alen))
         @ put16 (StartPort ts) @ put16 (EndPort ts)
         @ addr @ go_copy (replicate alen 0) (conv (EndAddr ts)))"

definition EncodeTS :: "TrafficSelector list \<Rightarrow> bytes" where
  "EncodeTS selectors = [of_nat (length selectors), 0, 0, 0] @ concat (map encodeSelector selectors)"

fun decodeSelectors :: "nat \<Rightarrow> bytes \<Rightarrow> (wire_error, TrafficSelector list) result" where
  "decodeSelectors 0 rest = (if rest \<noteq> [] then Inl TrailingAfterTS else Inr [])"
| "decodeSelectors (Suc n) rest =
     (if length rest < 8 then Inl TruncatedSelector
      else let tlen = unat (rd16 (drop 2 rest)) in
        if tlen < 8 \<or> length rest < tlen \<or> (tlen - 8) mod 2 \<noteq> 0 then Inl SelectorLength
        else let alen = (tlen - 8) div 2 in
          if rest ! 0 = TS_IPV4_ADDR_RANGE \<and> alen \<noteq> 4 \<or> rest ! 0 = TS_IPV6_ADDR_RANGE \<and> alen \<noteq> 16
          then Inl SelectorAddressLength
          else case decodeSelectors n (drop tlen rest) of
                 Inl e \<Rightarrow> Inl e
               | Inr tss \<Rightarrow>
                   Inr (\<lparr>TSType = rest ! 0, TSProtocol = rest ! 1, StartPort = rd16 (drop 4 rest),
                         EndPort = rd16 (drop 6 rest), StartAddr = slice 8 (8 + alen) rest,
                         EndAddr = slice (8 + alen) (8 + 2 * alen) rest\<rparr> # tss))"

definition DecodeTS :: "bytes \<Rightarrow> (wire_error, TrafficSelector list) result" where
  "DecodeTS body =
     (if length body < 4 then Inl ShortTS else decodeSelectors (unat (body ! 0)) (drop 4 body))"

section \<open>Round trips\<close>

lemma nth_4: "(a # b # c # d # xs) ! 0 = a" "(a # b # c # d # xs) ! 1 = b"
  "(a # b # c # d # xs) ! 2 = c" "(a # b # c # d # xs) ! 3 = d"
  by simp_all

lemma put32_eq: "put32 w = put16 (ucast (drop_bit 16 w)) @ put16 (ucast w)"
  by (simp add: numeral_eq_Suc) (auto intro!: bit_word_eqI simp: bit_simps)

text \<open>A reader placed behind a prefix of known length, for encoders written as one append.\<close>

lemma drop_behind: "length xs = n \<Longrightarrow> drop n (xs @ ys) = ys" "length xs = n \<Longrightarrow> take n (xs @ ys) = xs"
  by auto

lemma unat_of_nat_small: "n < 2 ^ LENGTH('a) \<Longrightarrow> unat (of_nat n :: 'a::len word) = n"
  by (simp add: unat_of_nat take_bit_nat_eq_self)

lemma rd_header:
  "length p = 16 \<Longrightarrow> (p @ [a, b, c, d] @ q) ! 16 = a"
  "length p = 16 \<Longrightarrow> (p @ [a, b, c, d] @ q) ! 17 = b"
  "length p = 16 \<Longrightarrow> (p @ [a, b, c, d] @ q) ! 18 = c"
  "length p = 16 \<Longrightarrow> (p @ [a, b, c, d] @ q) ! 19 = d"
  by (simp_all add: nth_append)

lemma length_encodeHeader [simp]: "length (encodeHeader h) = HeaderLen"
  by (simp add: encodeHeader_def)

lemma decodeHeader_encode:
  "decodeHeader (encodeHeader h @ rest) = Inr (h\<lparr>MajorVersion := 2, MinorVersion := 0\<rparr>)"
proof -
  let ?p = "put64 (SPIInitiator h) @ put64 (SPIResponder h)"
  let ?q = "put32 (MessageID h) @ put32 (HLength h) @ rest"
  have b: "encodeHeader h @ rest = ?p @ [NextPayload h, 0x20, ExchangeType h, Flags h] @ ?q"
    by (simp add: encodeHeader_def)
  have d: "drop 8 (encodeHeader h @ rest) = put64 (SPIResponder h) @ [NextPayload h, 0x20, ExchangeType h, Flags h] @ ?q"
    "drop 20 (encodeHeader h @ rest) = ?q"
    "drop 24 (encodeHeader h @ rest) = put32 (HLength h) @ rest"
    by (simp_all add: encodeHeader_def)
  have v: "drop_bit 4 (0x20 :: byte) = 2" "0x20 AND 0x0f = (0 :: byte)" by simp_all
  have i: "rd64 (encodeHeader h @ rest) = SPIInitiator h"
    unfolding b by (simp add: append_assoc)
  have n: "(encodeHeader h @ rest) ! 16 = NextPayload h" "(encodeHeader h @ rest) ! 17 = 0x20"
    "(encodeHeader h @ rest) ! 18 = ExchangeType h" "(encodeHeader h @ rest) ! 19 = Flags h"
    unfolding b by (rule rd_header; simp)+
  show ?thesis
    by (simp only: decodeHeader_def d i n v rd_put length_append length_encodeHeader) simp
qed

text \<open>What a payload needs to survive the wire: a type other than none, and a length that fits.\<close>

definition payload_fits :: "RawPayload \<Rightarrow> bool" where
  "payload_fits p \<longleftrightarrow> PType p \<noteq> PayloadNone \<and> length (Body p) + genericPayloadHeaderLen < 2 ^ 16"

lemma payload_head:
  fixes nx :: byte and rest :: bytes
  assumes "payload_fits p"
  defines "b \<equiv> [nx, if Critical p then 0x80 else 0]
     @ put16 (of_nat (genericPayloadHeaderLen + length (Body p))) @ Body p @ rest"
  shows "unat (rd16 (drop 2 b)) = genericPayloadHeaderLen + length (Body p)"
    "b ! 0 = nx" "(b ! 1 AND 0x80 \<noteq> 0) = Critical p"
    "slice genericPayloadHeaderLen (genericPayloadHeaderLen + length (Body p)) b = Body p"
    "drop (genericPayloadHeaderLen + length (Body p)) b = rest"
    "length b = genericPayloadHeaderLen + length (Body p) + length rest"
proof -
  let ?n = "genericPayloadHeaderLen + length (Body p)"
  let ?h = "[nx, if Critical p then 0x80 else 0] @ put16 (of_nat ?n)"
  have b: "b = ?h @ Body p @ rest" "b = (?h @ Body p) @ rest"
    by (simp_all add: b_def)
  show "drop ?n b = rest"
    unfolding b(2) by (rule drop_behind) simp
  show "slice genericPayloadHeaderLen ?n b = Body p"
    by (simp add: b(1) slice_def)
  have "drop 2 b = put16 (of_nat ?n) @ Body p @ rest" by (simp add: b_def)
  moreover have "unat (of_nat ?n :: u16) = ?n"
    using assms(1) by (intro unat_of_nat_small) (simp add: payload_fits_def)
  ultimately show "unat (rd16 (drop 2 b)) = ?n" by (simp only: rd_put)
  show "length b = ?n + length rest" by (simp add: b_def)
qed (simp_all add: b_def)

lemma chainType_simps [simp]: "chainType [] = PayloadNone" "chainType (p # ps) = PType p"
  by (simp_all add: chainType_def)

lemma decodePayloadChain_encode:
  "list_all payload_fits ps \<Longrightarrow>
   decodePayloadChain (chainType ps) (encodePayloadChain ps) = Inr ps"
proof (induction ps)
  case Nil
  then show ?case by (simp add: decodePayloadChain.simps)
next
  case (Cons p ps)
  then have fits: "payload_fits p" and nz: "PType p \<noteq> PayloadNone" by (simp_all add: payload_fits_def)
  from Cons have IH: "decodePayloadChain (chainType ps) (encodePayloadChain ps) = Inr ps" by simp
  note head = payload_head [OF fits, of "chainType ps" "encodePayloadChain ps"]
  show ?case
    unfolding encodePayloadChain.simps
    by (subst decodePayloadChain.simps) (simp only: head chainType_simps Let_def IH sum.case nz if_False, simp)
qed

lemma decodeOuterChain_encode:
  "list_all payload_fits ps \<Longrightarrow> list_all (\<lambda>p. PType p \<noteq> PayloadSK) ps \<Longrightarrow>
   decodeOuterChain whole (chainType ps) (encodePayloadChain ps) = Inr (ps, 0)"
proof (induction ps)
  case Nil
  then show ?case by (simp add: decodeOuterChain.simps)
next
  case (Cons p ps)
  then have fits: "payload_fits p" and nz: "PType p \<noteq> PayloadNone" "PType p \<noteq> PayloadSK"
    by (simp_all add: payload_fits_def)
  from Cons have IH: "decodeOuterChain whole (chainType ps) (encodePayloadChain ps) = Inr (ps, 0)" by simp
  note head = payload_head [OF fits, of "chainType ps" "encodePayloadChain ps"]
  show ?case
    unfolding encodePayloadChain.simps
    by (subst decodeOuterChain.simps)
      (simp only: head chainType_simps Let_def IH sum.case prod.case nz if_False, simp)
qed

definition message_fits :: "Message \<Rightarrow> bool" where
  "message_fits m \<longleftrightarrow> list_all payload_fits (Payloads m)
     \<and> list_all (\<lambda>p. PType p \<noteq> PayloadSK) (Payloads m)
     \<and> HeaderLen + length (encodePayloadChain (Payloads m)) < 2 ^ 32"

lemma DecodeMessage_encode:
  assumes "message_fits m"
  defines "b \<equiv> encodeMessage m 0"
  shows "DecodeMessage b = Inr \<lparr>MHeader = (MHeader m)\<lparr>NextPayload := chainType (Payloads m),
      MajorVersion := 2, MinorVersion := 0, HLength := of_nat (length b)\<rparr>,
    Payloads = Payloads m, skHeaderOffset = 0\<rparr>"
proof -
  let ?body = "encodePayloadChain (Payloads m)"
  let ?h = "(MHeader m)\<lparr>NextPayload := chainType (Payloads m), HLength := of_nat (length b)\<rparr>"
  have len: "length b = HeaderLen + length ?body" by (simp add: b_def encodeMessage_def Let_def)
  then have b: "b = encodeHeader ?h @ ?body" by (simp add: b_def encodeMessage_def Let_def)
  have n: "unat (of_nat (length b) :: u32) = length b"
    using assms(1) by (intro unat_of_nat_small) (simp add: len message_fits_def)
  have chain: "decodeOuterChain w (chainType (Payloads m)) ?body = Inr (Payloads m, 0)" for w
    using assms(1) by (intro decodeOuterChain_encode) (simp_all add: message_fits_def)
  have d: "decodeHeader b = Inr (?h\<lparr>MajorVersion := 2, MinorVersion := 0\<rparr>)"
    by (subst b) (rule decodeHeader_encode)
  have r: "drop HeaderLen b = ?body" by (subst b) (rule drop_behind, simp)
  have "HeaderLen \<le> length b" by (simp add: len)
  then show ?thesis
    by (simp add: DecodeMessage_def d r n chain)
qed

lemma be_bytes_Nil [simp]: "be_bytes n w = [] \<longleftrightarrow> n = 0"
  by (cases n) simp_all

lemma length_encodeTransform [simp]:
  "length (encodeTransform t fin) = (if KeyLengthBits t = 0 then 8 else 12)"
  by (simp add: encodeTransform_def)

lemma decodeTransform_encode:
  assumes "\<not> UnsupportedAttributes t"
  shows "decodeTransform (encodeTransform t fin @ rest) = Inr (t, \<not> fin, rest)"
proof -
  let ?mk = "\<lambda>bits. \<lparr>TType = TType t, TID = TID t, KeyLengthBits = bits, UnsupportedAttributes = False\<rparr>"
  have eta: "?mk (KeyLengthBits t) = t" using assms by simp
  show ?thesis using eta
    by (cases "KeyLengthBits t = 0")
      (simp_all add: decodeTransform_def encodeTransform_def decodeAttributes.simps Let_def slice_def
        nth_append nth_Cons')
qed

lemma decodeTransforms_encode:
  "list_all (\<lambda>t. \<not> UnsupportedAttributes t) ts \<Longrightarrow>
   decodeTransforms (length ts) (encodeTransforms ts @ rest) = Inr (ts, rest)"
  by (induction ts) (auto simp: decodeTransform_encode)

definition proposal_fits :: "Proposal \<Rightarrow> bool" where
  "proposal_fits p \<longleftrightarrow> list_all (\<lambda>t. \<not> UnsupportedAttributes t) (Transforms p)
     \<and> length (PSPI p) < 2 ^ 8 \<and> length (Transforms p) < 2 ^ 8
     \<and> 8 + length (PSPI p) + length (encodeTransforms (Transforms p)) < 2 ^ 16"

lemma decodeProposal_encode:
  assumes "proposal_fits p"
  shows "decodeProposal (encodeProposal p fin @ rest) = Inr (p, \<not> fin, rest)"
proof -
  let ?tb = "encodeTransforms (Transforms p)"
  let ?n = "8 + length (PSPI p) + length ?tb"
  let ?h = "[if fin then 0 else 2, 0] @ put16 (of_nat ?n)
    @ [Number p, PProtocol p, of_nat (length (PSPI p)), of_nat (length (Transforms p))]"
  let ?b = "encodeProposal p fin @ rest"
  have b: "?b = ?h @ PSPI p @ ?tb @ rest" "?b = (?h @ PSPI p @ ?tb) @ rest"
    by (simp_all add: encodeProposal_def Let_def)
  have n: "unat (rd16 (drop 2 ?b)) = ?n"
  proof -
    have "rd16 (drop 2 ?b) = of_nat ?n"
      unfolding b(1) by (simp only: append_Cons append_Nil append_assoc drop_Suc_Cons numeral_2_eq_2 drop_0)
        (simp only: numeral_2_eq_2 [symmetric] rd_put)
    then show ?thesis using assms by (simp only:) (intro unat_of_nat_small, simp add: proposal_fits_def)
  qed
  have s: "unat (of_nat (length (PSPI p)) :: byte) = length (PSPI p)"
    "unat (of_nat (length (Transforms p)) :: byte) = length (Transforms p)"
    using assms by (auto intro!: unat_of_nat_small simp: proposal_fits_def)
  have f: "?b ! 0 = (if fin then 0 else 2)" "?b ! 4 = Number p" "?b ! 5 = PProtocol p"
    "?b ! 6 = of_nat (length (PSPI p))" "?b ! 7 = of_nat (length (Transforms p))"
    unfolding b(1) by (simp_all add: nth_append)
  have d: "drop ?n ?b = rest" unfolding b(2) by (rule drop_behind) simp
  have sl: "slice 8 ?n ?b = PSPI p @ ?tb" unfolding b(1) by (simp add: slice_def)
  have len: "length ?b = ?n + length rest" unfolding b(1) by simp
  have ts: "decodeTransforms (length (Transforms p)) ?tb = Inr (Transforms p, [])"
    using decodeTransforms_encode [of "Transforms p" "[]"] assms by (simp add: proposal_fits_def)
  show ?thesis
    unfolding decodeProposal_def n f s d sl len Let_def
    by (simp add: ts)
qed

lemma EncodeSA_Nil_iff [simp]: "EncodeSA ps = [] \<longleftrightarrow> ps = []"
  by (cases ps) (simp_all add: encodeProposal_def Let_def)

lemma DecodeSA_encode: "list_all proposal_fits ps \<Longrightarrow> DecodeSA (EncodeSA ps) = Inr ps"
proof (induction ps)
  case Nil
  then show ?case by (simp add: DecodeSA.simps)
next
  case (Cons p ps)
  then have "decodeProposal (EncodeSA (p # ps)) = Inr (p, ps \<noteq> [], EncodeSA ps)"
    by (simp add: decodeProposal_encode)
  with Cons show ?case by (subst DecodeSA.simps) (simp del: EncodeSA.simps)
qed

lemma DecodeKE_encode [simp]: "DecodeKE (EncodeKE grp pub) = Inr (grp, pub)"
  by (simp add: DecodeKE_def EncodeKE_def)

lemma DecodeID_encode [simp]: "DecodeID (EncodeID t dat) = Inr (t, dat)"
  by (simp add: DecodeID_def EncodeID_def)

lemma drop_head4 [simp]:
  "drop (genericPayloadHeaderLen + k) (a # b # put16 w @ ys) = drop k ys"
  by (simp add: put16_eq numeral_eq_Suc)

lemma DecodeNotify_encode:
  "length (NSPI n) < 2 ^ 8 \<Longrightarrow> DecodeNotify (EncodeNotify n) = Inr n"
  by (simp add: DecodeNotify_def EncodeNotify_def unat_of_nat_small slice_def Let_def)

text \<open>A Delete the code builds: no SPI for the IKE SA, four-octet SPIs for Child SAs.\<close>

definition delete_fits :: "Delete \<Rightarrow> bool" where
  "delete_fits d \<longleftrightarrow> DProtocol d = ProtoIKE \<and> DSPIs d = []
     \<or> DProtocol d \<in> {ProtoAH, ProtoESP} \<and> DSPIs d \<noteq> [] \<and> length (DSPIs d) < 2 ^ 16
       \<and> list_all (\<lambda>s. length s = 4) (DSPIs d)"

lemma cutSPIs_concat:
  "list_all (\<lambda>s. length s = n) ss \<Longrightarrow> cutSPIs (length ss) n (concat ss) = ss"
  by (induction ss) auto

lemma length_concat_all: "list_all (\<lambda>s. length s = n) ss \<Longrightarrow> length (concat ss) = n * length ss"
  by (induction ss) auto

lemma DecodeDelete_encode:
  assumes "delete_fits d"
  shows "DecodeDelete (EncodeDelete d) = Inr d"
proof (cases "DSPIs d")
  case Nil
  with assms have "DProtocol d = ProtoIKE" by (auto simp: delete_fits_def)
  with Nil show ?thesis by (simp add: DecodeDelete_def EncodeDelete_def Let_def)
next
  case (Cons s ss)
  with assms have p: "DProtocol d = ProtoAH \<or> DProtocol d = ProtoESP" "length (DSPIs d) < 2 ^ 16"
    "list_all (\<lambda>s. length s = 4) (DSPIs d)" "length s = 4"
    by (auto simp: delete_fits_def)
  have n: "unat (of_nat (length (DSPIs d)) :: u16) = length (DSPIs d)"
    using p(2) by (intro unat_of_nat_small) simp
  have e: "EncodeDelete d = [DProtocol d, 4] @ put16 (of_nat (length (DSPIs d))) @ concat (DSPIs d)"
    using p(4) by (simp add: EncodeDelete_def Let_def Cons)
  show ?thesis using p(1)
    unfolding e DecodeDelete_def
    by (auto simp: Let_def n length_concat_all [OF p(3)] cutSPIs_concat [OF p(3)])
qed

text \<open>The selectors the code writes: IPv4 ranges over 4-byte, IPv6 ranges over 16-byte addresses.\<close>

definition selector_fits :: "TrafficSelector \<Rightarrow> bool" where
  "selector_fits ts \<longleftrightarrow>
     TSType ts = TS_IPV4_ADDR_RANGE \<and> length (StartAddr ts) = 4 \<and> length (EndAddr ts) = 4
     \<or> TSType ts = TS_IPV6_ADDR_RANGE \<and> length (StartAddr ts) = 16 \<and> length (EndAddr ts) = 16"

lemma encodeSelector_fits:
  "selector_fits ts \<Longrightarrow> encodeSelector ts =
     [TSType ts, TSProtocol ts] @ put16 (of_nat (8 + 2 * length (StartAddr ts)))
       @ put16 (StartPort ts) @ put16 (EndPort ts) @ StartAddr ts @ EndAddr ts"
  by (auto simp: selector_fits_def encodeSelector_def Let_def To4_def To16_def go_copy_same)

lemma decodeSelectors_encode:
  "list_all selector_fits tss \<Longrightarrow>
   decodeSelectors (length tss) (concat (map encodeSelector tss)) = Inr tss"
proof (induction tss)
  case Nil
  then show ?case by simp
next
  case (Cons ts tss)
  let ?n = "length (StartAddr ts)"
  let ?rest = "concat (map encodeSelector tss)"
  let ?b = "encodeSelector ts @ ?rest"
  from Cons have f: "selector_fits ts" and IH: "decodeSelectors (length tss) ?rest = Inr tss"
    by simp_all
  from f have lens: "length (EndAddr ts) = ?n" "?n = 4 \<or> ?n = 16" by (auto simp: selector_fits_def)
  let ?h = "[TSType ts, TSProtocol ts] @ put16 (of_nat (8 + 2 * ?n)) @ put16 (StartPort ts) @ put16 (EndPort ts)"
  have b: "?b = ?h @ StartAddr ts @ EndAddr ts @ ?rest" "?b = (?h @ StartAddr ts @ EndAddr ts) @ ?rest"
    "?b = (?h @ StartAddr ts) @ EndAddr ts @ ?rest"
    by (simp_all add: encodeSelector_fits [OF f])
  have n: "unat (rd16 (drop 2 ?b)) = 8 + 2 * ?n"
    unfolding b(1) using lens(2) by auto
  have d: "drop (8 + 2 * ?n) ?b = ?rest" unfolding b(2) by (rule drop_behind) (simp add: lens)
  have a: "slice 8 (8 + ?n) ?b = StartAddr ts" unfolding b(1) by (simp add: slice_def)
  have e: "slice (8 + ?n) (8 + 2 * ?n) ?b = EndAddr ts"
    unfolding b(3) slice_def by (subst drop_behind) (simp_all add: lens)
  have g: "?b ! 0 = TSType ts" "?b ! 1 = TSProtocol ts" "rd16 (drop 4 ?b) = StartPort ts"
    "rd16 (drop 6 ?b) = EndPort ts" "length ?b = 8 + 2 * ?n + length ?rest"
    unfolding b(1) by (simp_all add: lens)
  have t: "\<not> (TSType ts = TS_IPV4_ADDR_RANGE \<and> ?n \<noteq> 4 \<or> TSType ts = TS_IPV6_ADDR_RANGE \<and> ?n \<noteq> 16)"
    using f by (auto simp: selector_fits_def)
  have h: "(8 + 2 * ?n - 8) mod 2 = 0" "(8 + 2 * ?n - 8) div 2 = ?n" by simp_all
  show ?case
    unfolding length_Cons list.map concat.simps decodeSelectors.simps n d g h Let_def a e IH
    using t by simp
qed

lemma DecodeTS_encode:
  "list_all selector_fits tss \<Longrightarrow> length tss < 2 ^ 8 \<Longrightarrow> DecodeTS (EncodeTS tss) = Inr tss"
  by (simp add: DecodeTS_def EncodeTS_def decodeSelectors_encode unat_of_nat_small)

text \<open>
  An SK payload ends the message: its recorded offset plus its header and body is the whole
  length, so the slices the decryption takes of the raw message are inside it.
\<close>

lemma decodeOuterChain_sk:
  "decodeOuterChain whole nxt rest = Inr (ps, off) \<Longrightarrow> p \<in> set ps \<Longrightarrow> PType p = PayloadSK \<Longrightarrow>
   length rest \<le> whole \<Longrightarrow> off + genericPayloadHeaderLen + length (Body p) = whole"
proof (induction whole nxt rest arbitrary: ps off rule: decodeOuterChain.induct)
  case (1 whole nxt rest)
  let ?n = "unat (rd16 (drop 2 rest))"
  let ?p = "\<lparr>PType = nxt, Critical = rest ! 1 AND 0x80 \<noteq> 0, Body = slice genericPayloadHeaderLen ?n rest\<rparr>"
  note step = "1.prems"(1) [unfolded decodeOuterChain.simps [of whole nxt rest] Let_def]
  from step "1.prems"(2) have g: "nxt \<noteq> PayloadNone" "\<not> length rest < genericPayloadHeaderLen"
    "\<not> (?n < genericPayloadHeaderLen \<or> length rest < ?n)"
    by (auto split: if_splits)
  show ?case
  proof (cases "nxt = PayloadSK")
    case True
    with step g "1.prems"(2,4) show ?thesis by (auto split: if_splits)
  next
    case False
    with step g obtain qs where r: "decodeOuterChain whole (rest ! 0) (drop ?n rest) = Inr (qs, off)"
      and ps: "ps = ?p # qs"
      by (auto split: sum.splits)
    from ps "1.prems"(2,3) False have "p \<in> set qs" by auto
    with "1.IH" [OF g(1,2) refl g(3) refl False r] "1.prems"(3,4) show ?thesis by simp
  qed
qed

lemma DecodeMessage_sk:
  assumes "DecodeMessage b = Inr m" "findPayload m PayloadSK = Some p"
  shows "skHeaderOffset m + genericPayloadHeaderLen + length (Body p) = length b"
    "skHeaderOffset m + genericPayloadHeaderLen \<le> length b"
proof -
  from assms(1) obtain h ps off where d: "decodeOuterChain (length b) (NextPayload h) (drop HeaderLen b) = Inr (ps, off)"
    and m: "m = \<lparr>MHeader = h, Payloads = ps, skHeaderOffset = off\<rparr>"
    by (auto simp: DecodeMessage_def split: sum.splits if_splits)
  from assms(2) have "p \<in> set ps" "PType p = PayloadSK"
    by (auto simp: findPayload_def m find_Some_iff)
  from decodeOuterChain_sk [OF d this] show "skHeaderOffset m + genericPayloadHeaderLen + length (Body p) = length b"
    by (simp add: m)
  then show "skHeaderOffset m + genericPayloadHeaderLen \<le> length b" by simp
qed

end
