(* ===== verification/Ike_Crypto.thy ===== *)
theory Ike_Crypto
  imports Ike_Message Esp_SA
begin

unbundle bit_operations_syntax

text \<open>
  Key derivation and the encrypted payload: \<open>ike/crypto.go\<close> and \<open>ike/sk.go\<close>. The lemmas show that
  \<open>prf+\<close> ends and yields exactly the bytes asked for, that every derived key has the length its
  cipher takes, that the peer reads back exactly the payloads that were sealed, and that a context
  never seals two messages under one nonce.

  The cryptographic primitives are parameters, collected in the record \<open>crypto\<close>; \<open>crypto_ok\<close>
  states what their documentation promises of them and the code relies on. A Go panic is \<open>None\<close>.
\<close>

section \<open>Model\<close>

text \<open>
  \<open>hmac256\<close> and \<open>hmac384\<close> are \<open>hmac.New\<close> over \<open>sha256.New\<close> and \<open>sha512.New384\<close>; \<open>gcm\<close> and \<open>chacha\<close>
  build the AEADs; \<open>ecPublic group private\<close> and \<open>ecdh group private peer\<close> are the operations of
  \<open>crypto/ecdh\<close> in its own encoding; \<open>sign\<close> and \<open>verify\<close> are Ed25519, \<open>sha1\<close> the hash of the NAT
  detection notifications, and \<open>pubOf\<close> the public half of an Ed25519 key.
\<close>

record crypto =
  hmac256 :: "bytes \<Rightarrow> bytes \<Rightarrow> bytes"
  hmac384 :: "bytes \<Rightarrow> bytes \<Rightarrow> bytes"
  gcm :: "bytes \<Rightarrow> aead option"
  chacha :: "bytes \<Rightarrow> aead option"
  ecPublic :: "u16 \<Rightarrow> bytes \<Rightarrow> bytes"
  ecdh :: "u16 \<Rightarrow> bytes \<Rightarrow> bytes \<Rightarrow> bytes option"
  sign :: "bytes \<Rightarrow> bytes \<Rightarrow> bytes"
  verify :: "bytes \<Rightarrow> bytes \<Rightarrow> bytes \<Rightarrow> bool"
  pubOf :: "bytes \<Rightarrow> bytes"
  sha1 :: "bytes \<Rightarrow> bytes"

abbreviation (input) ENCR_AES_GCM_16 :: u16 where "ENCR_AES_GCM_16 \<equiv> 20"
abbreviation (input) ENCR_CHACHA20_POLY1305 :: u16 where "ENCR_CHACHA20_POLY1305 \<equiv> 28"
abbreviation (input) PRF_HMAC_SHA2_256 :: u16 where "PRF_HMAC_SHA2_256 \<equiv> 5"
abbreviation (input) PRF_HMAC_SHA2_384 :: u16 where "PRF_HMAC_SHA2_384 \<equiv> 6"
abbreviation (input) DH_ECP_256 :: u16 where "DH_ECP_256 \<equiv> 19"
abbreviation (input) DH_ECP_384 :: u16 where "DH_ECP_384 \<equiv> 20"
abbreviation (input) DH_CURVE25519 :: u16 where "DH_CURVE25519 \<equiv> 31"

datatype crypto_error =
    UnsupportedGroup | InvalidPeerKey | UnsupportedPRF | InvalidKeyBits | UnsupportedEncr
  | KeyLengthMismatch | NewAEADFailed | IVLength | IVExhausted
  | NoSKPayload | SKTooShort | SKAuthFailed | EmptyPlaintext | InvalidSKPadding
  | WireError wire_error

subsection \<open>Diffie-Hellman\<close>

record DHKeyPair =
  DHGroupOf :: u16
  DHPriv :: bytes

definition curveForGroup :: "u16 \<Rightarrow> bool" where
  "curveForGroup grp \<longleftrightarrow> grp = DH_CURVE25519 \<or> grp = DH_ECP_256 \<or> grp = DH_ECP_384"

text \<open>The private key the curve's \<open>GenerateKey\<close> draws is an argument.\<close>

definition GenerateDH :: "u16 \<Rightarrow> bytes \<Rightarrow> (crypto_error, DHKeyPair) result" where
  "GenerateDH grp priv =
     (if curveForGroup grp then Inr \<lparr>DHGroupOf = grp, DHPriv = priv\<rparr> else Inl UnsupportedGroup)"

definition PublicBytes :: "crypto \<Rightarrow> DHKeyPair \<Rightarrow> bytes" where
  "PublicBytes C kp =
     (let b = ecPublic C (DHGroupOf kp) (DHPriv kp)
      in if DHGroupOf kp = DH_CURVE25519 then b else drop 1 b)"

definition SharedSecret :: "crypto \<Rightarrow> DHKeyPair \<Rightarrow> bytes \<Rightarrow> (crypto_error, bytes) result" where
  "SharedSecret C kp peerPublic =
     (let raw = (if DHGroupOf kp \<noteq> DH_CURVE25519 then 0x04 # peerPublic else peerPublic)
      in case ecdh C (DHGroupOf kp) (DHPriv kp) raw of
           None \<Rightarrow> Inl InvalidPeerKey
         | Some s \<Rightarrow> Inr s)"

subsection \<open>The pseudorandom function\<close>

definition PRFOutputLen :: "u16 \<Rightarrow> nat" where
  "PRFOutputLen prfID =
     (if prfID = PRF_HMAC_SHA2_256 then 32 else if prfID = PRF_HMAC_SHA2_384 then 48 else 0)"

definition ike_prf :: "crypto \<Rightarrow> u16 \<Rightarrow> bytes \<Rightarrow> bytes \<Rightarrow> bytes option" where
  "ike_prf C prfID key dat =
     (if prfID = PRF_HMAC_SHA2_256 then Some (hmac256 C key dat)
      else if prfID = PRF_HMAC_SHA2_384 then Some (hmac384 C key dat) else None)"

partial_function (option) prfPlusLoop ::
  "crypto \<Rightarrow> u16 \<Rightarrow> bytes \<Rightarrow> bytes \<Rightarrow> nat \<Rightarrow> byte \<Rightarrow> bytes \<Rightarrow> bytes \<Rightarrow> bytes option" where
  "prfPlusLoop C prfID key seed n counter t out =
     (if length out < n
      then Option.bind (ike_prf C prfID key (t @ seed @ [counter]))
             (\<lambda>t'. prfPlusLoop C prfID key seed n (counter + 1) t' (out @ t'))
      else Some (take n out))"

definition prfPlus :: "crypto \<Rightarrow> u16 \<Rightarrow> bytes \<Rightarrow> bytes \<Rightarrow> nat \<Rightarrow> bytes option" where
  "prfPlus C prfID key seed n = prfPlusLoop C prfID key seed n 1 [] []"

subsection \<open>Cipher parameters\<close>

record AEADParams =
  ap_KeyLen :: nat
  ap_SaltLen :: nat
  ap_IVLen :: nat
  ap_ICVLen :: nat

definition aeadParamsFor :: "u16 \<Rightarrow> u16 \<Rightarrow> (crypto_error, AEADParams) result" where
  "aeadParamsFor encrID keyLenBits =
     (if encrID = ENCR_AES_GCM_16 then
        (let kl = unat keyLenBits div 8 in
         if kl \<noteq> 16 \<and> kl \<noteq> 24 \<and> kl \<noteq> 32 then Inl InvalidKeyBits
         else Inr \<lparr>ap_KeyLen = kl, ap_SaltLen = 4, ap_IVLen = 8, ap_ICVLen = 16\<rparr>)
      else if encrID = ENCR_CHACHA20_POLY1305 then
        (if keyLenBits \<noteq> 0 \<and> keyLenBits \<noteq> 256 then Inl InvalidKeyBits
         else Inr \<lparr>ap_KeyLen = 32, ap_SaltLen = 4, ap_IVLen = 8, ap_ICVLen = 16\<rparr>)
      else Inl UnsupportedEncr)"

definition newAEAD :: "crypto \<Rightarrow> u16 \<Rightarrow> bytes \<Rightarrow> (crypto_error, aead) result" where
  "newAEAD C encrID key =
     (if encrID = ENCR_AES_GCM_16 then
        (case gcm C key of None \<Rightarrow> Inl NewAEADFailed | Some a \<Rightarrow> Inr a)
      else if encrID = ENCR_CHACHA20_POLY1305 then
        (case chacha C key of None \<Rightarrow> Inl NewAEADFailed | Some a \<Rightarrow> Inr a)
      else Inl UnsupportedEncr)"

subsection \<open>Keys of an IKE SA and of a Child SA\<close>

record SASuite =
  SuiteEncrID :: u16
  SuiteKeyBits :: u16
  PRFID :: u16
  DHGroup :: u16

record IKEKeys =
  KSuite :: SASuite
  SKd :: bytes
  SKei :: bytes
  SKer :: bytes
  SKpi :: bytes
  SKpr :: bytes

definition deriveIKEKeys ::
  "crypto \<Rightarrow> SASuite \<Rightarrow> bytes \<Rightarrow> bytes \<Rightarrow> bytes \<Rightarrow> u64 \<Rightarrow> u64
     \<Rightarrow> (crypto_error, IKEKeys) result option" where
  "deriveIKEKeys C suite skeyseed ni nr spiI spiR =
     (case aeadParamsFor (SuiteEncrID suite) (SuiteKeyBits suite) of Inl e \<Rightarrow> Some (Inl e)
      | Inr ap \<Rightarrow>
          let prfLen = PRFOutputLen (PRFID suite) in
          if prfLen = 0 then Some (Inl UnsupportedPRF)
          else let seed = ni @ nr @ put64 spiI @ put64 spiR;
                   skLen = ap_KeyLen ap + ap_SaltLen ap;
                   amount = prfLen + 2 * skLen + 2 * prfLen
               in map_option (\<lambda>stream. Inr \<lparr>KSuite = suite,
                    SKd = slice 0 prfLen stream,
                    SKei = slice prfLen (prfLen + skLen) stream,
                    SKer = slice (prfLen + skLen) (prfLen + 2 * skLen) stream,
                    SKpi = slice (prfLen + 2 * skLen) (2 * prfLen + 2 * skLen) stream,
                    SKpr = slice (2 * prfLen + 2 * skLen) (3 * prfLen + 2 * skLen) stream\<rparr>)
                  (prfPlus C (PRFID suite) skeyseed seed amount))"

definition DeriveIKEKeys ::
  "crypto \<Rightarrow> SASuite \<Rightarrow> bytes \<Rightarrow> bytes \<Rightarrow> bytes \<Rightarrow> u64 \<Rightarrow> u64
     \<Rightarrow> (crypto_error, IKEKeys) result option" where
  "DeriveIKEKeys C suite sharedSecret ni nr spiI spiR =
     Option.bind (ike_prf C (PRFID suite) (ni @ nr) sharedSecret)
       (\<lambda>skeyseed. deriveIKEKeys C suite skeyseed ni nr spiI spiR)"

definition DeriveRekeyedIKEKeys ::
  "crypto \<Rightarrow> u16 \<Rightarrow> bytes \<Rightarrow> SASuite \<Rightarrow> bytes \<Rightarrow> bytes \<Rightarrow> bytes \<Rightarrow> u64 \<Rightarrow> u64
     \<Rightarrow> (crypto_error, IKEKeys) result option" where
  "DeriveRekeyedIKEKeys C oldPRFID oldSKd suite sharedSecret ni nr spiI spiR =
     (if PRFOutputLen oldPRFID = 0 then Some (Inl UnsupportedPRF)
      else Option.bind (ike_prf C oldPRFID oldSKd (sharedSecret @ ni @ nr))
             (\<lambda>skeyseed. deriveIKEKeys C suite skeyseed ni nr spiI spiR))"

definition childSAKeymat ::
  "crypto \<Rightarrow> u16 \<Rightarrow> bytes \<Rightarrow> bytes \<Rightarrow> bytes \<Rightarrow> bytes \<Rightarrow> u16 \<Rightarrow> u16
     \<Rightarrow> (crypto_error, bytes \<times> bytes) result option" where
  "childSAKeymat C prfID skD sharedSecret ni nr encrID encrKeyBits =
     (case aeadParamsFor encrID encrKeyBits of Inl e \<Rightarrow> Some (Inl e)
      | Inr ap \<Rightarrow>
          let each = ap_KeyLen ap + ap_SaltLen ap in
          map_option (\<lambda>stream. Inr (take each stream, drop each stream))
            (prfPlus C prfID skD (sharedSecret @ ni @ nr) (2 * each)))"

definition ChildSAKeymat ::
  "crypto \<Rightarrow> u16 \<Rightarrow> bytes \<Rightarrow> bytes \<Rightarrow> bytes \<Rightarrow> u16 \<Rightarrow> u16
     \<Rightarrow> (crypto_error, bytes \<times> bytes) result option" where
  "ChildSAKeymat C prfID skD ni nr encrID encrKeyBits =
     childSAKeymat C prfID skD [] ni nr encrID encrKeyBits"

subsection \<open>The encrypted payload\<close>

definition encryptMessagePlaintextIV ::
  "crypto \<Rightarrow> SASuite \<Rightarrow> bytes \<Rightarrow> Header \<Rightarrow> RawPayload list \<Rightarrow> PayloadType \<Rightarrow> bytes \<Rightarrow> bytes
     \<Rightarrow> (crypto_error, bytes) result" where
  "encryptMessagePlaintextIV C suite key hdr cleartext innerFirst plain iv =
     (case aeadParamsFor (SuiteEncrID suite) (SuiteKeyBits suite) of Inl e \<Rightarrow> Inl e
      | Inr ap \<Rightarrow>
          if length key \<noteq> ap_KeyLen ap + ap_SaltLen ap then Inl KeyLengthMismatch
          else case newAEAD C (SuiteEncrID suite) (take (ap_KeyLen ap) key) of Inl e \<Rightarrow> Inl e
          | Inr a \<Rightarrow>
              if length iv \<noteq> ap_IVLen ap then Inl IVLength
              else let nonce = drop (ap_KeyLen ap) key @ iv;
                       cleartextBytes = encodePayloadChain cleartext;
                       ciphertextLen = length plain + ap_ICVLen ap;
                       skHdr = [innerFirst, 0]
                         @ put16 (of_nat (genericPayloadHeaderLen + ap_IVLen ap + ciphertextLen));
                       h = hdr\<lparr>NextPayload := (case cleartext of [] \<Rightarrow> PayloadSK | p # _ \<Rightarrow> PType p),
                               HLength := of_nat (HeaderLen + length cleartextBytes + length skHdr
                                            + ap_IVLen ap + ciphertextLen)\<rparr>;
                       aad = encodeHeader h @ cleartextBytes @ skHdr
                   in Inr (aad @ iv @ a_Seal a nonce plain aad))"

definition encryptMessageIV ::
  "crypto \<Rightarrow> SASuite \<Rightarrow> bytes \<Rightarrow> Header \<Rightarrow> RawPayload list \<Rightarrow> RawPayload list \<Rightarrow> bytes
     \<Rightarrow> (crypto_error, bytes) result" where
  "encryptMessageIV C suite key hdr cleartext inner iv =
     encryptMessagePlaintextIV C suite key hdr cleartext (chainType inner)
       (encodePayloadChain inner @ [0]) iv"

definition decryptMessagePlaintext ::
  "crypto \<Rightarrow> SASuite \<Rightarrow> bytes \<Rightarrow> bytes \<Rightarrow> Message \<Rightarrow> (crypto_error, PayloadType \<times> bytes) result" where
  "decryptMessagePlaintext C suite key raw m =
     (case findPayload m PayloadSK of None \<Rightarrow> Inl NoSKPayload
      | Some sk \<Rightarrow>
     (case aeadParamsFor (SuiteEncrID suite) (SuiteKeyBits suite) of Inl e \<Rightarrow> Inl e
      | Inr ap \<Rightarrow>
          if length key \<noteq> ap_KeyLen ap + ap_SaltLen ap then Inl KeyLengthMismatch
          else if length (Body sk) < ap_IVLen ap + ap_ICVLen ap then Inl SKTooShort
          else case newAEAD C (SuiteEncrID suite) (take (ap_KeyLen ap) key) of Inl e \<Rightarrow> Inl e
          | Inr a \<Rightarrow>
              let nonce = drop (ap_KeyLen ap) key @ take (ap_IVLen ap) (Body sk);
                  aad = take (skHeaderOffset m + genericPayloadHeaderLen) raw
              in case a_Open a nonce (drop (ap_IVLen ap) (Body sk)) aad of
                   None \<Rightarrow> Inl SKAuthFailed
                 | Some plain \<Rightarrow> Inr (raw ! skHeaderOffset m, plain)))"

definition decodeMessagePlaintext ::
  "PayloadType \<Rightarrow> bytes \<Rightarrow> (crypto_error, RawPayload list) result" where
  "decodeMessagePlaintext innerFirst plain =
     (if plain = [] then Inl EmptyPlaintext
      else let padLen = unat (last plain) in
        if length plain < padLen + 1 then Inl InvalidSKPadding
        else case decodePayloadChain innerFirst (take (length plain - 1 - padLen) plain) of
               Inl e \<Rightarrow> Inl (WireError e) | Inr ps \<Rightarrow> Inr ps)"

definition DecryptMessage ::
  "crypto \<Rightarrow> SASuite \<Rightarrow> bytes \<Rightarrow> bytes \<Rightarrow> Message \<Rightarrow> (crypto_error, RawPayload list) result" where
  "DecryptMessage C suite key raw m =
     (case decryptMessagePlaintext C suite key raw m of Inl e \<Rightarrow> Inl e
      | Inr (innerFirst, plain) \<Rightarrow> decodeMessagePlaintext innerFirst plain)"

subsection \<open>One IKE SA\<close>

text \<open>The state bound to one SPI pair; \<open>None\<close> in \<open>lastPeerResponse\<close> is Go's nil slice.\<close>

record ikeContext =
  suite :: SASuite
  skD :: bytes
  skei :: bytes
  sker :: bytes
  skpi :: bytes
  skpr :: bytes
  spiI :: u64
  spiR :: u64
  responder :: bool
  sendIV :: u64
  nextLocalMID :: u32
  nextPeerMID :: u32
  lastPeerResponseID :: u32
  lastPeerResponse :: "bytes option"

definition ctx_encrypt ::
  "crypto \<Rightarrow> ikeContext \<Rightarrow> bytes \<Rightarrow> Header \<Rightarrow> RawPayload list \<Rightarrow> RawPayload list
     \<Rightarrow> (crypto_error, bytes) result \<times> ikeContext" where
  "ctx_encrypt C c key hdr cleartext inner =
     (let c1 = c\<lparr>sendIV := sendIV c + 1\<rparr>; val = sendIV c1 in
      if val = 0 then (Inl IVExhausted, c1)
      else (encryptMessageIV C (suite c) key hdr cleartext inner (put64 val), c1))"

definition localEncryptionKey :: "ikeContext \<Rightarrow> bytes" where
  "localEncryptionKey c = (if responder c then sker c else skei c)"

definition peerEncryptionKey :: "ikeContext \<Rightarrow> bytes" where
  "peerEncryptionKey c = (if responder c then skei c else sker c)"

section \<open>What the primitives promise\<close>

definition crypto_ok :: "crypto \<Rightarrow> bool" where
  "crypto_ok C \<longleftrightarrow>
     (\<forall>k d. length (hmac256 C k d) = 32) \<and> (\<forall>k d. length (hmac384 C k d) = 48)
     \<and> suite_ok (gcm C) \<and> suite_ok (chacha C)
     \<and> (\<forall>k. length k \<in> {16, 24, 32} \<longrightarrow> gcm C k \<noteq> None)
     \<and> (\<forall>k. length k = 32 \<longrightarrow> chacha C k \<noteq> None)"

text \<open>The two ends of a key exchange compute one secret; the NIST encodings start with 4.\<close>

definition dh_ok :: "crypto \<Rightarrow> bool" where
  "dh_ok C \<longleftrightarrow>
     (\<forall>grp a b. curveForGroup grp \<longrightarrow> ecdh C grp a (ecPublic C grp b) = ecdh C grp b (ecPublic C grp a)
        \<and> ecdh C grp a (ecPublic C grp b) \<noteq> None)
     \<and> (\<forall>grp a. curveForGroup grp \<and> grp \<noteq> DH_CURVE25519 \<longrightarrow> (\<exists>xs. ecPublic C grp a = 0x04 # xs))"

definition sign_ok :: "crypto \<Rightarrow> bool" where
  "sign_ok C \<longleftrightarrow> (\<forall>priv msg. verify C (pubOf C priv) msg (sign C priv msg))"

section \<open>Key derivation\<close>

lemma prf_length:
  "crypto_ok C \<Longrightarrow> PRFOutputLen prfID \<noteq> 0 \<Longrightarrow>
   \<exists>t. ike_prf C prfID key dat = Some t \<and> length t = PRFOutputLen prfID"
  by (auto simp: ike_prf_def PRFOutputLen_def crypto_ok_def split: if_splits)

lemma prfPlusLoop_total:
  assumes "crypto_ok C" "PRFOutputLen prfID \<noteq> 0"
  shows "\<exists>s. prfPlusLoop C prfID key seed n counter t out = Some s \<and> length s = n"
proof (induction "n - length out" arbitrary: counter t out rule: less_induct)
  case less
  show ?case
  proof (cases "length out < n")
    case True
    obtain t' where t': "ike_prf C prfID key (t @ seed @ [counter]) = Some t'" "length t' = PRFOutputLen prfID"
      using prf_length [OF assms] by blast
    have "\<exists>s. prfPlusLoop C prfID key seed n (counter + 1) t' (out @ t') = Some s \<and> length s = n"
      using less.hyps [of "out @ t'"] True t'(2) assms(2) by simp
    with True t'(1) show ?thesis by (subst prfPlusLoop.simps) simp
  next
    case False
    then show ?thesis by (subst prfPlusLoop.simps) simp
  qed
qed

lemma prfPlus_total:
  "crypto_ok C \<Longrightarrow> PRFOutputLen prfID \<noteq> 0 \<Longrightarrow>
   \<exists>s. prfPlus C prfID key seed n = Some s \<and> length s = n"
  unfolding prfPlus_def by (rule prfPlusLoop_total)

lemma aeadParamsFor_ok:
  "aeadParamsFor e b = Inr ap \<Longrightarrow>
   ap_KeyLen ap \<in> {16, 24, 32} \<and> ap_SaltLen ap = 4 \<and> ap_IVLen ap = 8 \<and> ap_ICVLen ap = 16"
  by (auto simp: aeadParamsFor_def Let_def split: if_splits)

text \<open>A suite both the cipher tables and the PRF table know.\<close>

definition suite_known :: "SASuite \<Rightarrow> bool" where
  "suite_known s \<longleftrightarrow> (\<exists>ap. aeadParamsFor (SuiteEncrID s) (SuiteKeyBits s) = Inr ap) \<and> PRFOutputLen (PRFID s) \<noteq> 0"

definition keys_fit :: "SASuite \<Rightarrow> IKEKeys \<Rightarrow> bool" where
  "keys_fit s k \<longleftrightarrow> KSuite k = s
     \<and> (\<forall>ap. aeadParamsFor (SuiteEncrID s) (SuiteKeyBits s) = Inr ap \<longrightarrow>
          length (SKei k) = ap_KeyLen ap + ap_SaltLen ap \<and> length (SKer k) = ap_KeyLen ap + ap_SaltLen ap)
     \<and> length (SKd k) = PRFOutputLen (PRFID s)
     \<and> length (SKpi k) = PRFOutputLen (PRFID s) \<and> length (SKpr k) = PRFOutputLen (PRFID s)"

lemma deriveIKEKeys_total:
  assumes "crypto_ok C" "suite_known s"
  shows "\<exists>k. deriveIKEKeys C s seed ni nr i r = Some (Inr k) \<and> keys_fit s k"
proof -
  from assms(2) obtain ap where ap: "aeadParamsFor (SuiteEncrID s) (SuiteKeyBits s) = Inr ap"
    and p: "PRFOutputLen (PRFID s) \<noteq> 0"
    by (auto simp: suite_known_def)
  let ?pl = "PRFOutputLen (PRFID s)" and ?sk = "ap_KeyLen ap + ap_SaltLen ap"
  obtain st where st: "prfPlus C (PRFID s) seed (ni @ nr @ put64 i @ put64 r) (?pl + 2 * ?sk + 2 * ?pl) = Some st"
    and len: "length st = ?pl + 2 * ?sk + 2 * ?pl"
    using prfPlus_total [OF assms(1) p] by blast
  show ?thesis
    using p st len by (simp add: deriveIKEKeys_def ap keys_fit_def Let_def)
qed

lemma DeriveIKEKeys_total:
  assumes "crypto_ok C" "suite_known s"
  shows "\<exists>k. DeriveIKEKeys C s secret ni nr i r = Some (Inr k) \<and> keys_fit s k"
proof -
  from assms(2) have "PRFOutputLen (PRFID s) \<noteq> 0" by (simp add: suite_known_def)
  from prf_length [OF assms(1) this] obtain t where "ike_prf C (PRFID s) (ni @ nr) secret = Some t" by blast
  then show ?thesis using deriveIKEKeys_total [OF assms] by (simp add: DeriveIKEKeys_def)
qed

lemma DeriveRekeyedIKEKeys_total:
  assumes "crypto_ok C" "suite_known s" "PRFOutputLen old \<noteq> 0"
  shows "\<exists>k. DeriveRekeyedIKEKeys C old skd s secret ni nr i r = Some (Inr k) \<and> keys_fit s k"
proof -
  from prf_length [OF assms(1,3)] obtain t where "ike_prf C old skd (secret @ ni @ nr) = Some t" by blast
  then show ?thesis using deriveIKEKeys_total [OF assms(1,2)] assms(3) by (simp add: DeriveRekeyedIKEKeys_def)
qed

lemma childSAKeymat_total:
  assumes "crypto_ok C" "PRFOutputLen prfID \<noteq> 0" "aeadParamsFor e b = Inr ap"
  shows "\<exists>i r. childSAKeymat C prfID skd secret ni nr e b = Some (Inr (i, r))
    \<and> length i = ap_KeyLen ap + 4 \<and> length r = ap_KeyLen ap + 4"
proof -
  let ?each = "ap_KeyLen ap + ap_SaltLen ap"
  have each: "?each = ap_KeyLen ap + 4" using aeadParamsFor_ok [OF assms(3)] by simp
  obtain st where "prfPlus C prfID skd (secret @ ni @ nr) (2 * ?each) = Some st" "length st = 2 * ?each"
    using prfPlus_total [OF assms(1,2)] by blast
  then show ?thesis by (simp add: childSAKeymat_def assms(3) Let_def each)
qed

lemma newAEAD_total:
  assumes "crypto_ok C" "aeadParamsFor e b = Inr ap" "length key = ap_KeyLen ap"
  shows "\<exists>a. newAEAD C e key = Inr a \<and> aead_ok a"
  using assms by (auto simp: aeadParamsFor_def newAEAD_def crypto_ok_def suite_ok_def Let_def
      split: if_splits option.splits)

lemma dh_agrees:
  assumes "dh_ok C" "GenerateDH grp a = Inr ka" "GenerateDH grp b = Inr kb"
  shows "\<exists>s. SharedSecret C ka (PublicBytes C kb) = Inr s \<and> SharedSecret C kb (PublicBytes C ka) = Inr s"
proof -
  from assms(2,3) have g: "curveForGroup grp" and k: "ka = \<lparr>DHGroupOf = grp, DHPriv = a\<rparr>" "kb = \<lparr>DHGroupOf = grp, DHPriv = b\<rparr>"
    by (auto simp: GenerateDH_def split: if_splits)
  have raw: "(if grp \<noteq> DH_CURVE25519 then 0x04 # (if grp = DH_CURVE25519 then ecPublic C grp x else drop 1 (ecPublic C grp x))
      else (if grp = DH_CURVE25519 then ecPublic C grp x else drop 1 (ecPublic C grp x))) = ecPublic C grp x" for x
  proof (cases "grp = DH_CURVE25519")
    case False
    then obtain xs where "ecPublic C grp x = 0x04 # xs" using assms(1) g unfolding dh_ok_def by blast
    with False show ?thesis by simp
  qed simp
  from assms(1) g have e: "ecdh C grp a (ecPublic C grp b) = ecdh C grp b (ecPublic C grp a)"
    "ecdh C grp a (ecPublic C grp b) \<noteq> None"
    by (auto simp: dh_ok_def)
  then obtain s where "ecdh C grp a (ecPublic C grp b) = Some s" "ecdh C grp b (ecPublic C grp a) = Some s"
    by auto
  then show ?thesis using raw by (simp add: SharedSecret_def PublicBytes_def k Let_def)
qed

section \<open>The encrypted payload\<close>

definition fits_sk :: "RawPayload list \<Rightarrow> bool" where
  "fits_sk inner \<longleftrightarrow> list_all payload_fits inner \<and> length (encodePayloadChain inner) + 29 < 2 ^ 16"

text \<open>A message that is one SK payload, decoded: the walk stops at it and records offset 28.\<close>

lemma DecodeMessage_sk_only:
  fixes h :: Header and nx :: byte
  assumes "length dat + 4 < 2 ^ 16"
  defines "h' \<equiv> h\<lparr>NextPayload := PayloadSK, HLength := of_nat (32 + length dat)\<rparr>"
  defines "b \<equiv> encodeHeader h' @ [nx, 0] @ put16 (of_nat (4 + length dat)) @ dat"
  shows "DecodeMessage b = Inr \<lparr>MHeader = h'\<lparr>MajorVersion := 2, MinorVersion := 0\<rparr>,
    Payloads = [\<lparr>PType = PayloadSK, Critical = False, Body = dat\<rparr>], skHeaderOffset = 28\<rparr>"
proof -
  let ?p = "\<lparr>PType = PayloadSK, Critical = False, Body = dat\<rparr>"
  have fits: "payload_fits ?p" using assms(1) by (simp add: payload_fits_def)
  let ?r = "[nx, 0] @ put16 (of_nat (4 + length dat)) @ dat"
  have r: "drop HeaderLen b = ?r" unfolding b_def by (rule drop_behind) simp
  have lr: "length ?r = 4 + length dat" by simp
  have lb: "length b = 32 + length dat" by (simp add: b_def)
  have n: "unat (of_nat (length b) :: u32) = length b"
    using assms(1) by (intro unat_of_nat_small) (simp add: lb)
  have d: "decodeHeader b = Inr (h'\<lparr>MajorVersion := 2, MinorVersion := 0\<rparr>)"
    unfolding b_def by (rule decodeHeader_encode)
  have pl: "unat (rd16 (drop 2 ?r)) = 4 + length dat"
    using payload_head(1) [OF fits, of nx "[]"] by simp
  have sl: "slice 4 (4 + length dat) ?r = dat" using payload_head(4) [OF fits, of nx "[]"] by simp
  have chain: "decodeOuterChain (length b) PayloadSK ?r = Inr ([?p], 28)"
    by (subst decodeOuterChain.simps) (simp only: pl sl lr Let_def, simp add: lb)
  have f: "unat (HLength (h'\<lparr>MajorVersion := 2, MinorVersion := 0\<rparr>)) = length b"
    "NextPayload (h'\<lparr>MajorVersion := 2, MinorVersion := 0\<rparr>) = PayloadSK"
    using n by (simp_all add: h'_def lb)
  have "\<not> length b < HeaderLen" by (simp add: lb)
  then show ?thesis
    by (simp only: DecodeMessage_def d sum.case r f chain) simp
qed

lemma decodeMessagePlaintext_encode:
  "list_all payload_fits inner \<Longrightarrow>
   decodeMessagePlaintext (chainType inner) (encodePayloadChain inner @ [0]) = Inr inner"
  by (simp add: decodeMessagePlaintext_def decodePayloadChain_encode)

definition skMessage :: "Header \<Rightarrow> bytes \<Rightarrow> Message" where
  "skMessage hdr dat = \<lparr>MHeader = hdr\<lparr>NextPayload := PayloadSK, MajorVersion := 2, MinorVersion := 0,
       HLength := of_nat (32 + length dat)\<rparr>,
     Payloads = [\<lparr>PType = PayloadSK, Critical = False, Body = dat\<rparr>], skHeaderOffset = 28\<rparr>"

lemma sealed_opens:
  assumes C: "crypto_ok C" and ap: "aeadParamsFor (SuiteEncrID s) (SuiteKeyBits s) = Inr ap"
    and key: "length key = ap_KeyLen ap + ap_SaltLen ap" and iv: "length iv = 8" and fits: "fits_sk inner"
  shows "\<exists>raw ct. encryptMessageIV C s key hdr [] inner iv = Inr raw
    \<and> DecodeMessage raw = Inr (skMessage hdr (iv @ ct))
    \<and> slice 32 40 raw = iv
    \<and> decryptMessagePlaintext C s key raw (skMessage hdr (iv @ ct))
        = Inr (chainType inner, encodePayloadChain inner @ [0])"
proof -
  have p: "ap_SaltLen ap = 4" "ap_IVLen ap = 8" "ap_ICVLen ap = 16" "ap_KeyLen ap \<in> {16, 24, 32}"
    using aeadParamsFor_ok [OF ap] by auto
  obtain a where a: "newAEAD C (SuiteEncrID s) (take (ap_KeyLen ap) key) = Inr a" "aead_ok a"
    using newAEAD_total [OF C ap, of "take (ap_KeyLen ap) key"] key by auto
  let ?plain = "encodePayloadChain inner @ [0]"
  let ?n = "length ?plain + 24"
  let ?nonce = "drop (ap_KeyLen ap) key @ iv"
  let ?h = "hdr\<lparr>NextPayload := PayloadSK, HLength := of_nat (32 + ?n)\<rparr>"
  let ?aad = "encodeHeader ?h @ [chainType inner, 0] @ put16 (of_nat (4 + ?n))"
  let ?ct = "a_Seal a ?nonce ?plain ?aad"
  let ?raw = "?aad @ iv @ ?ct"
  have ln: "length ?nonce = 12" using key iv p by simp
  have lct: "length (iv @ ?ct) = ?n" using aead_okD(3) [OF a(2) ln] iv by simp
  have enc: "encryptMessageIV C s key hdr [] inner iv = Inr ?raw"
    by (simp add: encryptMessageIV_def encryptMessagePlaintextIV_def ap key a(1) iv p Let_def add.commute)
  have small: "length (iv @ ?ct) + 4 < 2 ^ 16" unfolding lct using fits by (simp add: fits_sk_def)
  have dec: "DecodeMessage ?raw = Inr (skMessage hdr (iv @ ?ct))"
    using DecodeMessage_sk_only [OF small, of hdr "chainType inner"]
    unfolding skMessage_def lct append_assoc by simp
  have sl: "slice 32 40 ?raw = iv" using iv by (simp add: slice_def)
  have find: "findPayload (skMessage hdr dat) PayloadSK = Some \<lparr>PType = PayloadSK, Critical = False, Body = dat\<rparr>" for dat
    by (simp add: skMessage_def findPayload_def)
  have off: "skHeaderOffset (skMessage hdr dat) = 28" for dat by (simp add: skMessage_def)
  have aad: "take (28 + 4) ?raw = ?aad" by simp
  have nx: "?raw ! 28 = chainType inner" by (simp add: nth_append)
  have opn: "a_Open a ?nonce ?ct ?aad = Some ?plain" by (rule aead_okD(2) [OF a(2) ln])
  have lb: "\<not> length (iv @ ?ct) < 8 + 16" by (simp only: lct)
  have tk: "take 8 (iv @ ?ct) = iv" "drop 8 (iv @ ?ct) = ?ct" using iv by simp_all
  have "decryptMessagePlaintext C s key ?raw (skMessage hdr (iv @ ?ct)) = Inr (chainType inner, ?plain)"
    by (simp only: decryptMessagePlaintext_def find off option.case ap sum.case key p a(1) Let_def
        RawPayload.select_convs lb aad tk opn nx simp_thms if_False)
  with enc dec sl show ?thesis by blast
qed

lemma DecryptMessage_sealed:
  "decryptMessagePlaintext C s key raw m = Inr (chainType inner, encodePayloadChain inner @ [0]) \<Longrightarrow>
   fits_sk inner \<Longrightarrow> DecryptMessage C s key raw m = Inr inner"
  by (simp add: DecryptMessage_def decodeMessagePlaintext_encode fits_sk_def)

text \<open>
  \<open>EncryptMessage\<close> chains its cleartext payloads to nothing rather than to the SK payload, so a
  message with any is refused by its reader. Every caller passes none.
\<close>

lemma decodeOuterChain_cleartext:
  "list_all payload_fits (p # ps) \<Longrightarrow> list_all (\<lambda>q. PType q \<noteq> PayloadSK) (p # ps) \<Longrightarrow> rest \<noteq> [] \<Longrightarrow>
   decodeOuterChain whole (chainType (p # ps)) (encodePayloadChain (p # ps) @ rest) = Inl TrailingBytes"
proof (induction ps arbitrary: p)
  case Nil
  then have fits: "payload_fits p" and nz: "PType p \<noteq> PayloadNone" "PType p \<noteq> PayloadSK"
    by (simp_all add: payload_fits_def)
  have e: "decodeOuterChain whole (chainType []) rest = Inl TrailingBytes"
    using Nil.prems(3) by (subst decodeOuterChain.simps) simp
  note head = payload_head [OF fits, of "chainType []" "rest"]
  show ?case
    unfolding encodePayloadChain.simps append_assoc append_Nil
    by (subst decodeOuterChain.simps)
      (simp only: head chainType_simps(2) Let_def e sum.case nz if_False, simp)
next
  case (Cons q ps)
  then have fits: "payload_fits p" and nz: "PType p \<noteq> PayloadNone" "PType p \<noteq> PayloadSK"
    by (simp_all add: payload_fits_def)
  have e: "decodeOuterChain whole (chainType (q # ps)) (encodePayloadChain (q # ps) @ rest) = Inl TrailingBytes"
    using Cons.prems by (intro Cons.IH) simp_all
  note head = payload_head [OF fits, of "chainType (q # ps)" "encodePayloadChain (q # ps) @ rest"]
  show ?case
    unfolding encodePayloadChain.simps(2) [of p] append_assoc
    by (subst decodeOuterChain.simps)
      (simp only: head e chainType_simps(2) [of p] Let_def sum.case nz if_False, simp)
qed

lemma DecodeMessage_length: "DecodeMessage raw = Inr m \<Longrightarrow> unat (HLength (MHeader m)) = length raw"
  by (auto simp: DecodeMessage_def split: sum.splits if_splits)

section \<open>Two ends of one IKE SA\<close>

definition mirrored :: "ikeContext \<Rightarrow> ikeContext \<Rightarrow> bool" where
  "mirrored c c' \<longleftrightarrow> suite c' = suite c \<and> skei c' = skei c \<and> sker c' = sker c \<and> skD c' = skD c
     \<and> spiI c' = spiI c \<and> spiR c' = spiR c \<and> responder c' = (\<not> responder c)"

definition ctx_ok :: "ikeContext \<Rightarrow> bool" where
  "ctx_ok c \<longleftrightarrow> suite_known (suite c)
     \<and> (\<forall>ap. aeadParamsFor (SuiteEncrID (suite c)) (SuiteKeyBits (suite c)) = Inr ap \<longrightarrow>
          length (skei c) = ap_KeyLen ap + ap_SaltLen ap \<and> length (sker c) = ap_KeyLen ap + ap_SaltLen ap)"

lemma ctx_encrypt_opens:
  assumes C: "crypto_ok C" and ok: "ctx_ok c" and iv: "sendIV c + 1 \<noteq> 0" and fits: "fits_sk inner"
    and key: "key \<in> {skei c, sker c}"
  obtains raw ct where
    "ctx_encrypt C c key hdr [] inner = (Inr raw, c\<lparr>sendIV := sendIV c + 1\<rparr>)"
    "DecodeMessage raw = Inr (skMessage hdr (put64 (sendIV c + 1) @ ct))"
    "slice 32 40 raw = put64 (sendIV c + 1)"
    "decryptMessagePlaintext C (suite c) key raw (skMessage hdr (put64 (sendIV c + 1) @ ct))
       = Inr (chainType inner, encodePayloadChain inner @ [0])"
proof -
  from ok obtain ap where ap: "aeadParamsFor (SuiteEncrID (suite c)) (SuiteKeyBits (suite c)) = Inr ap"
    and len: "length (skei c) = ap_KeyLen ap + ap_SaltLen ap" "length (sker c) = ap_KeyLen ap + ap_SaltLen ap"
    by (auto simp: ctx_ok_def suite_known_def)
  have "length key = ap_KeyLen ap + ap_SaltLen ap" using key len by auto
  from sealed_opens [OF C ap this length_be_bytes fits, of hdr "sendIV c + 1"] obtain raw ct where
    "encryptMessageIV C (suite c) key hdr [] inner (put64 (sendIV c + 1)) = Inr raw"
    "DecodeMessage raw = Inr (skMessage hdr (put64 (sendIV c + 1) @ ct))"
    "slice 32 40 raw = put64 (sendIV c + 1)"
    "decryptMessagePlaintext C (suite c) key raw (skMessage hdr (put64 (sendIV c + 1) @ ct))
       = Inr (chainType inner, encodePayloadChain inner @ [0])"
    by blast
  then show thesis using that iv by (simp add: ctx_encrypt_def Let_def)
qed

text \<open>
  C31. What one end of an IKE SA seals, the other end reads: the message decodes, its header is the
  one given (with the length and the first payload filled in), and the peer's key opens the SK
  payload to exactly the payloads that went in, in order.
\<close>
theorem sealed_message_is_read:
  assumes "crypto_ok C" "ctx_ok c" "mirrored c c'" "sendIV c + 1 \<noteq> 0" "fits_sk inner"
  shows "\<exists>raw m. fst (ctx_encrypt C c (localEncryptionKey c) hdr [] inner) = Inr raw
    \<and> DecodeMessage raw = Inr m
    \<and> MHeader m = hdr\<lparr>NextPayload := PayloadSK, MajorVersion := 2, MinorVersion := 0,
        HLength := of_nat (length raw)\<rparr>
    \<and> DecryptMessage C (suite c') (peerEncryptionKey c') raw m = Inr inner"
proof -
  have k: "localEncryptionKey c \<in> {skei c, sker c}" by (simp add: localEncryptionKey_def)
  have same: "peerEncryptionKey c' = localEncryptionKey c" "suite c' = suite c"
    using assms(3) by (auto simp: mirrored_def peerEncryptionKey_def localEncryptionKey_def)
  from ctx_encrypt_opens [OF assms(1,2,4,5) k, of hdr] obtain raw ct where
    e: "ctx_encrypt C c (localEncryptionKey c) hdr [] inner = (Inr raw, c\<lparr>sendIV := sendIV c + 1\<rparr>)"
    "DecodeMessage raw = Inr (skMessage hdr (put64 (sendIV c + 1) @ ct))"
    and d: "decryptMessagePlaintext C (suite c) (localEncryptionKey c) raw (skMessage hdr (put64 (sendIV c + 1) @ ct))
       = Inr (chainType inner, encodePayloadChain inner @ [0])"
    by metis
  have "HLength (MHeader (skMessage hdr (put64 (sendIV c + 1) @ ct))) = of_nat (length raw)"
    using DecodeMessage_length [OF e(2)] by (metis of_nat_unat ucast_id)
  then have "MHeader (skMessage hdr (put64 (sendIV c + 1) @ ct)) = hdr\<lparr>NextPayload := PayloadSK, MajorVersion := 2,
      MinorVersion := 0, HLength := of_nat (length raw)\<rparr>"
    by (simp add: skMessage_def)
  with e DecryptMessage_sealed [OF d assms(5)] show ?thesis unfolding same by (metis fst_conv)
qed

text \<open>Concrete primitives that keep the promises, and the two ends of an SA on them.\<close>

definition toyCrypto :: crypto where
  "toyCrypto = \<lparr>hmac256 = (\<lambda>k d. replicate 32 (sum_list k + sum_list d)),
     hmac384 = (\<lambda>k d. replicate 48 (sum_list k + sum_list d)),
     gcm = (\<lambda>_. Some tagAEAD), chacha = (\<lambda>_. Some tagAEAD),
     ecPublic = (\<lambda>grp a. if grp = DH_CURVE25519 then a else 4 # a),
     ecdh = (\<lambda>grp a p. Some [sum_list a + sum_list p]),
     sign = (\<lambda>priv msg. priv @ msg), verify = (\<lambda>pub msg sig. sig = pub @ msg),
     pubOf = (\<lambda>priv. priv), sha1 = (\<lambda>_. replicate 20 0)\<rparr>"

lemma toyCrypto_ok: "crypto_ok toyCrypto" "dh_ok toyCrypto" "sign_ok toyCrypto"
  using tag_suites(2)
  by (auto simp: toyCrypto_def crypto_ok_def dh_ok_def sign_ok_def add.commute add.left_commute)

definition toySuite :: SASuite where
  "toySuite = \<lparr>SuiteEncrID = ENCR_CHACHA20_POLY1305, SuiteKeyBits = 0, PRFID = PRF_HMAC_SHA2_256, DHGroup = DH_CURVE25519\<rparr>"

definition toyContext :: "bool \<Rightarrow> ikeContext" where
  "toyContext r = \<lparr>suite = toySuite, skD = replicate 32 1, skei = replicate 36 2, sker = replicate 36 3,
     skpi = replicate 32 4, skpr = replicate 32 5, spiI = 7, spiR = 8, responder = r, sendIV = 0,
     nextLocalMID = 2, nextPeerMID = 0, lastPeerResponseID = 0, lastPeerResponse = None\<rparr>"

lemma toyContext_ok: "ctx_ok (toyContext r)" "mirrored (toyContext r) (toyContext (\<not> r))"
  by (auto simp: toyContext_def ctx_ok_def mirrored_def toySuite_def suite_known_def aeadParamsFor_def PRFOutputLen_def)

definition toyHeader :: Header where
  "toyHeader = \<lparr>SPIInitiator = 7, SPIResponder = 8, NextPayload = 0, MajorVersion = 0, MinorVersion = 0,
     ExchangeType = INFORMATIONAL, Flags = FlagInitiator, MessageID = 2, HLength = 0\<rparr>"

definition toyInner :: "RawPayload list" where
  "toyInner = [\<lparr>PType = PayloadD, Critical = False, Body = EncodeDelete \<lparr>DProtocol = ProtoIKE, DSPIs = []\<rparr>\<rparr>]"

lemma toyInner_fits: "fits_sk toyInner"
  by (simp add: toyInner_def fits_sk_def payload_fits_def EncodeDelete_def Let_def)

theorem sealed_message_is_read_witness:
  "\<exists>raw m. fst (ctx_encrypt toyCrypto (toyContext False) (localEncryptionKey (toyContext False)) toyHeader [] toyInner) = Inr raw
    \<and> DecodeMessage raw = Inr m
    \<and> MHeader m = toyHeader\<lparr>NextPayload := PayloadSK, MajorVersion := 2, MinorVersion := 0,
        HLength := of_nat (length raw)\<rparr>
    \<and> DecryptMessage toyCrypto (suite (toyContext True)) (peerEncryptionKey (toyContext True)) raw m = Inr toyInner"
  using sealed_message_is_read [OF toyCrypto_ok(1) toyContext_ok(1) toyContext_ok(2) _ toyInner_fits, of False toyHeader]
  by (simp add: toyContext_def)

section \<open>One nonce for one message\<close>

text \<open>A context that seals one message after another; the call itself advances the counter.\<close>

fun encryptAll ::
  "crypto \<Rightarrow> ikeContext \<Rightarrow> (bytes \<times> Header \<times> RawPayload list) list
     \<Rightarrow> (crypto_error, bytes) result list \<times> ikeContext" where
  "encryptAll C c [] = ([], c)"
| "encryptAll C c ((key, hdr, inner) # calls) =
     (let (r, c1) = ctx_encrypt C c key hdr [] inner; (rs, c2) = encryptAll C c1 calls in (r # rs, c2))"

definition ivOf :: "bytes \<Rightarrow> bytes" where
  "ivOf raw = slice 32 40 raw"

lemma encryptMessageIV_iv:
  "encryptMessageIV C s key hdr [] inner iv = Inr raw \<Longrightarrow> ivOf raw = iv"
  by (auto simp: encryptMessageIV_def encryptMessagePlaintextIV_def ivOf_def slice_def Let_def
      dest: aeadParamsFor_ok split: sum.splits if_splits)

lemma ctx_encrypt_counts: "snd (ctx_encrypt C c key hdr cl inner) = c\<lparr>sendIV := sendIV c + 1\<rparr>"
  by (simp add: ctx_encrypt_def Let_def)

lemma ctx_encrypt_iv:
  "ctx_encrypt C c key hdr [] inner = (Inr raw, c1) \<Longrightarrow> ivOf raw = put64 (sendIV c + 1)"
  by (auto simp: ctx_encrypt_def Let_def dest: encryptMessageIV_iv split: if_splits)

lemma encryptAll_ivs:
  "unat (sendIV c) + length calls < 2 ^ 64 \<Longrightarrow> Inr raw \<in> set (fst (encryptAll C c calls)) \<Longrightarrow>
   \<exists>v. ivOf raw = put64 v \<and> sendIV c < v"
proof (induction calls arbitrary: c)
  case Nil
  then show ?case by simp
next
  case (Cons x calls)
  obtain key hdr inner where x: "x = (key, hdr, inner)" by (cases x)
  obtain r where r: "ctx_encrypt C c key hdr [] inner = (r, c\<lparr>sendIV := sendIV c + 1\<rparr>)"
    by (metis ctx_encrypt_counts prod.collapse)
  have up: "unat (sendIV c + 1) = unat (sendIV c) + 1" 
    using Cons.prems(1) unat_plus_le [of "sendIV c" 1] by simp
  then have lt: "sendIV c < sendIV c + 1" by (simp add: word_less_nat_alt)
  show ?case
  proof (cases "r = Inr raw")
    case True
    then show ?thesis using ctx_encrypt_iv r lt by blast
  next
    case False
    then have "Inr raw \<in> set (fst (encryptAll C (c\<lparr>sendIV := sendIV c + 1\<rparr>) calls))"
      using Cons.prems(2) by (auto simp: x r Let_def split: prod.splits)
    from Cons.IH [OF _ this] up Cons.prems(1) lt show ?thesis by (fastforce intro: less_trans)
  qed
qed

fun sentMessages :: "(crypto_error, bytes) result list \<Rightarrow> bytes list" where
  "sentMessages [] = []"
| "sentMessages (Inl e # rs) = sentMessages rs"
| "sentMessages (Inr raw # rs) = raw # sentMessages rs"

lemma set_sentMessages: "raw \<in> set (sentMessages rs) \<longleftrightarrow> Inr raw \<in> set rs"
  by (induction rs rule: sentMessages.induct) auto

lemma encryptAll_distinct:
  "unat (sendIV c) + length calls < 2 ^ 64 \<Longrightarrow>
   distinct (map ivOf (sentMessages (fst (encryptAll C c calls))))"
proof (induction calls arbitrary: c)
  case Nil
  then show ?case by simp
next
  case (Cons x calls)
  obtain key hdr inner where x: "x = (key, hdr, inner)" by (cases x)
  let ?c = "c\<lparr>sendIV := sendIV c + 1\<rparr>"
  obtain r where r: "ctx_encrypt C c key hdr [] inner = (r, ?c)"
    by (metis ctx_encrypt_counts prod.collapse)
  have up: "unat (sendIV c + 1) = unat (sendIV c) + 1"
    using Cons.prems unat_plus_le [of "sendIV c" 1] by simp
  then have bound: "unat (sendIV ?c) + length calls < 2 ^ 64" using Cons.prems by simp
  have fst: "fst (encryptAll C c (x # calls)) = r # fst (encryptAll C ?c calls)"
    by (simp add: x r Let_def split: prod.splits)
  show ?case
  proof (cases r)
    case (Inl e)
    then show ?thesis using Cons.IH [OF bound] by (simp only: fst sentMessages.simps)
  next
    case (Inr raw)
    have "ivOf raw \<noteq> ivOf raw'" if "raw' \<in> set (sentMessages (fst (encryptAll C ?c calls)))" for raw'
      using encryptAll_ivs [OF bound] that ctx_encrypt_iv [of C c key hdr inner raw] r Inr
      by (fastforce simp: set_sentMessages be_bytes_inj)
    then show ?thesis using Cons.IH [OF bound] by (auto simp: fst Inr simp del: encryptAll.simps)
  qed
qed



end
