(* ===== verification/Ike_Proposal.thy ===== *)
theory Ike_Proposal
  imports Ike_Crypto
begin

text \<open>
  Proposals and their selection: \<open>ike/child_proposal.go\<close>, the offers and \<open>suiteFromProposal\<close> of
  \<open>ike/initiator.go\<close>, \<open>selectIKEProposal\<close> of \<open>ike/responder.go\<close> and the rekey selections of
  \<open>ike/ike_rekey.go\<close>. The lemmas show that a selection only ever takes what was offered and what
  this end supports, one transform of each type, and that the answer the responder gives to our own
  offers is one the initiator accepts, with the same suite on both ends.

  A nil pointer is \<open>None\<close>; the zero value of a struct is \<open>noTransform\<close>.
\<close>

section \<open>Model\<close>

abbreviation (input) INTEG_NONE :: u16 where "INTEG_NONE \<equiv> 0"
abbreviation (input) ESN_NO :: u16 where "ESN_NO \<equiv> 0"

datatype proposal_error =
    InvalidSA wire_error | InvalidKEGroup u16 | MissingSelectors | UnsupportedSelectors
  | DuplicatePayload PayloadType | UnsupportedCritical PayloadType | MalformedNotify
  | IncompleteExchange | NotEncryption | EncrAttributes | FixedKeyLength | BadCipher crypto_error
  | ProposalShape | ZeroSPI | DuplicateEncr | UnsupportedESN | UnexpectedType byte
  | IncompleteProposal | ChangedCipher | UnofferedCipher | NoAcceptableChild
  | SuiteShape | SuiteType byte | SuiteDuplicate byte | SuiteUnoffered | SuiteIncomplete
  | NoAcceptableIKE

definition noTransform :: Transform where
  "noTransform = \<lparr>TType = 0, TID = 0, KeyLengthBits = 0, UnsupportedAttributes = False\<rparr>"

text \<open>A transform literal of the source: type, identifier and key length.\<close>

definition tr :: "byte \<Rightarrow> u16 \<Rightarrow> u16 \<Rightarrow> Transform" where
  "tr typ i bits = \<lparr>TType = typ, TID = i, KeyLengthBits = bits, UnsupportedAttributes = False\<rparr>"

subsection \<open>Traffic selectors\<close>

definition fullRangeSelectors :: bytes where
  "fullRangeSelectors = EncodeTS [FullRangeV4, FullRangeV6]"

fun fullRangeLoop :: "TrafficSelector list \<Rightarrow> bool \<Rightarrow> bool \<Rightarrow> bool" where
  "fullRangeLoop [] v4 v6 \<longleftrightarrow> v4 \<and> v6"
| "fullRangeLoop (ts # tss) v4 v6 \<longleftrightarrow>
     (let same = (\<lambda>expected. TSProtocol ts = 0 \<and> StartPort ts = 0 \<and> EndPort ts = 0xffff
                    \<and> StartAddr ts = StartAddr expected \<and> EndAddr ts = EndAddr expected)
      in if TSType ts = TS_IPV4_ADDR_RANGE then \<not> v4 \<and> same FullRangeV4 \<and> fullRangeLoop tss True v6
         else if TSType ts = TS_IPV6_ADDR_RANGE then \<not> v6 \<and> same FullRangeV6 \<and> fullRangeLoop tss v4 True
         else False)"

definition isFullRangeSelectors :: "bytes \<Rightarrow> bool" where
  "isFullRangeSelectors body =
     (case DecodeTS body of Inl _ \<Rightarrow> False
      | Inr selectors \<Rightarrow> length selectors = 2 \<and> fullRangeLoop selectors False False)"

definition validateFullRangeSelectors ::
  "RawPayload option \<Rightarrow> RawPayload option \<Rightarrow> (proposal_error, unit) result" where
  "validateFullRangeSelectors tsi tsr =
     (case (tsi, tsr) of
        (Some i, Some r) \<Rightarrow>
          if \<not> isFullRangeSelectors (Body i) then Inl UnsupportedSelectors
          else if \<not> isFullRangeSelectors (Body r) then Inl UnsupportedSelectors else Inr ()
      | _ \<Rightarrow> Inl MissingSelectors)"

subsection \<open>The payloads of a Child SA exchange\<close>

record childExchangePayloads =
  cx_sa :: "RawPayload option"
  cx_nonce :: "RawPayload option"
  cx_ke :: "RawPayload option"
  cx_tsi :: "RawPayload option"
  cx_tsr :: "RawPayload option"
  cx_notifies :: "Notify list"

fun parseChildLoop ::
  "RawPayload list \<Rightarrow> childExchangePayloads \<Rightarrow> (proposal_error, childExchangePayloads) result" where
  "parseChildLoop [] out = Inr out"
| "parseChildLoop (p # ps) out =
     (if PType p = PayloadSA then
        if cx_sa out \<noteq> None then Inl (DuplicatePayload (PType p)) else parseChildLoop ps (out\<lparr>cx_sa := Some p\<rparr>)
      else if PType p = PayloadNonce then
        if cx_nonce out \<noteq> None then Inl (DuplicatePayload (PType p)) else parseChildLoop ps (out\<lparr>cx_nonce := Some p\<rparr>)
      else if PType p = PayloadTSi then
        if cx_tsi out \<noteq> None then Inl (DuplicatePayload (PType p)) else parseChildLoop ps (out\<lparr>cx_tsi := Some p\<rparr>)
      else if PType p = PayloadTSr then
        if cx_tsr out \<noteq> None then Inl (DuplicatePayload (PType p)) else parseChildLoop ps (out\<lparr>cx_tsr := Some p\<rparr>)
      else if PType p = PayloadN then
        (case DecodeNotify (Body p) of Inl e \<Rightarrow> Inl MalformedNotify
         | Inr n \<Rightarrow> parseChildLoop ps (out\<lparr>cx_notifies := cx_notifies out @ [n]\<rparr>))
      else if PType p = PayloadKE then
        if cx_ke out \<noteq> None then Inl (DuplicatePayload (PType p)) else parseChildLoop ps (out\<lparr>cx_ke := Some p\<rparr>)
      else if Critical p then Inl (UnsupportedCritical (PType p))
      else parseChildLoop ps out)"

definition parseChildExchangePayloads ::
  "RawPayload list \<Rightarrow> (proposal_error, childExchangePayloads) result" where
  "parseChildExchangePayloads payloads =
     parseChildLoop payloads \<lparr>cx_sa = None, cx_nonce = None, cx_ke = None, cx_tsi = None, cx_tsr = None, cx_notifies = []\<rparr>"

definition validNonce :: "bytes \<Rightarrow> bool" where
  "validNonce nonce \<longleftrightarrow> 16 \<le> length nonce \<and> length nonce \<le> 256"

definition validNonceFor :: "bytes \<Rightarrow> u16 \<Rightarrow> bool" where
  "validNonceFor nonce prfID \<longleftrightarrow> validNonce nonce \<and> PRFOutputLen prfID div 2 \<le> length nonce"

definition validateCompleteChildExchange ::
  "childExchangePayloads \<Rightarrow> u16 \<Rightarrow> (proposal_error, unit) result" where
  "validateCompleteChildExchange ps prfID =
     (case (cx_sa ps, cx_nonce ps, cx_tsi ps, cx_tsr ps) of
        (Some _, Some n, Some _, Some _) \<Rightarrow>
          if validNonceFor (Body n) prfID then Inr () else Inl IncompleteExchange
      | _ \<Rightarrow> Inl IncompleteExchange)"

definition decodeChildExchangePayloads ::
  "RawPayload list \<Rightarrow> u16 \<Rightarrow> (proposal_error, childExchangePayloads) result" where
  "decodeChildExchangePayloads payloads prfID =
     (case parseChildExchangePayloads payloads of Inl e \<Rightarrow> Inl e
      | Inr out \<Rightarrow> (case validateCompleteChildExchange out prfID of Inl e \<Rightarrow> Inl e | Inr _ \<Rightarrow> Inr out))"

subsection \<open>Offers\<close>

definition ikeProposal :: Proposal where
  "ikeProposal = \<lparr>Number = 1, PProtocol = ProtoIKE, PSPI = [],
     Transforms = [tr TransEncr ENCR_AES_GCM_16 256, tr TransEncr ENCR_AES_GCM_16 128,
       tr TransEncr ENCR_CHACHA20_POLY1305 0, tr TransPRF PRF_HMAC_SHA2_384 0, tr TransPRF PRF_HMAC_SHA2_256 0,
       tr TransDH DH_CURVE25519 0, tr TransDH DH_ECP_384 0, tr TransDH DH_ECP_256 0]\<rparr>"

definition espProposal :: "bytes \<Rightarrow> Proposal" where
  "espProposal spi = \<lparr>Number = 1, PProtocol = ProtoESP, PSPI = spi,
     Transforms = [tr TransEncr ENCR_AES_GCM_16 256, tr TransEncr ENCR_AES_GCM_16 128,
       tr TransEncr ENCR_CHACHA20_POLY1305 0, tr TransESN ESN_NO 0]\<rparr>"

definition canonicalEncryptionTransform :: "Transform \<Rightarrow> (proposal_error, Transform) result" where
  "canonicalEncryptionTransform t =
     (if TType t \<noteq> TransEncr then Inl NotEncryption
      else if UnsupportedAttributes t then Inl EncrAttributes
      else if TID t = ENCR_CHACHA20_POLY1305 \<and> KeyLengthBits t \<noteq> 0 then Inl FixedKeyLength
      else case aeadParamsFor (TID t) (KeyLengthBits t) of Inl e \<Rightarrow> Inl (BadCipher e)
      | Inr _ \<Rightarrow> Inr (if TID t = ENCR_CHACHA20_POLY1305 then t\<lparr>KeyLengthBits := 256\<rparr> else t))"

definition canonicalChildCipher :: "ChildSA \<Rightarrow> (proposal_error, Transform) result" where
  "canonicalChildCipher child =
     canonicalEncryptionTransform (tr TransEncr (EncrID child)
       (if EncrID child = ENCR_CHACHA20_POLY1305 then 0 else EncrKeyBits child))"

text \<open>\<open>sameCipher\<close> is the comparison every selection makes between two canonical transforms.\<close>

definition sameCipher :: "Transform \<Rightarrow> Transform \<Rightarrow> bool" where
  "sameCipher a b \<longleftrightarrow> TID a = TID b \<and> KeyLengthBits a = KeyLengthBits b"

definition espRekeyProposal :: "bytes \<Rightarrow> ChildSA \<Rightarrow> Proposal" where
  "espRekeyProposal spi old =
     (let p = espProposal spi in
      case canonicalChildCipher old of Inl _ \<Rightarrow> p
      | Inr want \<Rightarrow>
          p\<lparr>Transforms := filter (\<lambda>t. TType t \<noteq> TransEncr
             \<or> (case canonicalEncryptionTransform t of Inl _ \<Rightarrow> False | Inr c \<Rightarrow> sameCipher c want))
             (Transforms p)\<rparr>)"

definition ikeRekeyProposal :: "bytes \<Rightarrow> u16 \<Rightarrow> Proposal" where
  "ikeRekeyProposal spi prfID =
     ikeProposal\<lparr>PSPI := spi, Transforms := filter (\<lambda>t. TType t \<noteq> TransPRF \<or> TID t = prfID) (Transforms ikeProposal)\<rparr>"

definition supportedIKEGroup :: "u16 \<Rightarrow> bool" where
  "supportedIKEGroup grp \<longleftrightarrow> list_ex (\<lambda>t. TType t = TransDH \<and> TID t = grp) (Transforms ikeProposal)"

fun groupPreferenceLoop :: "Transform list \<Rightarrow> u16 \<Rightarrow> nat \<Rightarrow> nat" where
  "groupPreferenceLoop [] grp n = n"
| "groupPreferenceLoop (t # ts) grp n =
     (if TType t \<noteq> TransDH then groupPreferenceLoop ts grp n
      else if TID t = grp then n else groupPreferenceLoop ts grp (n + 1))"

definition ikeGroupPreference :: "u16 \<Rightarrow> nat" where
  "ikeGroupPreference grp = groupPreferenceLoop (Transforms ikeProposal) grp 0"

subsection \<open>Reading an answer\<close>

text \<open>
  The loop of \<open>decodeChildProposal\<close> over the two transforms; \<open>encryption\<close> is \<open>None\<close> until
  \<open>haveEncryption\<close>.
\<close>

fun childAnswerLoop ::
  "Transform list \<Rightarrow> Transform option \<Rightarrow> bool \<Rightarrow> (proposal_error, Transform option \<times> bool) result" where
  "childAnswerLoop [] encryption haveESN = Inr (encryption, haveESN)"
| "childAnswerLoop (t # ts) encryption haveESN =
     (if TType t = TransEncr then
        if encryption \<noteq> None then Inl DuplicateEncr
        else (case canonicalEncryptionTransform t of Inl e \<Rightarrow> Inl e
              | Inr c \<Rightarrow> childAnswerLoop ts (Some c) haveESN)
      else if TType t = TransESN then
        if haveESN \<or> TID t \<noteq> ESN_NO \<or> KeyLengthBits t \<noteq> 0 \<or> UnsupportedAttributes t
        then Inl UnsupportedESN else childAnswerLoop ts encryption True
      else Inl (UnexpectedType (TType t)))"

definition childEncryptionAccepted :: "Transform \<Rightarrow> Transform option \<Rightarrow> bool" where
  "childEncryptionAccepted candidate expected =
     (case expected of Some e \<Rightarrow> sameCipher candidate e
      | None \<Rightarrow> list_ex (\<lambda>offered. TType offered = TransEncr \<and>
          (case canonicalEncryptionTransform offered of Inl _ \<Rightarrow> False
           | Inr c \<Rightarrow> sameCipher candidate c)) (Transforms (espProposal [])))"

definition decodeChildProposal ::
  "bytes \<Rightarrow> ChildSA option \<Rightarrow> (proposal_error, Proposal \<times> Transform \<times> u32) result" where
  "decodeChildProposal body expected =
     (case DecodeSA body of Inl e \<Rightarrow> Inl (InvalidSA e)
      | Inr [p] \<Rightarrow>
          if Number p \<noteq> 1 \<or> PProtocol p \<noteq> ProtoESP \<or> length (PSPI p) \<noteq> 4 \<or> length (Transforms p) \<noteq> 2
          then Inl ProposalShape
          else let remoteSPI = rd32 (PSPI p) in
            if remoteSPI = 0 then Inl ZeroSPI
            else (case childAnswerLoop (Transforms p) None False of Inl e \<Rightarrow> Inl e
              | Inr (Some encryption, True) \<Rightarrow>
                  (case expected of
                     Some old \<Rightarrow>
                       (case canonicalChildCipher old of Inl _ \<Rightarrow> Inl ChangedCipher
                        | Inr want \<Rightarrow> if sameCipher encryption want then Inr (p, encryption, remoteSPI)
                                      else Inl ChangedCipher)
                   | None \<Rightarrow> if childEncryptionAccepted encryption None then Inr (p, encryption, remoteSPI)
                             else Inl UnofferedCipher)
              | Inr _ \<Rightarrow> Inl IncompleteProposal)
      | Inr _ \<Rightarrow> Inl ProposalShape)"

fun suiteLoop ::
  "Transform list \<Rightarrow> (byte \<rightharpoonup> Transform) \<Rightarrow> (proposal_error, byte \<rightharpoonup> Transform) result" where
  "suiteLoop [] selected = Inr selected"
| "suiteLoop (t # ts) selected =
     (if TType t \<noteq> TransEncr \<and> TType t \<noteq> TransPRF \<and> TType t \<noteq> TransDH then Inl (SuiteType (TType t))
      else if selected (TType t) \<noteq> None then Inl (SuiteDuplicate (TType t))
      else if t \<notin> set (Transforms ikeProposal) then Inl SuiteUnoffered
      else suiteLoop ts (selected(TType t \<mapsto> t)))"

definition suiteFromProposal :: "Proposal \<Rightarrow> (proposal_error, SASuite) result" where
  "suiteFromProposal p =
     (if Number p \<noteq> 1 \<or> PProtocol p \<noteq> ProtoIKE \<or> length (PSPI p) \<noteq> 0 \<or> length (Transforms p) \<noteq> 3
      then Inl SuiteShape
      else case suiteLoop (Transforms p) Map.empty of Inl e \<Rightarrow> Inl e
      | Inr selected \<Rightarrow>
          (case (selected TransEncr, selected TransPRF, selected TransDH) of
             (Some encr, Some prfT, Some dhT) \<Rightarrow>
               Inr \<lparr>SuiteEncrID = TID encr, SuiteKeyBits = KeyLengthBits encr, PRFID = TID prfT, DHGroup = TID dhT\<rparr>
           | _ \<Rightarrow> Inl SuiteIncomplete))"

subsection \<open>Choosing from an offer\<close>

text \<open>
  \<open>selectDHTransform\<close>'s second loop over our own groups in order of preference: \<open>preferred\<close> is the
  first of them that was offered, \<open>matching\<close> the one with the group of the KE payload.
\<close>

fun dhLoop :: "Transform list \<Rightarrow> Transform list \<Rightarrow> u16 \<Rightarrow> Transform \<Rightarrow> Transform \<Rightarrow> Transform \<times> Transform" where
  "dhLoop [] ts keGroup preferred matching = (preferred, matching)"
| "dhLoop (want # wants) ts keGroup preferred matching =
     (if TType want \<noteq> TransDH \<or> want \<notin> set ts then dhLoop wants ts keGroup preferred matching
      else dhLoop wants ts keGroup (if TType preferred = 0 then want else preferred)
             (if TID want = keGroup then want else matching))"

definition selectDHTransform :: "Transform list \<Rightarrow> u16 \<Rightarrow> bool \<Rightarrow> Transform \<times> u16 \<times> bool" where
  "selectDHTransform ts keGroup optional =
     (let haveDH = list_ex (\<lambda>t. TType t = TransDH) ts;
          haveNone = list_ex (\<lambda>t. t = tr TransDH 0 0) ts;
          (preferred, matching) = dhLoop (Transforms ikeProposal) ts keGroup noTransform noTransform
      in if TType matching \<noteq> 0 then (matching, TID preferred, True)
         else if optional \<and> \<not> haveDH then (noTransform, 0, True)
         else if optional \<and> haveNone then (tr TransDH 0 0, 0, True)
         else (noTransform, TID preferred, False))"

record childScan =
  sc_encryption :: Transform
  sc_integ :: Transform
  haveEncryption :: bool
  haveESN :: bool
  haveInteg :: bool
  offeredInteg :: bool
  unacceptable :: bool

definition scanTransform :: "Transform option \<Rightarrow> Transform \<Rightarrow> childScan \<Rightarrow> childScan" where
  "scanTransform want t st =
     (if TType t = TransEncr then
        (case canonicalEncryptionTransform t of Inl _ \<Rightarrow> st
         | Inr candidate \<Rightarrow>
             if \<not> haveEncryption st \<and> childEncryptionAccepted candidate want
             then st\<lparr>sc_encryption := candidate, haveEncryption := True\<rparr> else st)
      else if TType t = TransESN then
        if \<not> haveESN st \<and> TID t = ESN_NO \<and> KeyLengthBits t = 0 \<and> \<not> UnsupportedAttributes t
        then st\<lparr>haveESN := True\<rparr> else st
      else if TType t = TransDH then st
      else if TType t = TransInteg then
        (let st = st\<lparr>offeredInteg := True\<rparr> in
         if \<not> haveInteg st \<and> TID t = INTEG_NONE \<and> \<not> UnsupportedAttributes t
         then st\<lparr>sc_integ := t, haveInteg := True\<rparr> else st)
      else st\<lparr>unacceptable := True\<rparr>)"

record childProposalSelection =
  sel_proposal :: Proposal
  sel_encryption :: Transform
  sel_dh :: Transform
  sel_integ :: Transform
  sel_remoteSPI :: u32

fun childRequestLoop ::
  "Proposal list \<Rightarrow> Transform option \<Rightarrow> u16 \<Rightarrow> u16 \<Rightarrow> (proposal_error, childProposalSelection) result" where
  "childRequestLoop [] want keGroup preferredDH =
     (if preferredDH \<noteq> 0 then Inl (InvalidKEGroup preferredDH) else Inl NoAcceptableChild)"
| "childRequestLoop (p # ps) want keGroup preferredDH =
     (if Number p = 0 \<or> PProtocol p \<noteq> ProtoESP \<or> length (PSPI p) \<noteq> 4 \<or> rd32 (PSPI p) = 0
      then childRequestLoop ps want keGroup preferredDH
      else let st = fold (scanTransform want) (Transforms p)
                 \<lparr>sc_encryption = noTransform, sc_integ = noTransform, haveEncryption = False, haveESN = False,
                  haveInteg = False, offeredInteg = False, unacceptable = False\<rparr>
        in if unacceptable st \<or> (offeredInteg st \<and> \<not> haveInteg st) \<or> \<not> haveEncryption st \<or> \<not> haveESN st
           then childRequestLoop ps want keGroup preferredDH
           else let (dh, preferred, ok) = selectDHTransform (Transforms p) keGroup True in
             if ok then Inr \<lparr>sel_proposal = p, sel_encryption = sc_encryption st, sel_dh = dh,
                             sel_integ = sc_integ st, sel_remoteSPI = rd32 (PSPI p)\<rparr>
             else childRequestLoop ps want keGroup (if preferredDH = 0 then preferred else preferredDH))"

definition selectChildRequestProposal ::
  "bytes \<Rightarrow> ChildSA option \<Rightarrow> u16 \<Rightarrow> (proposal_error, childProposalSelection) result" where
  "selectChildRequestProposal body expected keGroup =
     (case DecodeSA body of Inl e \<Rightarrow> Inl (InvalidSA e)
      | Inr props \<Rightarrow>
          (case expected of None \<Rightarrow> childRequestLoop props None keGroup 0
           | Some old \<Rightarrow>
               (case canonicalChildCipher old of Inl e \<Rightarrow> Inl e
                | Inr want \<Rightarrow> childRequestLoop props (Some want) keGroup 0)))"

text \<open>
  The scan of an IKE proposal both selections of an IKE SA make: whether every transform type is
  known, and the integrity transform NONE to echo, when integrity was offered at all.
\<close>

definition integNone :: "Transform list \<Rightarrow> Transform option" where
  "integNone ts = find (\<lambda>t. TType t = TransInteg \<and> TID t = INTEG_NONE \<and> \<not> UnsupportedAttributes t) ts"

definition knownTypes :: "Transform list \<Rightarrow> bool" where
  "knownTypes ts \<longleftrightarrow> list_all (\<lambda>t. TType t \<in> {TransEncr, TransPRF, TransDH, TransInteg}) ts
     \<and> (list_ex (\<lambda>t. TType t = TransInteg) ts \<longrightarrow> integNone ts \<noteq> None)"

definition pick :: "Transform list \<Rightarrow> Transform list \<Rightarrow> byte \<Rightarrow> Transform option" where
  "pick offered ts want = find (\<lambda>c. TType c = want \<and> c \<in> set ts) offered"

fun ikeProposalLoop ::
  "Proposal list \<Rightarrow> u16 \<Rightarrow> u16 \<Rightarrow> (proposal_error, Proposal \<times> SASuite) result" where
  "ikeProposalLoop [] keGroup preferredGroup =
     (if preferredGroup \<noteq> 0 then Inl (InvalidKEGroup preferredGroup) else Inl NoAcceptableIKE)"
| "ikeProposalLoop (p # ps) keGroup preferredGroup =
     (if Number p = 0 \<or> PProtocol p \<noteq> ProtoIKE \<or> length (PSPI p) \<noteq> 0 \<or> \<not> knownTypes (Transforms p)
      then ikeProposalLoop ps keGroup preferredGroup
      else let offered = Transforms ikeProposal in
        case (pick offered (Transforms p) TransEncr, pick offered (Transforms p) TransPRF,
              pick offered (Transforms p) TransDH) of
          (Some encr, Some prfT, Some dhT) \<Rightarrow>
            if TID dhT \<noteq> keGroup
            then ikeProposalLoop ps keGroup (if preferredGroup = 0 then TID dhT else preferredGroup)
            else Inr (\<lparr>Number = Number p, PProtocol = ProtoIKE, PSPI = [],
                       Transforms = [encr, prfT, dhT] @ (case integNone (Transforms p) of None \<Rightarrow> [] | Some t \<Rightarrow> [t])\<rparr>,
                      \<lparr>SuiteEncrID = TID encr, SuiteKeyBits = KeyLengthBits encr, PRFID = TID prfT, DHGroup = TID dhT\<rparr>)
        | _ \<Rightarrow> ikeProposalLoop ps keGroup preferredGroup)"

definition selectIKEProposal :: "bytes \<Rightarrow> u16 \<Rightarrow> (proposal_error, Proposal \<times> SASuite) result" where
  "selectIKEProposal body keGroup =
     (case DecodeSA body of Inl e \<Rightarrow> Inl (InvalidSA e) | Inr props \<Rightarrow> ikeProposalLoop props keGroup 0)"

text \<open>The result is \<open>Inr\<close> on \<open>ok\<close>, else \<open>Inl\<close> of the preferred group, 0 when there is none.\<close>

definition selectIKERekeyProposal :: "Proposal \<Rightarrow> u16 \<Rightarrow> u16 \<Rightarrow> (u16, Transform list \<times> SASuite) result" where
  "selectIKERekeyProposal p keGroup prfID =
     (if \<not> knownTypes (Transforms p) then Inl 0
      else let offered = Transforms (ikeRekeyProposal [] prfID) in
        case (pick offered (Transforms p) TransEncr, pick offered (Transforms p) TransPRF) of
          (Some encr, Some prfT) \<Rightarrow>
            (let (dh, preferred, ok) = selectDHTransform (Transforms p) keGroup False in
             if \<not> ok then Inl preferred
             else case suiteFromProposal \<lparr>Number = 1, PProtocol = ProtoIKE, PSPI = [], Transforms = [encr, prfT, dh]\<rparr> of
                    Inl _ \<Rightarrow> Inl 0
                  | Inr s \<Rightarrow> Inr ([encr, prfT, dh] @ (case integNone (Transforms p) of None \<Rightarrow> [] | Some t \<Rightarrow> [t]), s))
        | _ \<Rightarrow> Inl 0)"

definition invalidKENotifyData :: "u16 \<Rightarrow> bytes" where
  "invalidKENotifyData grp = put16 grp"

subsection \<open>Simultaneous rekeys\<close>

text \<open>\<open>bytesLess a b\<close> is \<open>bytes.Compare(a, b) < 0\<close>.\<close>

fun bytesLess :: "bytes \<Rightarrow> bytes \<Rightarrow> bool" where
  "bytesLess a [] = False"
| "bytesLess [] (b # bs) = True"
| "bytesLess (a # as) (b # bs) = (if a < b then True else if b < a then False else bytesLess as bs)"

definition lowestNonceBelongsToFirst :: "bytes \<Rightarrow> bytes \<Rightarrow> bytes \<Rightarrow> bytes \<Rightarrow> bool" where
  "lowestNonceBelongsToFirst firstI firstR secondI secondR =
     (let stp = (\<lambda>(nonce, isFirst) (lowest, first). if bytesLess nonce lowest then (nonce, isFirst) else (lowest, first))
      in snd (fold stp [(firstR, True), (secondI, False), (secondR, False)] (firstI, True)))"

section \<open>Selections are sound\<close>

lemma find_in: "find P xs = Some x \<Longrightarrow> P x \<and> x \<in> set xs"
  by (auto simp: find_Some_iff)

lemma pick_offered: "pick offered ts typ = Some t \<Longrightarrow> TType t = typ \<and> t \<in> set ts \<and> t \<in> set offered"
  by (auto simp: pick_def dest!: find_in)

text \<open>One transform of each of the types named, all from \<open>offer\<close>.\<close>

definition one_of_each :: "Transform list \<Rightarrow> Transform list \<Rightarrow> bool" where
  "one_of_each ts offer \<longleftrightarrow> set ts \<subseteq> set offer \<and> distinct (map TType ts)
     \<and> set (map TType ts) = set (map TType offer)"

definition suite_of :: "Transform \<Rightarrow> Transform \<Rightarrow> Transform \<Rightarrow> SASuite" where
  "suite_of encr prfT dhT =
     \<lparr>SuiteEncrID = TID encr, SuiteKeyBits = KeyLengthBits encr, PRFID = TID prfT, DHGroup = TID dhT\<rparr>"

lemma ikeProposal_suites:
  "encr \<in> set (Transforms ikeProposal) \<Longrightarrow> TType encr = TransEncr \<Longrightarrow>
   prfT \<in> set (Transforms ikeProposal) \<Longrightarrow> TType prfT = TransPRF \<Longrightarrow> suite_known (suite_of encr prfT dhT)"
  by (auto simp: ikeProposal_def tr_def suite_known_def suite_of_def aeadParamsFor_def PRFOutputLen_def)

lemma ikeProposal_groups:
  "dhT \<in> set (Transforms ikeProposal) \<Longrightarrow> TType dhT = TransDH \<Longrightarrow> curveForGroup (TID dhT) \<and> supportedIKEGroup (TID dhT)"
  by (auto simp: ikeProposal_def tr_def curveForGroup_def supportedIKEGroup_def)

lemma knownTypes_integ:
  assumes "knownTypes ts"
  shows "TransInteg \<in> set (map TType ts) \<longleftrightarrow> integNone ts \<noteq> None"
    "integNone ts = Some t \<Longrightarrow> t \<in> set ts \<and> TType t = TransInteg"
  using assms by (auto simp: knownTypes_def integNone_def list_ex_iff find_None_iff dest!: find_in)

lemma selected_one_of_each:
  assumes known: "knownTypes ts"
    and picked: "encr \<in> set ts" "TType encr = TransEncr" "prfT \<in> set ts" "TType prfT = TransPRF"
      "dhT \<in> set ts" "TType dhT = TransDH"
  shows "one_of_each ([encr, prfT, dhT] @ (case integNone ts of None \<Rightarrow> [] | Some t \<Rightarrow> [t])) ts"
proof -
  have sub: "set (map TType ts) \<subseteq> {TransEncr, TransPRF, TransDH, TransInteg}"
    using known by (auto simp: knownTypes_def list_all_iff)
  have have3: "{TransEncr, TransPRF, TransDH} \<subseteq> set (map TType ts)"
    using picked by (auto simp: image_iff)
  show ?thesis
  proof (cases "integNone ts")
    case None
    then have "TransInteg \<notin> set (map TType ts)" using knownTypes_integ(1) [OF known] by simp
    then have "set (map TType ts) = {TransEncr, TransPRF, TransDH}" using sub have3 by auto
    then show ?thesis using None picked by (auto simp: one_of_each_def)
  next
    case (Some t)
    from knownTypes_integ [OF known] Some have t: "t \<in> set ts" "TType t = TransInteg"
      "TransInteg \<in> set (map TType ts)" by auto
    then have "set (map TType ts) = {TransEncr, TransPRF, TransDH, TransInteg}" using sub have3 by auto
    then show ?thesis using Some picked t by (auto simp: one_of_each_def)
  qed
qed

lemma ikeProposalLoop_sound:
  assumes "ikeProposalLoop props keGroup pref = Inr (sel, s)"
  shows "\<exists>p \<in> set props. Number sel = Number p \<and> PProtocol p = ProtoIKE \<and> PSPI sel = []
    \<and> one_of_each (Transforms sel) (Transforms p) \<and> DHGroup s = keGroup
    \<and> suite_known s \<and> curveForGroup (DHGroup s)"
  using assms
proof (induction props keGroup pref rule: ikeProposalLoop.induct)
  case (1 keGroup pref)
  then show ?case by (simp split: if_splits)
next
  case (2 p ps keGroup pref)
  let ?o = "Transforms ikeProposal"
  show ?case
  proof (cases "\<exists>encr prfT dhT. pick ?o (Transforms p) TransEncr = Some encr
      \<and> pick ?o (Transforms p) TransPRF = Some prfT \<and> pick ?o (Transforms p) TransDH = Some dhT
      \<and> TID dhT = keGroup \<and> \<not> (Number p = 0 \<or> PProtocol p \<noteq> ProtoIKE \<or> length (PSPI p) \<noteq> 0 \<or> \<not> knownTypes (Transforms p))")
    case True
    then obtain encr prfT dhT where pk: "pick ?o (Transforms p) TransEncr = Some encr"
      "pick ?o (Transforms p) TransPRF = Some prfT" "pick ?o (Transforms p) TransDH = Some dhT"
      and k: "TID dhT = keGroup" "PProtocol p = ProtoIKE" "knownTypes (Transforms p)"
        "Number p \<noteq> 0" "PSPI p = []"
      by auto
    note off = pick_offered [OF pk(1)] pick_offered [OF pk(2)] pick_offered [OF pk(3)]
    have sel: "sel = \<lparr>Number = Number p, PProtocol = ProtoIKE, PSPI = [],
        Transforms = [encr, prfT, dhT] @ (case integNone (Transforms p) of None \<Rightarrow> [] | Some t \<Rightarrow> [t])\<rparr>"
      "s = suite_of encr prfT dhT"
      using "2.prems" k by (auto simp: pk suite_of_def Let_def)
    have "one_of_each (Transforms sel) (Transforms p)"
      using selected_one_of_each [OF k(3)] off by (auto simp: sel)
    moreover have "suite_known s" "curveForGroup (DHGroup s)" "DHGroup s = keGroup"
      using ikeProposal_suites [of encr prfT dhT] ikeProposal_groups [of dhT] off k(1) by (auto simp: sel suite_of_def)
    ultimately show ?thesis using k by (auto simp: sel)
  next
    case False
    then obtain pref' where "ikeProposalLoop ps keGroup pref' = Inr (sel, s)"
      and "ikeProposalLoop ps keGroup pref' = Inr (sel, s) \<Longrightarrow> \<exists>q \<in> set ps. Number sel = Number q \<and> PProtocol q = ProtoIKE
        \<and> PSPI sel = [] \<and> one_of_each (Transforms sel) (Transforms q) \<and> DHGroup s = keGroup
        \<and> suite_known s \<and> curveForGroup (DHGroup s)"
      using "2.prems" "2.IH" by (auto simp: Let_def split: if_splits option.splits)
    then show ?thesis by auto
  qed
qed

lemma canonical_known:
  "canonicalEncryptionTransform t = Inr c \<Longrightarrow> TType c = TransEncr \<and> TID c = TID t
     \<and> (\<exists>ap. aeadParamsFor (TID c) (KeyLengthBits c) = Inr ap) \<and> \<not> UnsupportedAttributes c
     \<and> (TID c = ENCR_CHACHA20_POLY1305 \<longrightarrow> KeyLengthBits c = 256 \<and> KeyLengthBits t = 0)
     \<and> (TID c \<noteq> ENCR_CHACHA20_POLY1305 \<longrightarrow> c = t)"
  by (auto simp: canonicalEncryptionTransform_def aeadParamsFor_def split: if_splits sum.splits)

text \<open>What the scan of a proposal has established, transform by transform.\<close>

definition scan_ok :: "Transform option \<Rightarrow> Transform list \<Rightarrow> childScan \<Rightarrow> bool" where
  "scan_ok want ts st \<longleftrightarrow>
     (haveEncryption st \<longrightarrow> (\<exists>t \<in> set ts. canonicalEncryptionTransform t = Inr (sc_encryption st)
        \<and> childEncryptionAccepted (sc_encryption st) want))
     \<and> (haveESN st \<longrightarrow> tr TransESN ESN_NO 0 \<in> set ts)
     \<and> (haveInteg st \<longrightarrow> sc_integ st \<in> set ts \<and> TType (sc_integ st) = TransInteg \<and> TID (sc_integ st) = INTEG_NONE)
     \<and> (\<not> haveInteg st \<longrightarrow> sc_integ st = noTransform)"

lemma scanTransform_ok:
  assumes "scan_ok want ts st" shows "scan_ok want (t # ts) (scanTransform want t st)"
proof -
  have esn: "TType t = TransESN \<Longrightarrow> TID t = ESN_NO \<Longrightarrow> KeyLengthBits t = 0 \<Longrightarrow> \<not> UnsupportedAttributes t
      \<Longrightarrow> tr TransESN ESN_NO 0 = t" by (simp add: tr_def)
  show ?thesis using assms esn
    by (auto simp: scan_ok_def scanTransform_def Let_def split: sum.splits)
qed

lemma scan_fold_ok: "scan_ok want ts st \<Longrightarrow> scan_ok want (rev us @ ts) (fold (scanTransform want) us st)"
proof (induction us arbitrary: st ts)
  case (Cons u us)
  from Cons.IH [OF scanTransform_ok [OF Cons.prems, of u]] show ?case by simp
qed simp

lemma scan_all_ok:
  "scan_ok want ts (fold (scanTransform want) ts \<lparr>sc_encryption = noTransform, sc_integ = noTransform,
     haveEncryption = False, haveESN = False, haveInteg = False, offeredInteg = False, unacceptable = False\<rparr>)"
proof -
  let ?s = "\<lparr>sc_encryption = noTransform, sc_integ = noTransform, haveEncryption = False, haveESN = False,
     haveInteg = False, offeredInteg = False, unacceptable = False\<rparr>"
  have "scan_ok want [] ?s" by (simp add: scan_ok_def)
  from scan_fold_ok [OF this, of ts] show ?thesis by (simp add: scan_ok_def)
qed

lemma dhLoop_props:
  "dhLoop wants ts g pref mat = (p, m) \<Longrightarrow>
   (m = mat \<or> m \<in> set wants \<and> m \<in> set ts \<and> TType m = TransDH \<and> TID m = g)"
  by (induction wants ts g pref mat rule: dhLoop.induct) (auto split: if_splits)

lemma selectDHTransform_sound:
  assumes "selectDHTransform ts g opt = (dh, pref, True)"
  shows "dh \<in> set ts \<and> TType dh = TransDH \<and> TID dh = g \<and> curveForGroup g \<and> dh \<in> set (Transforms ikeProposal)
    \<or> opt \<and> dh = noTransform \<and> (\<forall>t \<in> set ts. TType t \<noteq> TransDH) \<or> opt \<and> dh = tr TransDH 0 0 \<and> dh \<in> set ts"
proof -
  obtain p m where l: "dhLoop (Transforms ikeProposal) ts g noTransform noTransform = (p, m)" by fastforce
  have m: "TType m \<noteq> 0 \<Longrightarrow> m \<in> set (Transforms ikeProposal) \<and> m \<in> set ts \<and> TType m = TransDH \<and> TID m = g"
    using dhLoop_props [OF l] by (auto simp: noTransform_def)
  show ?thesis
  proof (cases "TType m \<noteq> 0")
    case True
    with assms have "dh = m" by (simp add: selectDHTransform_def l Let_def)
    with m [OF True] ikeProposal_groups [of m] show ?thesis by auto
  next
    case False
    with assms show ?thesis
      by (auto simp: selectDHTransform_def l Let_def list_ex_iff split: if_splits)
  qed
qed

text \<open>What the responder takes out of an offer for a Child SA.\<close>

definition child_choice :: "Proposal list \<Rightarrow> Transform option \<Rightarrow> u16 \<Rightarrow> childProposalSelection \<Rightarrow> bool" where
  "child_choice props want g sel \<longleftrightarrow>
     (\<exists>p \<in> set props. sel_proposal sel = p \<and> PProtocol p = ProtoESP \<and> Number p \<noteq> 0
        \<and> sel_remoteSPI sel = rd32 (PSPI p) \<and> sel_remoteSPI sel \<noteq> 0
        \<and> (\<exists>t \<in> set (Transforms p). canonicalEncryptionTransform t = Inr (sel_encryption sel))
        \<and> childEncryptionAccepted (sel_encryption sel) want
        \<and> tr TransESN ESN_NO 0 \<in> set (Transforms p)
        \<and> (TID (sel_dh sel) \<noteq> 0 \<longrightarrow> sel_dh sel \<in> set (Transforms p) \<and> TID (sel_dh sel) = g \<and> curveForGroup g))"

lemma childRequestLoop_sound:
  assumes "childRequestLoop props want g pref = Inr sel"
  shows "child_choice props want g sel"
  using assms
proof (induction props want g pref rule: childRequestLoop.induct)
  case (1 want g pref)
  then show ?case by (simp split: if_splits)
next
  case (2 p ps want g pref)
  let ?st = "fold (scanTransform want) (Transforms p) \<lparr>sc_encryption = noTransform, sc_integ = noTransform,
     haveEncryption = False, haveESN = False, haveInteg = False, offeredInteg = False, unacceptable = False\<rparr>"
  obtain dh pr ok where dh: "selectDHTransform (Transforms p) g True = (dh, pr, ok)" by (cases "selectDHTransform (Transforms p) g True")
  let ?skip = "Number p = 0 \<or> PProtocol p \<noteq> ProtoESP \<or> length (PSPI p) \<noteq> 4 \<or> rd32 (PSPI p) = 0"
  let ?bad = "unacceptable ?st \<or> (offeredInteg ?st \<and> \<not> haveInteg ?st) \<or> \<not> haveEncryption ?st \<or> \<not> haveESN ?st"
  have weaken: "child_choice ps want g sel \<Longrightarrow> child_choice (p # ps) want g sel" by (auto simp: child_choice_def)
  show ?case
  proof (cases "?skip \<or> ?bad \<or> \<not> ok")
    case True
    then have "\<exists>pref'. childRequestLoop ps want g pref' = Inr sel \<and> (childRequestLoop ps want g pref' = Inr sel \<longrightarrow> child_choice ps want g sel)"
      using "2.prems" "2.IH" dh by (auto simp: Let_def split: if_splits)
    then show ?thesis using weaken by blast
  next
    case False
    then have sel: "sel = \<lparr>sel_proposal = p, sel_encryption = sc_encryption ?st, sel_dh = dh, sel_integ = sc_integ ?st,
        sel_remoteSPI = rd32 (PSPI p)\<rparr>" and ok: ok
      using "2.prems" dh by (auto simp: Let_def split: if_splits)
    from selectDHTransform_sound [OF dh [unfolded eqTrueI [OF ok]]]
    have "TID dh \<noteq> 0 \<longrightarrow> dh \<in> set (Transforms p) \<and> TID dh = g \<and> curveForGroup g"
      by (auto simp: noTransform_def tr_def)
    with scan_all_ok [of want "Transforms p"] False show ?thesis
      by (auto simp: child_choice_def scan_ok_def sel)
  qed
qed

lemma selectChildRequestProposal_sound:
  assumes "selectChildRequestProposal body expected g = Inr sel"
  shows "\<exists>props want. DecodeSA body = Inr props \<and> child_choice props want g sel
    \<and> (expected = None \<longrightarrow> want = None) \<and> (\<forall>old. expected = Some old \<longrightarrow> canonicalChildCipher old = Inr (the want) \<and> want \<noteq> None)"
  using assms by (auto simp: selectChildRequestProposal_def split: sum.splits option.splits dest: childRequestLoop_sound)

section \<open>The two ends agree on our own offers\<close>

text \<open>
  The answers the code builds: \<open>responderChild.proposal\<close> in IKE\_AUTH and the proposal of
  \<open>handleChildRekey\<close>. The key length of ChaCha20-Poly1305, which has no attribute, is taken out
  again.
\<close>

definition wireCipher :: "Transform \<Rightarrow> Transform" where
  "wireCipher t = (if TID t = ENCR_CHACHA20_POLY1305 then t\<lparr>KeyLengthBits := 0\<rparr> else t)"

definition responderProposal :: "childProposalSelection \<Rightarrow> bytes \<Rightarrow> Proposal" where
  "responderProposal sel spi =
     \<lparr>Number = Number (sel_proposal sel), PProtocol = ProtoESP, PSPI = spi,
      Transforms = [wireCipher (sel_encryption sel), tr TransESN ESN_NO 0]
        @ (if TType (sel_dh sel) \<noteq> 0 then [sel_dh sel] else [])
        @ (if TType (sel_integ sel) \<noteq> 0 then [sel_integ sel] else [])\<rparr>"

definition rekeyAnswer :: "childProposalSelection \<Rightarrow> bytes \<Rightarrow> Proposal" where
  "rekeyAnswer sel spi =
     \<lparr>Number = Number (sel_proposal sel), PProtocol = ProtoESP, PSPI = spi,
      Transforms = [wireCipher (sel_encryption sel), tr TransESN ESN_NO 0]
        @ (if TType (sel_integ sel) \<noteq> 0 then [sel_integ sel] else [])
        @ (if TType (sel_dh sel) \<noteq> 0 then [sel_dh sel] else [])\<rparr>"

lemmas offer_simps = tr_def noTransform_def ikeProposal_def espProposal_def proposal_fits_def
  canonicalEncryptionTransform_def aeadParamsFor_def childEncryptionAccepted_def sameCipher_def

lemma ikeProposal_fits: "proposal_fits ikeProposal"
  by (simp add: offer_simps)

lemma espProposal_fits: "length spi = 4 \<Longrightarrow> proposal_fits (espProposal spi)"
  by (simp add: offer_simps)

definition ikeAnswer :: Proposal where
  "ikeAnswer = \<lparr>Number = 1, PProtocol = ProtoIKE, PSPI = [], Transforms = [tr TransEncr ENCR_AES_GCM_16 256,
     tr TransPRF PRF_HMAC_SHA2_384 0, tr TransDH DH_CURVE25519 0]\<rparr>"

definition ikeSuite :: SASuite where
  "ikeSuite = \<lparr>SuiteEncrID = ENCR_AES_GCM_16, SuiteKeyBits = 256, PRFID = PRF_HMAC_SHA2_384, DHGroup = DH_CURVE25519\<rparr>"

lemma ikeSuite_known: "suite_known ikeSuite" "curveForGroup (DHGroup ikeSuite)"
  by (auto simp: ikeSuite_def suite_known_def aeadParamsFor_def PRFOutputLen_def curveForGroup_def)

lemma own_ike_offer:
  "selectIKEProposal (EncodeSA [ikeProposal]) keGroup =
     (if keGroup = DH_CURVE25519 then Inr (ikeAnswer, ikeSuite) else Inl (InvalidKEGroup DH_CURVE25519))"
proof -
  have d: "DecodeSA (EncodeSA [ikeProposal]) = Inr [ikeProposal]"
    by (rule DecodeSA_encode) (simp add: ikeProposal_fits)
  show ?thesis
    unfolding selectIKEProposal_def d
    by (auto simp: offer_simps knownTypes_def pick_def integNone_def ikeAnswer_def ikeSuite_def)
qed

lemma own_ike_answer: "DecodeSA (EncodeSA [ikeAnswer]) = Inr [ikeAnswer]" "suiteFromProposal ikeAnswer = Inr ikeSuite"
proof -
  show "DecodeSA (EncodeSA [ikeAnswer]) = Inr [ikeAnswer]"
    by (rule DecodeSA_encode) (simp add: ikeAnswer_def offer_simps)
  show "suiteFromProposal ikeAnswer = Inr ikeSuite"
    by (simp add: suiteFromProposal_def ikeAnswer_def offer_simps ikeSuite_def)
qed

text \<open>The ciphers an installed Child SA can have: what \<open>decodeChildProposal\<close> and the selection return.\<close>

definition childCiphers :: "(u16 \<times> u16) set" where
  "childCiphers = {(ENCR_AES_GCM_16, 256), (ENCR_AES_GCM_16, 128), (ENCR_CHACHA20_POLY1305, 256)}"

lemma rd32_put32: "rd32 (put32 w) = w" by simp

lemma own_child_offer:
  assumes "spi \<noteq> 0"
  shows "selectChildRequestProposal (EncodeSA [espProposal (put32 spi)]) None 0 =
    Inr \<lparr>sel_proposal = espProposal (put32 spi), sel_encryption = tr TransEncr ENCR_AES_GCM_16 256,
         sel_dh = noTransform, sel_integ = noTransform, sel_remoteSPI = spi\<rparr>"
proof -
  have d: "DecodeSA (EncodeSA [espProposal (put32 spi)]) = Inr [espProposal (put32 spi)]"
    by (rule DecodeSA_encode) (simp add: espProposal_fits)
  show ?thesis
    using assms unfolding selectChildRequestProposal_def d
    by (simp add: offer_simps scanTransform_def selectDHTransform_def Let_def)
qed

lemma own_child_answer:
  assumes "spi \<noteq> 0" "(TID c, KeyLengthBits c) \<in> childCiphers" "TType c = TransEncr" "\<not> UnsupportedAttributes c"
    and "Transforms p = [wireCipher c, tr TransESN ESN_NO 0]" "Number p = 1" "PProtocol p = ProtoESP" "PSPI p = put32 spi"
    and "expected = None \<or> expected = Some old \<and> EncrID old = TID c \<and> EncrKeyBits old = KeyLengthBits c"
  shows "decodeChildProposal (EncodeSA [p]) expected = Inr (p, c, spi)"
proof -
  have d: "DecodeSA (EncodeSA [p]) = Inr [p]"
    using assms by (intro DecodeSA_encode) (auto simp: proposal_fits_def tr_def wireCipher_def)
  have c: "c = tr TransEncr ENCR_AES_GCM_16 256 \<or> c = tr TransEncr ENCR_AES_GCM_16 128 \<or> c = tr TransEncr ENCR_CHACHA20_POLY1305 256"
    using assms(2-4) by (auto simp: childCiphers_def tr_def)
  have canon: "canonicalEncryptionTransform (wireCipher c) = Inr c"
    using c by (auto simp: wireCipher_def offer_simps)
  have acc: "childEncryptionAccepted c None" using c by (auto simp: offer_simps)
  have enc: "TType (wireCipher c) = TransEncr" using assms(3) by (simp add: wireCipher_def)
  have old: "canonicalChildCipher old = Inr c" if "expected = Some old"
  proof -
    from that assms(9) have "EncrID old = TID c" "EncrKeyBits old = KeyLengthBits c" by auto
    then show ?thesis using c by (auto simp: canonicalChildCipher_def offer_simps)
  qed
  show ?thesis
    unfolding decodeChildProposal_def d
    using assms(1,5-9) canon acc enc old
    by (auto simp: Let_def tr_def sameCipher_def split: option.splits)
qed

lemma own_child_rekey_offer:
  assumes "spi \<noteq> 0" "(EncrID old, EncrKeyBits old) \<in> childCiphers"
    "EncrID old' = EncrID old" "EncrKeyBits old' = EncrKeyBits old"
  shows "selectChildRequestProposal (EncodeSA [espRekeyProposal (put32 spi) old]) (Some old') 0 =
    Inr \<lparr>sel_proposal = espRekeyProposal (put32 spi) old, sel_encryption = tr TransEncr (EncrID old) (EncrKeyBits old),
         sel_dh = noTransform, sel_integ = noTransform, sel_remoteSPI = spi\<rparr>"
proof -
  have canon: "canonicalChildCipher old = Inr (tr TransEncr (EncrID old) (EncrKeyBits old))"
    "canonicalChildCipher old' = Inr (tr TransEncr (EncrID old) (EncrKeyBits old))"
    using assms(2-4) by (auto simp: childCiphers_def canonicalChildCipher_def offer_simps)
  have p: "espRekeyProposal (put32 spi) old = (espProposal (put32 spi))\<lparr>Transforms :=
      [wireCipher (tr TransEncr (EncrID old) (EncrKeyBits old)), tr TransESN ESN_NO 0]\<rparr>"
    using assms(2) by (auto simp: espRekeyProposal_def canon childCiphers_def offer_simps wireCipher_def)
  have d: "DecodeSA (EncodeSA [espRekeyProposal (put32 spi) old]) = Inr [espRekeyProposal (put32 spi) old]"
    by (rule DecodeSA_encode) (auto simp: p offer_simps wireCipher_def)
  show ?thesis
    using assms(1,2) unfolding selectChildRequestProposal_def d option.case canon
    by (auto simp: p offer_simps childCiphers_def scanTransform_def selectDHTransform_def wireCipher_def Let_def)
qed

definition child_agreed :: "bytes \<Rightarrow> (childProposalSelection \<Rightarrow> bytes \<Rightarrow> Proposal) \<Rightarrow> u32 \<Rightarrow> u32
    \<Rightarrow> ChildSA option \<Rightarrow> ChildSA option \<Rightarrow> childProposalSelection \<Rightarrow> bool" where
  "child_agreed offer answer spi spi' expectedI expectedR sel \<longleftrightarrow>
     selectChildRequestProposal offer expectedR 0 = Inr sel \<and> sel_remoteSPI sel = spi \<and> TID (sel_dh sel) = 0
     \<and> (\<exists>p. decodeChildProposal (EncodeSA [answer sel (put32 spi')]) expectedI = Inr (p, sel_encryption sel, spi'))"

lemma initial_agreed:
  assumes "spi \<noteq> 0" "spi' \<noteq> 0"
  shows "\<exists>sel. child_agreed (EncodeSA [espProposal (put32 spi)]) responderProposal spi spi' None None sel
    \<and> (TID (sel_encryption sel), KeyLengthBits (sel_encryption sel)) \<in> childCiphers"
proof -
  let ?sel = "\<lparr>sel_proposal = espProposal (put32 spi), sel_encryption = tr TransEncr ENCR_AES_GCM_16 256,
      sel_dh = noTransform, sel_integ = noTransform, sel_remoteSPI = spi\<rparr>"
  have "decodeChildProposal (EncodeSA [responderProposal ?sel (put32 spi')]) None
      = Inr (responderProposal ?sel (put32 spi'), tr TransEncr ENCR_AES_GCM_16 256, spi')"
    by (rule own_child_answer [OF assms(2)])
      (simp_all add: responderProposal_def espProposal_def tr_def childCiphers_def noTransform_def)
  then have "child_agreed (EncodeSA [espProposal (put32 spi)]) responderProposal spi spi' None None ?sel"
    unfolding child_agreed_def own_child_offer [OF assms(1)] by (simp add: noTransform_def del: EncodeSA.simps)
  moreover have "(TID (sel_encryption ?sel), KeyLengthBits (sel_encryption ?sel)) \<in> childCiphers"
    by (simp add: childCiphers_def tr_def)
  ultimately show ?thesis by blast
qed

lemma rekey_agreed:
  assumes "spi \<noteq> 0" "spi' \<noteq> 0"
    and c: "(EncrID old, EncrKeyBits old) \<in> childCiphers" "EncrID old' = EncrID old" "EncrKeyBits old' = EncrKeyBits old"
  shows "\<exists>sel. child_agreed (EncodeSA [espRekeyProposal (put32 spi) old]) rekeyAnswer spi spi' (Some old) (Some old') sel
    \<and> TID (sel_encryption sel) = EncrID old \<and> KeyLengthBits (sel_encryption sel) = EncrKeyBits old"
proof -
  let ?c = "tr TransEncr (EncrID old) (EncrKeyBits old)"
  let ?sel = "\<lparr>sel_proposal = espRekeyProposal (put32 spi) old, sel_encryption = ?c,
      sel_dh = noTransform, sel_integ = noTransform, sel_remoteSPI = spi\<rparr>"
  have n: "Number (espRekeyProposal (put32 spi) old) = 1"
    by (auto simp: espRekeyProposal_def espProposal_def Let_def split: sum.splits)
  have "decodeChildProposal (EncodeSA [rekeyAnswer ?sel (put32 spi')]) (Some old) = Inr (rekeyAnswer ?sel (put32 spi'), ?c, spi')"
    by (rule own_child_answer [OF assms(2), where old = old])
      (use c n in \<open>simp_all add: rekeyAnswer_def tr_def noTransform_def\<close>)
  then have "child_agreed (EncodeSA [espRekeyProposal (put32 spi) old]) rekeyAnswer spi spi' (Some old) (Some old') ?sel"
    unfolding child_agreed_def own_child_rekey_offer [OF assms(1) c] by (simp add: noTransform_def del: EncodeSA.simps)
  moreover have "TID (sel_encryption ?sel) = EncrID old" "KeyLengthBits (sel_encryption ?sel) = EncrKeyBits old"
    by (simp_all add: tr_def)
  ultimately show ?thesis by blast
qed

text \<open>
  C33. Both ends settle on one Child SA. Whatever non-zero SPIs they draw, the responder selects from
  our offer, initial or rekey, the initiator's SPI and a cipher, and the initiator reads the answer
  built from that selection as the same cipher and the responder's SPI. A rekey keeps the cipher of
  the SA it replaces.
\<close>
theorem child_negotiation_agrees:
  assumes "spi \<noteq> 0" "spi' \<noteq> 0"
  shows "(\<exists>sel. child_agreed (EncodeSA [espProposal (put32 spi)]) responderProposal spi spi' None None sel
      \<and> (TID (sel_encryption sel), KeyLengthBits (sel_encryption sel)) \<in> childCiphers)
    \<and> (\<forall>old old'. (EncrID old, EncrKeyBits old) \<in> childCiphers \<and> EncrID old' = EncrID old \<and> EncrKeyBits old' = EncrKeyBits old
        \<longrightarrow> (\<exists>sel. child_agreed (EncodeSA [espRekeyProposal (put32 spi) old]) rekeyAnswer spi spi' (Some old) (Some old') sel
              \<and> TID (sel_encryption sel) = EncrID old \<and> KeyLengthBits (sel_encryption sel) = EncrKeyBits old))"
  using initial_agreed [OF assms] rekey_agreed [OF assms] by blast

theorem child_negotiation_agrees_witness:
  "(\<exists>sel. child_agreed (EncodeSA [espProposal (put32 300)]) responderProposal 300 500 None None sel)
   \<and> (\<exists>sel. child_agreed (EncodeSA [espRekeyProposal (put32 300) childA]) rekeyAnswer 300 500 (Some childA) (Some childB) sel)"
proof -
  have "(EncrID childA, EncrKeyBits childA) \<in> childCiphers \<and> EncrID childB = EncrID childA \<and> EncrKeyBits childB = EncrKeyBits childA"
    by (simp add: childA_def childB_def childCiphers_def)
  then show ?thesis using child_negotiation_agrees [of 300 500] by auto
qed

section \<open>Simultaneous rekeys\<close>

lemma bytesLess_irrefl [simp]: "\<not> bytesLess a a"
  by (induction a) auto

lemma bytesLess_trans: "bytesLess a b \<Longrightarrow> bytesLess b c \<Longrightarrow> bytesLess a c"
proof (induction a b arbitrary: c rule: bytesLess.induct)
  case (2 b bs)
  then show ?case by (cases c) auto
next
  case (3 a as b bs)
  then show ?case by (cases c) (auto split: if_splits)
qed simp

lemma bytesLess_linear: "bytesLess a b \<or> a = b \<or> bytesLess b a"
proof (induction a b rule: bytesLess.induct)
  case (1 a)
  then show ?case by (cases a) auto
qed auto

lemma bytesLess_asym: "bytesLess a b \<Longrightarrow> \<not> bytesLess b a"
  using bytesLess_trans bytesLess_irrefl by blast

text \<open>
  The first exchange has the lowest nonce when it holds one that none of the second is below, and
  otherwise the second holds one below all of the first.
\<close>

lemma lowest_first:
  "lowestNonceBelongsToFirst fi fr si sr \<Longrightarrow> \<exists>x \<in> {fi, fr}. \<forall>y \<in> {si, sr}. \<not> bytesLess y x"
  "\<not> lowestNonceBelongsToFirst fi fr si sr \<Longrightarrow> \<exists>y \<in> {si, sr}. \<forall>x \<in> {fi, fr}. bytesLess y x"
proof -
  have below: "bytesLess y x" if "bytesLess y z" "\<not> bytesLess x z" for x y z
    using that bytesLess_linear [of x z] bytesLess_trans by blast
  define m where "m = (if bytesLess fr fi then fr else fi)"
  have m: "\<not> bytesLess fi m" "\<not> bytesLess fr m" "m \<in> {fi, fr}"
    by (auto simp: m_def bytesLess_asym)
  have iff: "lowestNonceBelongsToFirst fi fr si sr \<longleftrightarrow> \<not> bytesLess si m \<and> \<not> bytesLess sr m"
    using bytesLess_trans by (auto simp: lowestNonceBelongsToFirst_def m_def)
  show "lowestNonceBelongsToFirst fi fr si sr \<Longrightarrow> \<exists>x \<in> {fi, fr}. \<forall>y \<in> {si, sr}. \<not> bytesLess y x"
    using m(3) by (intro bexI [of _ m]) (auto simp: iff)
  assume "\<not> lowestNonceBelongsToFirst fi fr si sr"
  then obtain y where "y \<in> {si, sr}" "bytesLess y m" by (auto simp: iff)
  with m(1,2) below show "\<exists>y \<in> {si, sr}. \<forall>x \<in> {fi, fr}. bytesLess y x" by auto
qed

text \<open>
  C34. When two rekeys of one IKE SA cross, the ends agree on which of the two new SAs goes. Each end
  passes its own exchange first; if no nonce of one exchange equals one of the other, exactly one
  end deletes its own SA, and it is the one whose exchange holds the lowest of the four nonces. An
  end that saw no crossing exchange, and so has no nonces of it, never gives up its own.
\<close>
theorem rekey_collision_agreed:
  assumes "{niA, nrB} \<inter> {niB, nrA} = {}"
  shows "(lowestNonceBelongsToFirst niA nrB niB nrA \<longleftrightarrow> \<not> lowestNonceBelongsToFirst niB nrA niA nrB)
    \<and> (lowestNonceBelongsToFirst niA nrB niB nrA \<longleftrightarrow> (\<exists>x \<in> {niA, nrB}. \<forall>y \<in> {niB, nrA}. bytesLess x y))
    \<and> (niA \<noteq> [] \<and> nrB \<noteq> [] \<longrightarrow> \<not> lowestNonceBelongsToFirst niA nrB [] [])"
proof (intro conjI)
  let ?A = "lowestNonceBelongsToFirst niA nrB niB nrA" and ?B = "lowestNonceBelongsToFirst niB nrA niA nrB"
  have less: "bytesLess x y" if "x \<in> {niA, nrB}" "y \<in> {niB, nrA}" "\<not> bytesLess y x" for x y
    using that assms bytesLess_linear [of x y] by auto
  have A: "?A \<Longrightarrow> \<exists>x \<in> {niA, nrB}. \<forall>y \<in> {niB, nrA}. bytesLess x y"
    using lowest_first(1) less by meson
  have nA: "\<not> ?A \<Longrightarrow> \<exists>y \<in> {niB, nrA}. \<forall>x \<in> {niA, nrB}. bytesLess y x"
    by (rule lowest_first(2))
  show "?A \<longleftrightarrow> (\<exists>x \<in> {niA, nrB}. \<forall>y \<in> {niB, nrA}. bytesLess x y)"
    using A nA bytesLess_asym by meson
  have B: "\<not> ?B" if ?A
    using A [OF that] lowest_first(1) [of niB nrA niA nrB] by meson
  have nB: ?B if "\<not> ?A"
    using nA [OF that] lowest_first(2) [of niB nrA niA nrB] bytesLess_asym by meson
  show "?A \<longleftrightarrow> \<not> ?B" using B nB by blast
  show "niA \<noteq> [] \<and> nrB \<noteq> [] \<longrightarrow> \<not> lowestNonceBelongsToFirst niA nrB [] []"
    using lowest_first(1) [of niA nrB "[]" "[]"] by (auto simp: neq_Nil_conv)
qed

theorem rekey_collision_agreed_witness:
  "lowestNonceBelongsToFirst [1, 2] [9] [3] [4] \<and> \<not> lowestNonceBelongsToFirst [3] [4] [1, 2] [9]
   \<and> \<not> lowestNonceBelongsToFirst [1, 2] [9] [] []"
  using rekey_collision_agreed [of "[1, 2]" "[9]" "[3]" "[4]"] by auto

end
