(* ===== verification/Ike_Identity.thy ===== *)
theory Ike_Identity
  imports Ike_Crypto
begin

unbundle bit_operations_syntax

text \<open>
  Identities and their proof: the DER encoder and decoder of \<open>ike/der.go\<close>, the AUTH payload of
  \<open>ike/auth.go\<close> and the \<open>Identity\<close> of \<open>ike/responder.go\<close>. The lemmas show that an element decodes in
  exactly one way, so two byte strings never read as one name element, that a name survives its
  encoding, and that an AUTH payload verifies exactly when its signature does.

  A Go string is the bytes it holds.
\<close>

section \<open>Model\<close>

datatype der_error =
    DerTruncated | DerLengthForm | DerNonMinimal | DerTruncatedContent
  | RdnNotSet | RdnNotSingle | AttributeTrailing | AttributeString byte
  | NotRDNSequence | RepeatedAttribute | UnknownAttribute | AttributeCount nat
  | NotASN1DN byte | IDWire wire_error

function derOctets :: "nat \<Rightarrow> bytes" where
  "derOctets n = (if n = 0 then [] else derOctets (n div 256) @ [of_nat (n mod 256)])"
  by pat_completeness auto
termination by (relation "measure id") auto

declare derOctets.simps [simp del]

definition derLen :: "nat \<Rightarrow> bytes" where
  "derLen n = (if n < 128 then [of_nat n] else (0x80 OR of_nat (length (derOctets n))) # derOctets n)"

definition derTLV :: "byte \<Rightarrow> bytes \<Rightarrow> bytes" where
  "derTLV tag content = tag # derLen (length content) @ content"

definition derUTF8String :: "bytes \<Rightarrow> bytes" where "derUTF8String s = derTLV 0x0c s"
definition derPrintableString :: "bytes \<Rightarrow> bytes" where "derPrintableString s = derTLV 0x13 s"
definition derSequence :: "bytes list \<Rightarrow> bytes" where "derSequence parts = derTLV 0x30 (concat parts)"
definition derSet :: "bytes list \<Rightarrow> bytes" where "derSet parts = derTLV 0x31 (concat parts)"

definition oidOrganizationName :: bytes where "oidOrganizationName = [0x06, 0x03, 0x55, 0x04, 0x0a]"
definition oidCommonName :: bytes where "oidCommonName = [0x06, 0x03, 0x55, 0x04, 0x03]"
definition oidSerialNumber :: bytes where "oidSerialNumber = [0x06, 0x03, 0x55, 0x04, 0x05]"

definition EncodeIdentityDN :: "bytes \<Rightarrow> bytes \<Rightarrow> bytes \<Rightarrow> bytes" where
  "EncodeIdentityDN organization commonName serialNumber =
     derSequence [derSet [derSequence [oidOrganizationName, derUTF8String organization]],
       derSet [derSequence [oidCommonName, derUTF8String commonName]],
       derSet [derSequence [oidSerialNumber, derPrintableString serialNumber]]]"

definition derElement :: "bytes \<Rightarrow> (der_error, byte \<times> bytes \<times> bytes) result" where
  "derElement b =
     (if length b < 2 then Inl DerTruncated
      else let tag = b ! 0; len = b ! 1; b = drop 2 b in
        if len AND 0x80 \<noteq> 0 then
          (let count = unat (len AND 0x7f) in
           if count = 0 \<or> count > 4 \<or> length b < count then Inl DerLengthForm
           else if b ! 0 = 0 then Inl DerNonMinimal
           else let val = unat (be_acc (0 :: u64) (take count b)); b = drop count b in
             if val < 128 then Inl DerNonMinimal
             else if val > length b then Inl DerTruncatedContent
             else Inr (tag, take val b, drop val b))
        else if length b < unat len then Inl DerTruncatedContent
        else Inr (tag, take (unat len) b, drop (unat len) b))"

definition derElementRaw :: "bytes \<Rightarrow> (der_error, bytes \<times> bytes \<times> bytes) result" where
  "derElementRaw b =
     (case derElement b of Inl e \<Rightarrow> Inl e
      | Inr (_, content, rest) \<Rightarrow> Inr (take (length b - length rest) b, content, rest))"

definition derAttribute :: "bytes \<Rightarrow> (der_error, bytes \<times> bytes) result" where
  "derAttribute rdn =
     (case derElement rdn of Inl e \<Rightarrow> Inl e
      | Inr (setTag, elems, rest) \<Rightarrow>
          if setTag \<noteq> 0x31 \<or> rest \<noteq> [] then Inl RdnNotSet
          else (case derElement elems of Inl e \<Rightarrow> Inl e
          | Inr (seqTag, seq, rest) \<Rightarrow>
              if seqTag \<noteq> 0x30 \<or> rest \<noteq> [] then Inl RdnNotSingle
              else (case derElementRaw seq of Inl e \<Rightarrow> Inl e
              | Inr (oid, _, seq) \<Rightarrow>
                  (case derElement seq of Inl e \<Rightarrow> Inl e
                   | Inr (valueTag, content, rest) \<Rightarrow>
                       if rest \<noteq> [] then Inl AttributeTrailing
                       else if valueTag = 0x0c \<or> valueTag = 0x13 then Inr (oid, content)
                       else Inl (AttributeString valueTag)))))"

text \<open>
  The three \<open>targets\<close> of \<open>DecodeIdentityDN\<close>, \<open>None\<close> while not seen. The loop consumes one RDN a
  pass; \<open>count\<close> counts them.
\<close>

type_synonym dnTargets = "bytes option \<times> bytes option \<times> bytes option"

definition setTarget :: "dnTargets \<Rightarrow> bytes \<Rightarrow> bytes \<Rightarrow> (der_error, dnTargets) result" where
  "setTarget targets oid val =
     (case targets of (org, cn, sn) \<Rightarrow>
        if oid = oidOrganizationName then (if org \<noteq> None then Inl RepeatedAttribute else Inr (Some val, cn, sn))
        else if oid = oidCommonName then (if cn \<noteq> None then Inl RepeatedAttribute else Inr (org, Some val, sn))
        else if oid = oidSerialNumber then (if sn \<noteq> None then Inl RepeatedAttribute else Inr (org, cn, Some val))
        else Inl UnknownAttribute)"

lemma derElement_shorter: "derElement b = Inr (t, c, r) \<Longrightarrow> length r < length b"
  by (auto simp: derElement_def Let_def split: if_splits)

function dnLoop :: "bytes \<Rightarrow> dnTargets \<Rightarrow> nat \<Rightarrow> (der_error, dnTargets \<times> nat) result" where
  "dnLoop seq targets count =
     (if seq = [] then Inr (targets, count)
      else case derElement seq of Inl e \<Rightarrow> Inl e
      | Inr (_, _, nxt) \<Rightarrow>
          (case derAttribute (take (length seq - length nxt) seq) of Inl e \<Rightarrow> Inl e
           | Inr (oid, val) \<Rightarrow>
               (case setTarget targets oid val of Inl e \<Rightarrow> Inl e
                | Inr targets' \<Rightarrow> dnLoop nxt targets' (count + 1))))"
  by pat_completeness auto
termination by (relation "measure (length \<circ> fst)") (auto dest: derElement_shorter)

declare dnLoop.simps [simp del]

definition str_of :: "bytes option \<Rightarrow> bytes" where
  "str_of v = (case v of None \<Rightarrow> [] | Some s \<Rightarrow> s)"

definition DecodeIdentityDN :: "bytes \<Rightarrow> (der_error, bytes \<times> bytes \<times> bytes) result" where
  "DecodeIdentityDN b =
     (case derElement b of Inl e \<Rightarrow> Inl e
      | Inr (tag, seq, rest) \<Rightarrow>
          if tag \<noteq> 0x30 \<or> rest \<noteq> [] then Inl NotRDNSequence
          else (case dnLoop seq (None, None, None) 0 of Inl e \<Rightarrow> Inl e
          | Inr ((org, cn, sn), count) \<Rightarrow>
              if count \<noteq> 3 then Inl (AttributeCount count)
              else Inr (str_of org, str_of cn, str_of sn)))"

abbreviation (input) ID_DER_ASN1_DN :: byte where "ID_DER_ASN1_DN \<equiv> 9"
abbreviation (input) AuthDigitalSignature :: byte where "AuthDigitalSignature \<equiv> 14"

record Identity =
  Organization :: bytes
  CommonName :: bytes
  SerialNumber :: bytes

definition encodeID :: "Identity \<Rightarrow> bytes" where
  "encodeID i = EncodeID ID_DER_ASN1_DN (EncodeIdentityDN (Organization i) (CommonName i) (SerialNumber i))"

definition identityFromID :: "bytes \<Rightarrow> (der_error, Identity) result" where
  "identityFromID body =
     (case DecodeID body of Inl e \<Rightarrow> Inl (IDWire e)
      | Inr (idType, dat) \<Rightarrow>
          if idType \<noteq> ID_DER_ASN1_DN then Inl (NotASN1DN idType)
          else (case DecodeIdentityDN dat of Inl e \<Rightarrow> Inl e
          | Inr (org, cn, sn) \<Rightarrow> Inr \<lparr>Organization = org, CommonName = cn, SerialNumber = sn\<rparr>))"

subsection \<open>The AUTH payload\<close>

definition Ed25519AlgorithmIdentifier :: bytes where
  "Ed25519AlgorithmIdentifier = derSequence [[0x06, 0x03, 0x2b, 0x65, 0x70]]"

datatype auth_error = ShortAuth | AuthMethod byte | TruncatedAlgorithm | UnsupportedAlgorithm | BadSignature

definition BuildAuth :: "crypto \<Rightarrow> bytes \<Rightarrow> bytes \<Rightarrow> bytes" where
  "BuildAuth C priv signedOctets =
     (let algID = Ed25519AlgorithmIdentifier
      in [AuthDigitalSignature, 0, 0, 0, of_nat (length algID)] @ algID @ sign C priv signedOctets)"

definition VerifyAuth :: "crypto \<Rightarrow> bytes \<Rightarrow> bytes \<Rightarrow> bytes \<Rightarrow> (auth_error, unit) result" where
  "VerifyAuth C pub signedOctets authBody =
     (if length authBody < 5 then Inl ShortAuth
      else if authBody ! 0 \<noteq> AuthDigitalSignature then Inl (AuthMethod (authBody ! 0))
      else let algLen = unat (authBody ! 4) in
        if length authBody < 5 + algLen then Inl TruncatedAlgorithm
        else if slice 5 (5 + algLen) authBody \<noteq> Ed25519AlgorithmIdentifier then Inl UnsupportedAlgorithm
        else if \<not> verify C pub signedOctets (drop (5 + algLen) authBody) then Inl BadSignature
        else Inr ())"

section \<open>DER elements decode in one way\<close>

text \<open>The number a run of octets stands for.\<close>

definition octVal :: "bytes \<Rightarrow> nat" where
  "octVal bs = foldl (\<lambda>v b. v * 256 + unat b) 0 bs"

lemma octVal_snoc [simp]: "octVal [] = 0" "octVal (bs @ [b]) = octVal bs * 256 + unat b"
  by (simp_all add: octVal_def)

lemma unat_byte_lt: "unat (b :: byte) < 256"
  by (rule order_less_le_trans [OF unsigned_less]) simp

lemma octVal_bound: "octVal bs < 256 ^ length bs"
proof (induction bs rule: rev_induct)
  case (snoc b bs)
  have "octVal bs * 256 + unat b < (octVal bs + 1) * 256" using unat_byte_lt [of b] by simp
  also have "\<dots> \<le> 256 ^ length bs * 256" using snoc by (intro mult_right_mono) simp_all
  finally show ?case by simp
qed simp

lemma push_or_add:
  fixes w :: "'a::len word" and b :: byte
  shows "push_bit 8 w OR ucast b = w * 256 + ucast b"
proof -
  have "push_bit 8 w AND ucast b = 0"
    by (rule bit_word_eqI) (auto simp: bit_simps dest: bit_imp_le_length)
  then have "push_bit 8 w + ucast b = push_bit 8 w OR ucast b" by (rule disjunctive_add_eq_or)
  then show ?thesis by (simp add: push_bit_eq_mult)
qed

lemma unat_be_acc:
  "length bs \<le> 8 \<Longrightarrow> unat (be_acc (0 :: u64) bs) = octVal bs"
proof (induction bs rule: rev_induct)
  case (snoc b bs)
  then have IH: "unat (be_acc (0 :: u64) bs) = octVal bs" by simp
  have "octVal (bs @ [b]) < 256 ^ length (bs @ [b])" by (rule octVal_bound)
  also have "\<dots> \<le> 256 ^ 8" using snoc.prems by (intro power_increasing) simp_all
  finally have b: "octVal bs * 256 + unat b < 2 ^ 64" by simp
  have "unat (be_acc (0 :: u64) bs * 256 + ucast b) = octVal bs * 256 + unat b"
    using b by (simp add: unat_word_ariths IH unsigned_ucast_eq take_bit_nat_eq_self unat_byte_lt [THEN less_trans])
  then show ?case by (simp add: be_acc_append push_or_add)
qed simp

lemma octVal_derOctets: "octVal (derOctets n) = n"
proof (induction n rule: derOctets.induct)
  case (1 n)
  then show ?case by (subst derOctets.simps) (auto simp: unat_of_nat take_bit_eq_mod)
qed

lemma derOctets_octVal: "bs = [] \<or> hd bs \<noteq> 0 \<Longrightarrow> derOctets (octVal bs) = bs"
proof (induction bs rule: rev_induct)
  case Nil
  then show ?case by (simp add: derOctets.simps)
next
  case (snoc b bs)
  have q: "(octVal bs * 256 + unat b) div 256 = octVal bs" "(octVal bs * 256 + unat b) mod 256 = unat b"
    using unat_byte_lt [of b] by simp_all
  have "octVal bs * 256 + unat b \<noteq> 0"
  proof (cases "bs = []")
    case True
    with snoc.prems show ?thesis by (simp add: unat_eq_0)
  next
    case False
    with snoc have "derOctets (octVal bs) = bs" by simp
    with False have "octVal bs \<noteq> 0" using derOctets.simps [of 0] by metis
    then show ?thesis by simp
  qed
  moreover have "derOctets (octVal bs) = bs" using snoc by (cases "bs = []") (auto simp: derOctets.simps)
  ultimately show ?case by (subst derOctets.simps) (simp only: octVal_snoc q, simp)
qed

lemma derOctets_hd: "n \<noteq> 0 \<Longrightarrow> derOctets n \<noteq> [] \<and> hd (derOctets n) \<noteq> 0"
proof (induction n rule: derOctets.induct)
  case (1 n)
  show ?case
  proof (cases "n div 256 = 0")
    case True
    then have "derOctets n = [of_nat n]" using 1 by (simp add: derOctets.simps)
    moreover have "(of_nat n :: byte) \<noteq> 0" using True 1 by (simp add: word_of_nat_eq_0_iff) (auto simp: dvd_def)
    ultimately show ?thesis by simp
  next
    case False
    with 1 have "derOctets (n div 256) \<noteq> [] \<and> hd (derOctets (n div 256)) \<noteq> 0" by simp
    then show ?thesis using 1 by (subst (1 2) derOctets.simps) simp
  qed
qed

lemma derOctets_length: "length (derOctets n) \<le> k \<longleftrightarrow> n < 256 ^ k"
proof (induction k arbitrary: n)
  case 0
  then show ?case by (subst derOctets.simps) auto
next
  case (Suc k)
  show ?case
  proof (cases "n = 0")
    case False
    then have "length (derOctets n) = Suc (length (derOctets (n div 256)))"
      by (subst derOctets.simps) simp
    moreover have "n div 256 < 256 ^ k \<longleftrightarrow> n < 256 ^ Suc k"
      by (simp add: less_mult_imp_div_less div_less_iff_less_mult mult.commute)
    ultimately show ?thesis using Suc [of "n div 256"] by simp
  qed (simp add: derOctets.simps)
qed

text \<open>The two forms of a length octet: bit 7 says which, the other seven carry the value.\<close>

lemma bit_0x80: "bit (0x80 :: int) i \<longleftrightarrow> i = 7"
proof -
  have "(0x80 :: int) = 2 ^ 7" by simp
  then show ?thesis by (simp only: bit_exp_iff) auto
qed

lemma byte_high: "(l :: byte) AND 0x80 \<noteq> 0 \<longleftrightarrow> bit l 7"
proof -
  have "l AND 0x80 = (if bit l 7 then 0x80 else 0)"
    by (rule bit_word_eqI) (auto simp: bit_simps bit_0x80)
  then show ?thesis by simp
qed

lemma byte_low: "(l :: byte) AND 0x7f = take_bit 7 l"
proof -
  have m: "(0x7f :: byte) = mask 7" by (simp add: mask_eq_exp_minus_1)
  show ?thesis unfolding m by (simp add: take_bit_eq_mask)
qed

lemma byte_split: "bit (l :: byte) 7 \<Longrightarrow> l = 0x80 OR take_bit 7 l"
proof -
  assume b: "bit l 7"
  show ?thesis
  proof (rule bit_word_eqI)
    fix i assume "i < LENGTH(8)"
    then have "i < 7 \<or> i = 7" by auto
    then show "bit l i = bit (0x80 OR take_bit 7 l) i" using b by (auto simp: bit_simps bit_0x80)
  qed
qed

lemma byte_no_high: "\<not> bit (l :: byte) 7 \<Longrightarrow> unat l < 128"
proof -
  assume b: "\<not> bit l 7"
  have "take_bit 7 l = l"
  proof (rule bit_word_eqI)
    fix i assume "i < LENGTH(8)"
    then have "i < 7 \<or> i = 7" by auto
    then show "bit (take_bit 7 l) i = bit l i" using b by (auto simp: bit_simps)
  qed
  moreover have "unat (take_bit 7 l) < 2 ^ 7" by (simp only: unsigned_take_bit_eq take_bit_nat_less_exp)
  ultimately show ?thesis by simp
qed

lemma small_octet: "n < 128 \<Longrightarrow> \<not> bit (of_nat n :: byte) 7 \<and> unat (of_nat n :: byte) = n"
proof -
  assume n: "n < 128"
  have u: "unat (of_nat n :: byte) = n" using n by (simp add: unat_of_nat_small)
  have "bit (of_nat n :: byte) 7 \<longleftrightarrow> bit (unat (of_nat n :: byte)) 7" by (simp add: bit_unsigned_iff)
  also have "\<dots> \<longleftrightarrow> bit n 7" by (simp only: u)
  also have "\<not> bit n 7" using n by (simp add: bit_iff_odd)
  finally show ?thesis using u by simp
qed

lemma long_octet:
  "k \<le> 4 \<Longrightarrow> bit (0x80 OR of_nat k :: byte) 7 \<and> unat ((0x80 OR of_nat k :: byte) AND 0x7f) = k"
proof -
  assume "k \<le> 4"
  then have "k = 0 \<or> k = 1 \<or> k = 2 \<or> k = 3 \<or> k = 4" by auto
  then show ?thesis by auto
qed

lemma derElement_iff:
  "derElement b = Inr (t, c, r) \<longleftrightarrow> b = derTLV t c @ r \<and> length c < 2 ^ 32"
proof
  assume d: "derElement b = Inr (t, c, r)"
  then have "2 \<le> length b" by (auto simp: derElement_def split: if_splits)
  then obtain l b' where b: "b = t # l # b'"
    using d by (cases b; cases "tl b") (auto simp: derElement_def Let_def split: if_splits)
  show "b = derTLV t c @ r \<and> length c < 2 ^ 32"
  proof (cases "bit l 7")
    case False
    with d b have l: "c = take (unat l) b'" "r = drop (unat l) b'" "unat l \<le> length b'"
      by (auto simp: derElement_def byte_high Let_def split: if_splits)
    then have "length c = unat l" by simp
    with l byte_no_high [OF False] b show ?thesis by (auto simp: derTLV_def derLen_def)
  next
    case True
    let ?k = "unat (take_bit 7 l)"
    let ?v = "octVal (take ?k b')"
    from d b True have k: "?k \<noteq> 0" "?k \<le> 4" "?k \<le> length b'" and hd: "b' ! 0 \<noteq> 0"
      and v: "unat (be_acc (0 :: u64) (take ?k b')) \<ge> 128"
      and c: "c = take (unat (be_acc (0 :: u64) (take ?k b'))) (drop ?k b')"
      "r = drop (unat (be_acc (0 :: u64) (take ?k b'))) (drop ?k b')"
      "unat (be_acc (0 :: u64) (take ?k b')) \<le> length (drop ?k b')"
      by (auto simp: derElement_def byte_high byte_low Let_def split: if_splits)
    have val: "unat (be_acc (0 :: u64) (take ?k b')) = ?v" using k by (intro unat_be_acc) simp
    have len: "length c = ?v" using c(1,3) by (simp add: val)
    have "take ?k b' = [] \<or> hd (take ?k b') \<noteq> 0"
      using hd k by (cases b') auto
    then have o: "derOctets ?v = take ?k b'" by (rule derOctets_octVal)
    have l: "l = 0x80 OR of_nat (length (derOctets ?v))"
      using byte_split [OF True] k(3) by (simp add: o)
    have "?v < 256 ^ length (take ?k b')" by (rule octVal_bound)
    also have "\<dots> \<le> 256 ^ 4" using k(2) by (intro power_increasing) simp_all
    finally have small: "length c < 2 ^ 32" by (simp add: len)
    have "c @ r = drop ?k b'" unfolding c(1,2) by (rule append_take_drop_id)
    then have "b = t # l # take ?k b' @ c @ r" using b by simp
    then show ?thesis using v val len l o small by (simp add: derTLV_def derLen_def)
  qed
next
  assume a: "b = derTLV t c @ r \<and> length c < 2 ^ 32"
  let ?n = "length c"
  show "derElement b = Inr (t, c, r)"
  proof (cases "?n < 128")
    case True
    have b: "b = t # of_nat ?n # c @ r" using a True by (simp add: derTLV_def derLen_def)
    show ?thesis
      unfolding b derElement_def using small_octet [OF True] by (simp add: byte_high Let_def)
  next
    case False
    let ?o = "derOctets ?n"
    have b: "b = t # (0x80 OR of_nat (length ?o)) # ?o @ c @ r" using a False by (simp add: derTLV_def derLen_def)
    have k: "length ?o \<le> 4" using a by (simp add: derOctets_length)
    have nz: "?n \<noteq> 0" using False by linarith
    have o: "?o \<noteq> []" "?o ! 0 \<noteq> 0" using derOctets_hd [OF nz] by (auto simp: hd_conv_nth)
    have v: "unat (be_acc (0 :: u64) ?o) = ?n" using k by (simp add: unat_be_acc octVal_derOctets)
    have "length ?o \<noteq> 0" using o(1) by simp
    then show ?thesis
      unfolding b derElement_def using long_octet [OF k] k o False v by (simp add: byte_high Let_def nth_append)
  qed
qed

text \<open>
  C35. A DER element decodes in exactly one way: \<open>derElement\<close> reads tag, content and rest out of a
  byte string precisely when the string is that tag and content in the shortest form \<open>derTLV\<close>
  writes, followed by the rest, with a content shorter than \<open>2\<^sup>3\<^sup>2\<close> bytes. No second spelling of a
  length is accepted, and no element is read past the end of the buffer.
\<close>
theorem der_element_exact:
  "derElement b = Inr (t, c, r) \<longleftrightarrow> b = derTLV t c @ r \<and> length c < 2 ^ 32"
  by (rule derElement_iff)

section \<open>Names survive their encoding\<close>

lemma derElement_TLV: "length c < 2 ^ 32 \<Longrightarrow> derElement (derTLV t c @ r) = Inr (t, c, r)"
  by (simp add: derElement_iff)

lemma derElement_TLV_only: "length c < 2 ^ 32 \<Longrightarrow> derElement (derTLV t c) = Inr (t, c, [])"
  by (simp add: derElement_iff)

lemma length_derTLV: "length c < 2 ^ 32 \<Longrightarrow> length (derTLV t c) \<le> length c + 6"
  using derOctets_length [of "length c" 4] by (simp add: derTLV_def derLen_def)

definition oid_ok :: "bytes \<Rightarrow> bool" where
  "oid_ok oid \<longleftrightarrow> (\<exists>x. oid = derTLV 6 x \<and> length x < 2 ^ 32)"

lemma oids_ok: "oid_ok oidOrganizationName" "oid_ok oidCommonName" "oid_ok oidSerialNumber"
  unfolding oid_ok_def
  by (rule exI [of _ "[0x55, 0x04, 0x0a]"], simp add: oidOrganizationName_def derTLV_def derLen_def,
      rule exI [of _ "[0x55, 0x04, 0x03]"], simp add: oidCommonName_def derTLV_def derLen_def,
      rule exI [of _ "[0x55, 0x04, 0x05]"], simp add: oidSerialNumber_def derTLV_def derLen_def)

lemma length_oids [simp]:
  "length oidOrganizationName = 5" "length oidCommonName = 5" "length oidSerialNumber = 5"
  by (simp_all add: oidOrganizationName_def oidCommonName_def oidSerialNumber_def)

definition rdnOf :: "bytes \<Rightarrow> byte \<Rightarrow> bytes \<Rightarrow> bytes" where
  "rdnOf oid vt v = derSet [derSequence [oid, derTLV vt v]]"

lemma rdnOf_length: "length oid = 5 \<Longrightarrow> length v < 2 ^ 31 \<Longrightarrow> length (rdnOf oid vt v) \<le> length v + 23"
proof -
  assume a: "length oid = 5" "length v < 2 ^ 31"
  have 1: "length (derTLV vt v) \<le> length v + 6" using a by (intro length_derTLV) simp
  have 2: "length (derSequence [oid, derTLV vt v]) \<le> length v + 17"
    using length_derTLV [of "oid @ derTLV vt v" "0x30"] 1 a by (simp add: derSequence_def)
  have "length (derSet [derSequence [oid, derTLV vt v]]) \<le> length v + 23"
    using length_derTLV [of "derSequence [oid, derTLV vt v]" "0x31"] 2 a by (simp add: derSet_def)
  then show ?thesis by (simp add: rdnOf_def)
qed

lemma derAttribute_rdn:
  assumes oid: "oid_ok oid" "length oid = 5" and v: "length v < 2 ^ 31" "vt = 0x0c \<or> vt = 0x13"
  shows "derAttribute (rdnOf oid vt v) = Inr (oid, v)"
proof -
  let ?val = "derTLV vt v"
  let ?seq = "oid @ ?val"
  have lv: "length ?val \<le> length v + 6" using v by (intro length_derTLV) simp
  have ls: "length ?seq < 2 ^ 32" using lv v oid by simp
  have lt: "length (derTLV 0x30 ?seq) < 2 ^ 32" using length_derTLV [OF ls, of "0x30"] lv v oid by simp
  from oid obtain x where x: "oid = derTLV 6 x" "length x < 2 ^ 32" by (auto simp: oid_ok_def)
  have raw: "derElementRaw ?seq = Inr (oid, x, ?val)"
    using derElement_TLV [OF x(2), of 6 ?val] by (simp add: derElementRaw_def flip: x(1))
  have e1: "derElement (rdnOf oid vt v) = Inr (0x31, derTLV 0x30 ?seq, [])"
    using derElement_TLV_only [OF lt, of "0x31"] by (simp add: rdnOf_def derSet_def derSequence_def)
  have e2: "derElement (derTLV 0x30 ?seq) = Inr (0x30, ?seq, [])" by (rule derElement_TLV_only [OF ls])
  have e3: "derElement ?val = Inr (vt, v, [])" using v by (intro derElement_TLV_only) simp
  show ?thesis using v(2) by (auto simp: derAttribute_def e1 e2 raw e3)
qed

lemma dnLoop_step:
  assumes "oid_ok oid" "length oid = 5" "length v < 2 ^ 31" "vt = 0x0c \<or> vt = 0x13"
    "setTarget targets oid v = Inr targets'"
  shows "dnLoop (rdnOf oid vt v @ rest) targets n = dnLoop rest targets' (n + 1)"
proof -
  let ?in = "derSequence [oid, derTLV vt v]"
  have li: "length ?in < 2 ^ 32"
    using length_derTLV [of v vt] length_derTLV [of "oid @ derTLV vt v" "0x30"] assms(2,3) by (simp add: derSequence_def)
  have r: "rdnOf oid vt v = derTLV 0x31 ?in" by (simp add: rdnOf_def derSet_def)
  have e: "derElement (rdnOf oid vt v @ rest) = Inr (0x31, ?in, rest)" unfolding r by (rule derElement_TLV [OF li])
  have ne: "rdnOf oid vt v \<noteq> []" by (simp add: r derTLV_def)
  show ?thesis
    using ne assms(5) derAttribute_rdn [OF assms(1-4)]
    by (subst dnLoop.simps) (simp add: e)
qed

lemma EncodeIdentityDN_rdns:
  "EncodeIdentityDN org cn sn = derTLV 0x30 (rdnOf oidOrganizationName 0x0c org
     @ rdnOf oidCommonName 0x0c cn @ rdnOf oidSerialNumber 0x13 sn)"
  by (simp add: EncodeIdentityDN_def rdnOf_def derUTF8String_def derPrintableString_def derSequence_def [of "[a, b, c]" for a b c])

lemma DecodeIdentityDN_encode:
  assumes "length org + length cn + length sn < 2 ^ 31"
  shows "DecodeIdentityDN (EncodeIdentityDN org cn sn) = Inr (org, cn, sn)"
proof -
  let ?seq = "rdnOf oidOrganizationName 0x0c org @ rdnOf oidCommonName 0x0c cn @ rdnOf oidSerialNumber 0x13 sn"
  have l: "length org < 2 ^ 31" "length cn < 2 ^ 31" "length sn < 2 ^ 31" using assms by simp_all
  have "length ?seq < 2 ^ 32"
    using rdnOf_length [OF _ l(1), of oidOrganizationName "0x0c"] rdnOf_length [OF _ l(2), of oidCommonName "0x0c"]
      rdnOf_length [OF _ l(3), of oidSerialNumber "0x13"] assms by simp
  then have e: "derElement (EncodeIdentityDN org cn sn) = Inr (0x30, ?seq, [])"
    unfolding EncodeIdentityDN_rdns by (rule derElement_TLV_only)
  have t: "setTarget (None, None, None) oidOrganizationName org = Inr (Some org, None, None)"
    "setTarget (Some org, None, None) oidCommonName cn = Inr (Some org, Some cn, None)"
    "setTarget (Some org, Some cn, None) oidSerialNumber sn = Inr (Some org, Some cn, Some sn)"
    by (simp_all add: setTarget_def oidOrganizationName_def oidCommonName_def oidSerialNumber_def)
  have end_: "dnLoop [] targets n = Inr (targets, n)" for targets n by (simp add: dnLoop.simps)
  have "dnLoop ?seq (None, None, None) 0 = Inr ((Some org, Some cn, Some sn), 3)"
    using dnLoop_step [OF oids_ok(1) _ l(1) _ t(1)] dnLoop_step [OF oids_ok(2) _ l(2) _ t(2)]
      dnLoop_step [OF oids_ok(3) _ l(3) _ t(3), of "0x13" "[]"] by (simp add: end_)
  then show ?thesis by (simp add: DecodeIdentityDN_def e str_of_def)
qed

lemma identityFromID_encode:
  assumes "length (Organization i) + length (CommonName i) + length (SerialNumber i) < 2 ^ 31"
  shows "identityFromID (encodeID i) = Inr i"
  using DecodeIdentityDN_encode [OF assms] by (simp add: identityFromID_def encodeID_def)

section \<open>The AUTH payload\<close>

lemma length_algorithm: "length Ed25519AlgorithmIdentifier = 7"
  by (simp add: Ed25519AlgorithmIdentifier_def derSequence_def derTLV_def derLen_def)

lemma VerifyAuth_Build: "sign_ok C \<Longrightarrow> VerifyAuth C (pubOf C priv) msg (BuildAuth C priv msg) = Inr ()"
  by (simp add: VerifyAuth_def BuildAuth_def length_algorithm sign_ok_def slice_def Let_def)

lemma VerifyAuth_iff:
  "VerifyAuth C pub msg body = Inr () \<longleftrightarrow>
     (\<exists>a b c sig. body = [AuthDigitalSignature, a, b, c, 7] @ Ed25519AlgorithmIdentifier @ sig \<and> verify C pub msg sig)"
proof
  assume v: "VerifyAuth C pub msg body = Inr ()"
  then have l: "5 \<le> length body" "body ! 0 = AuthDigitalSignature"
    and s: "slice 5 (5 + unat (body ! 4)) body = Ed25519AlgorithmIdentifier"
    and ver: "verify C pub msg (drop (5 + unat (body ! 4)) body)" "5 + unat (body ! 4) \<le> length body"
    by (auto simp: VerifyAuth_def Let_def split: if_splits)
  have "length (slice 5 (5 + unat (body ! 4)) body) = 7" by (simp only: s length_algorithm)
  then have n: "unat (body ! 4) = 7" using ver(2) by simp
  then have "unat (body ! 4) = unat (7 :: byte)" by simp
  then have b4: "body ! 4 = 7" by (simp only: word_unat_eq_iff)
  have "take 5 body = [body ! 0, body ! 1, body ! 2, body ! 3, body ! 4]"
    using l(1) by (auto simp: list_eq_iff_nth_eq less_Suc_eq numeral_eq_Suc)
  then have "body = [AuthDigitalSignature, body ! 1, body ! 2, body ! 3, 7] @ Ed25519AlgorithmIdentifier @ drop 12 body"
    using take_slice_drop [of 5 12 body] s l(2) b4 by (simp add: n)
  then show "\<exists>a b c sig. body = [AuthDigitalSignature, a, b, c, 7] @ Ed25519AlgorithmIdentifier @ sig \<and> verify C pub msg sig"
    using ver(1) by (auto simp: n)
qed (auto simp: VerifyAuth_def length_algorithm slice_def Let_def)

end
