(* ===== verification/Transport_Mux.thy ===== *)
theory Transport_Mux
  imports Net_Addr
begin

text \<open>
  \<open>src/transport/mux.go\<close>: one UDP socket shared by every peer. The hub keeps which channel
  (\<open>Mux\<close>) registered which inbound SPI, its receive loop sorts each batch of datagrams by the
  non-ESP marker and the SPI, and bounded queues hold what the owners have not read yet. Channels
  live in a store indexed by their address; a Go channel is the list of what it buffers. The socket
  is not modelled: what \<open>bind.Send\<close> is given is a result, and what the receiver returned is an
  argument.
\<close>

section \<open>State\<close>

record Endpoint =
  ep_Addr :: addr
  ep_Port :: u16
  ep_String :: bytes

record Unclaimed =
  un_Raw :: bytes
  un_Endpoint :: "Endpoint option"

record Datagram =
  dg_Raw :: bytes
  dg_Endpoint :: "Endpoint option"

record espDatagramBatch =
  eb_ticket :: u64
  eb_packets :: "bytes list"
  eb_bytes :: int

record Mux =
  mx_endpoint :: "Endpoint option"
  mx_ikeCh :: "Datagram list"
  mx_espTicket :: u64
  mx_espCh :: "espDatagramBatch list"
  mx_espQueued :: int
  mx_espPending :: "bytes list"
  mx_done :: bool
  mx_closed :: bool
  mx_ownHub :: bool

record Hub =
  hub_ike :: "u64 \<rightharpoonup> nat"
  hub_esp :: "u32 \<rightharpoonup> nat"
  hub_muxes :: "nat set"
  hub_listen :: "Unclaimed list option"
  hub_closed :: bool
  hub_dropped :: u64
  hub_refused :: u64
  hub_keepalives :: u64
  hub_reported :: int
  hub_store :: "nat \<Rightarrow> Mux"
  hub_next :: nat

datatype transport_error =
    NilEndpoint | BadEndpoint | HubClosed | TransportClosed | ZeroSPI | AlreadyRegistered | SendFailed | ReceiveTimeout

abbreviation (input) nonESPMarkerLen :: nat where "nonESPMarkerLen \<equiv> 4"
abbreviation (input) espSendBatch :: nat where "espSendBatch \<equiv> 128"
abbreviation (input) ikeChanSize :: nat where "ikeChanSize \<equiv> 16"
abbreviation (input) listenSize :: nat where "listenSize \<equiv> 64"
abbreviation (input) espChanSize :: nat where "espChanSize \<equiv> 1024"
abbreviation (input) espQueueBytes :: int where "espQueueBytes \<equiv> 8388608"
abbreviation (input) dropReportInterval :: int where "dropReportInterval \<equiv> 10000000000"

definition freshMux :: "Endpoint option \<Rightarrow> Mux" where
  "freshMux ep = \<lparr>mx_endpoint = ep, mx_ikeCh = [], mx_espTicket = 0, mx_espCh = [], mx_espQueued = 0,
     mx_espPending = [], mx_done = False, mx_closed = False, mx_ownHub = False\<rparr>"

definition NewHub :: Hub where
  "NewHub = \<lparr>hub_ike = Map.empty, hub_esp = Map.empty, hub_muxes = {}, hub_listen = None,
     hub_closed = False, hub_dropped = 0, hub_refused = 0, hub_keepalives = 0,
     hub_reported = - dropReportInterval, hub_store = (\<lambda>_. freshMux None), hub_next = 0\<rparr>"

definition upd_mux :: "Hub \<Rightarrow> nat \<Rightarrow> (Mux \<Rightarrow> Mux) \<Rightarrow> Hub" where
  "upd_mux h m f = h\<lparr>hub_store := (hub_store h)(m := f (hub_store h m))\<rparr>"

section \<open>Operations\<close>

text \<open>\<open>noteDrop\<close>: the second component says whether the line is logged.\<close>

definition noteDrop :: "int \<Rightarrow> nat \<Rightarrow> Hub \<Rightarrow> Hub \<times> bool" where
  "noteDrop now count h =
     (let h = h\<lparr>hub_dropped := hub_dropped h + of_nat count\<rparr> in
      if now - hub_reported h < dropReportInterval then (h, False)
      else (h\<lparr>hub_reported := now\<rparr>, True))"

definition NewMuxTo :: "Hub \<Rightarrow> Endpoint option \<Rightarrow> (transport_error, nat \<times> Hub) result" where
  "NewMuxTo h endpoint =
     (if endpoint = None then Inl NilEndpoint
      else if hub_closed h then Inl HubClosed
      else let m = hub_next h in
        Inr (m, h\<lparr>hub_store := (hub_store h)(m := freshMux endpoint), hub_next := m + 1,
                  hub_muxes := insert m (hub_muxes h)\<rparr>))"

definition NewMux :: "('r \<Rightarrow> Endpoint option) \<Rightarrow> Hub \<Rightarrow> 'r \<Rightarrow> (transport_error, nat \<times> Hub) result" where
  "NewMux ParseEndpoint h remote =
     (case ParseEndpoint remote of None \<Rightarrow> Inl BadEndpoint
      | Some endpoint \<Rightarrow>
          if hub_closed h then Inl HubClosed
          else let m = hub_next h in
            Inr (m, h\<lparr>hub_store := (hub_store h)(m := freshMux (Some endpoint)), hub_next := m + 1,
                      hub_muxes := insert m (hub_muxes h)\<rparr>))"

definition Listen :: "Hub \<Rightarrow> Hub" where
  "Listen h = (case hub_listen h of None \<Rightarrow> h\<lparr>hub_listen := Some []\<rparr> | Some _ \<Rightarrow> h)"

definition ikeFrame :: "bytes \<Rightarrow> bytes" where
  "ikeFrame b = replicate nonESPMarkerLen 0 @ b"

text \<open>\<open>Hub.fail\<close>, which \<open>Close\<close> and a failing receiver run once: every channel is closed.\<close>

definition Hub_fail :: "Hub \<Rightarrow> Hub" where
  "Hub_fail h =
     (if hub_closed h then h
      else h\<lparr>hub_closed := True, hub_ike := Map.empty, hub_esp := Map.empty, hub_muxes := {},
             hub_store := (\<lambda>m. if m \<in> hub_muxes h then (hub_store h m)\<lparr>mx_closed := True, mx_done := True\<rparr>
                                else hub_store h m)\<rparr>)"

definition hasRoomForESP :: "Mux \<Rightarrow> int \<Rightarrow> bool" where
  "hasRoomForESP mx bytes \<longleftrightarrow> length (mx_espCh mx) < espChanSize \<and> mx_espQueued mx + bytes \<le> espQueueBytes"

definition dispatchESP :: "Mux \<Rightarrow> bytes list \<Rightarrow> int \<Rightarrow> Mux \<times> bool" where
  "dispatchESP mx packets bytes =
     (if mx_espQueued mx + bytes > espQueueBytes then (mx, False)
      else if length (mx_espCh mx) < espChanSize then
        (mx\<lparr>mx_espCh := mx_espCh mx @ [\<lparr>eb_ticket = mx_espTicket mx, eb_packets = packets, eb_bytes = bytes\<rparr>],
            mx_espQueued := mx_espQueued mx + bytes, mx_espTicket := mx_espTicket mx + 1\<rparr>, True)
      else (mx, False))"

definition takeESP :: "Mux \<Rightarrow> espDatagramBatch \<Rightarrow> Mux \<times> bytes list" where
  "takeESP mx batch = (mx\<lparr>mx_espQueued := mx_espQueued mx - eb_bytes batch\<rparr>, eb_packets batch)"

subsection \<open>The receive loop\<close>

datatype route = Keepalive | Unwanted | ToIKE nat | ToListen | ToESP nat

definition route_of :: "Hub \<Rightarrow> bytes \<times> Endpoint option \<Rightarrow> route" where
  "route_of h d = (let raw = fst d in
     if length raw = 1 \<and> raw ! 0 = 0xff then Keepalive
     else if length raw < nonESPMarkerLen then Unwanted
     else if raw ! 0 OR raw ! 1 OR raw ! 2 OR raw ! 3 = 0 then
       (if length raw < nonESPMarkerLen + 8 then Unwanted
        else case hub_ike h (rd64 (drop 4 raw)) of
               Some m \<Rightarrow> ToIKE m
             | None \<Rightarrow> if hub_listen h \<noteq> None \<and> snd d \<noteq> None then ToListen else Unwanted)
     else case hub_esp h (rd32 raw) of Some m \<Rightarrow> ToESP m | None \<Rightarrow> Unwanted)"

definition deliverIKE :: "int \<Rightarrow> nat \<times> bytes \<times> Endpoint option \<Rightarrow> Hub \<Rightarrow> Hub" where
  "deliverIKE now p h = (case p of (m, raw, ep) \<Rightarrow>
     if length (mx_ikeCh (hub_store h m)) = ikeChanSize then fst (noteDrop now 1 h)
     else upd_mux h m (\<lambda>mx. mx\<lparr>mx_ikeCh := mx_ikeCh mx
            @ [\<lparr>dg_Raw = drop nonESPMarkerLen raw, dg_Endpoint = ep\<rparr>]\<rparr>))"

definition deliverUnclaimed :: "bytes \<times> Endpoint option \<Rightarrow> Hub \<Rightarrow> Hub" where
  "deliverUnclaimed d h = (case hub_listen h of
     None \<Rightarrow> h\<lparr>hub_refused := hub_refused h + 1\<rparr>
   | Some q \<Rightarrow>
       if length q = listenSize then h\<lparr>hub_refused := hub_refused h + 1\<rparr>
       else h\<lparr>hub_listen := Some (q @ [\<lparr>un_Raw = drop nonESPMarkerLen (fst d), un_Endpoint = snd d\<rparr>])\<rparr>)"

definition packetBytes :: "bytes list \<Rightarrow> int" where
  "packetBytes packets = sum_list (map (int \<circ> length) packets)"

definition deliverESP :: "int \<Rightarrow> nat \<times> bytes list \<Rightarrow> Hub \<Rightarrow> Hub" where
  "deliverESP now b h = (case b of (m, packets) \<Rightarrow>
     (let n = packetBytes packets; (mx, took) = dispatchESP (hub_store h m) packets n in
      if hasRoomForESP (hub_store h m) n \<and> took then upd_mux h m (\<lambda>_. mx)
      else fst (noteDrop now (length packets) h)))"

text \<open>
  The per-peer batches of one read, in the order their first datagrams came. The Go map ranges over
  them in any order; the peers' queues are disjoint, so only the moment of the log line depends on it.
\<close>

fun espBatches :: "(nat \<times> bytes) list \<Rightarrow> (nat \<times> bytes list) list" where
  "espBatches [] = []"
| "espBatches ((m, raw) # ps) =
     (m, raw # map snd (filter (\<lambda>p. fst p = m) ps)) # espBatches (filter (\<lambda>p. fst p \<noteq> m) ps)"

definition ikeDatagrams :: "Hub \<Rightarrow> (bytes \<times> Endpoint option) list \<Rightarrow> (nat \<times> bytes \<times> Endpoint option) list" where
  "ikeDatagrams h ds = List.map_filter (\<lambda>d. case route_of h d of ToIKE m \<Rightarrow> Some (m, d) | _ \<Rightarrow> None) ds"

definition espDatagrams :: "Hub \<Rightarrow> (bytes \<times> Endpoint option) list \<Rightarrow> (nat \<times> bytes) list" where
  "espDatagrams h ds = List.map_filter (\<lambda>d. case route_of h d of ToESP m \<Rightarrow> Some (m, fst d) | _ \<Rightarrow> None) ds"

definition receivePass :: "int \<Rightarrow> nat \<Rightarrow> (bytes \<times> Endpoint option) list \<Rightarrow> Hub \<Rightarrow> Hub" where
  "receivePass now refused ds h =
     (let routes = map (route_of h) ds;
          ike = ikeDatagrams h ds; esp = espBatches (espDatagrams h ds);
          unclaimed = filter (\<lambda>d. route_of h d = ToListen) ds;
          h = h\<lparr>hub_refused := hub_refused h + of_nat refused + of_nat (count_list routes Unwanted),
                hub_keepalives := hub_keepalives h + of_nat (count_list routes Keepalive)\<rparr>;
          h = fold (deliverIKE now) ike h;
          h = fold deliverUnclaimed unclaimed h
      in fold (deliverESP now) esp h)"

subsection \<open>Registration, sending, receiving\<close>

definition registerIKE :: "Hub \<Rightarrow> nat \<Rightarrow> u64 \<Rightarrow> (transport_error, Hub) result" where
  "registerIKE h m spi =
     (if spi = 0 then Inl ZeroSPI
      else if mx_closed (hub_store h m) \<or> hub_closed h then Inl TransportClosed
      else if hub_ike h spi \<noteq> None \<and> hub_ike h spi \<noteq> Some m then Inl AlreadyRegistered
      else Inr (h\<lparr>hub_ike := (hub_ike h)(spi \<mapsto> m)\<rparr>))"

definition UnregisterIKE :: "Hub \<Rightarrow> nat \<Rightarrow> u64 \<Rightarrow> Hub" where
  "UnregisterIKE h m spi = (if hub_ike h spi = Some m then h\<lparr>hub_ike := (hub_ike h)(spi := None)\<rparr> else h)"

definition RegisterESP :: "Hub \<Rightarrow> nat \<Rightarrow> u32 \<Rightarrow> (transport_error, Hub) result" where
  "RegisterESP h m spi =
     (if spi = 0 then Inl ZeroSPI
      else if mx_closed (hub_store h m) \<or> hub_closed h then Inl TransportClosed
      else if hub_esp h spi \<noteq> None \<and> hub_esp h spi \<noteq> Some m then Inl AlreadyRegistered
      else Inr (h\<lparr>hub_esp := (hub_esp h)(spi \<mapsto> m)\<rparr>))"

definition UnregisterESP :: "Hub \<Rightarrow> nat \<Rightarrow> u32 \<Rightarrow> Hub" where
  "UnregisterESP h m spi = (if hub_esp h spi = Some m then h\<lparr>hub_esp := (hub_esp h)(spi := None)\<rparr> else h)"

definition AdoptEndpoint :: "Hub \<Rightarrow> nat \<Rightarrow> Endpoint option \<Rightarrow> Hub" where
  "AdoptEndpoint h m ep = upd_mux h m (\<lambda>mx. mx\<lparr>mx_endpoint := ep\<rparr>)"

text \<open>
  \<open>SendESPBatch\<close> with the socket as the argument \<open>bindSend\<close>; the first component is the list of
  calls made to it.
\<close>

function sendChunks :: "(bytes list \<Rightarrow> bool) \<Rightarrow> bytes list \<Rightarrow> bytes list list \<times> bool" where
  "sendChunks bindSend bufs =
     (if bufs = [] then ([], True)
      else let n = min (length bufs) espSendBatch in
        if \<not> bindSend (take n bufs) then ([take n bufs], False)
        else let (calls, ok) = sendChunks bindSend (drop n bufs) in (take n bufs # calls, ok))"
  by pat_completeness auto
termination by (relation "measure (length \<circ> snd)") (auto simp: min_def)

declare sendChunks.simps [simp del]

definition SendESPBatch ::
  "(Endpoint option \<Rightarrow> bytes list \<Rightarrow> bool) \<Rightarrow> Hub \<Rightarrow> nat \<Rightarrow> bytes list \<Rightarrow> bytes list list \<times> (transport_error, unit) result" where
  "SendESPBatch bindSend h m bufs =
     (if bufs = [] then ([], Inr ())
      else if mx_done (hub_store h m) then ([], Inl TransportClosed)
      else let (calls, ok) = sendChunks (bindSend (mx_endpoint (hub_store h m))) bufs
           in (calls, if ok then Inr () else Inl SendFailed))"

text \<open>
  A receive either blocks, fails or yields a value. Where a message is queued and the channel is done,
  Go's \<open>select\<close> takes either case: \<open>first\<close> is that choice. \<open>None\<close> is an index panic.
\<close>

datatype 'a receive = Blocked | Failed transport_error | Received 'a

definition RecvIKEFrom :: "bool \<Rightarrow> Hub \<Rightarrow> nat \<Rightarrow> Datagram receive \<times> Hub" where
  "RecvIKEFrom first h m = (let mx = hub_store h m in
     case mx_ikeCh mx of
       d # ds \<Rightarrow> if mx_done mx \<and> \<not> first then (Failed TransportClosed, h)
                else (Received d, upd_mux h m (\<lambda>mx. mx\<lparr>mx_ikeCh := ds\<rparr>))
     | [] \<Rightarrow> if mx_done mx then (Failed TransportClosed, h) else (Blocked, h))"

definition RecvESPBatchConcurrent :: "bool \<Rightarrow> Hub \<Rightarrow> nat \<Rightarrow> (u64 \<times> bytes list) receive \<times> Hub" where
  "RecvESPBatchConcurrent first h m = (let mx = hub_store h m in
     case mx_espCh mx of
       b # bs \<Rightarrow> if mx_done mx \<and> \<not> first then (Failed TransportClosed, h)
                else let (mx', packets) = takeESP (mx\<lparr>mx_espCh := bs\<rparr>) b
                     in (Received (eb_ticket b, packets), upd_mux h m (\<lambda>_. mx'))
     | [] \<Rightarrow> if mx_done mx then (Failed TransportClosed, h) else (Blocked, h))"

definition RecvESP :: "bool \<Rightarrow> Hub \<Rightarrow> nat \<Rightarrow> (bytes receive \<times> Hub) option" where
  "RecvESP first h m = (let mx = hub_store h m;
       popHead = (\<lambda>h pending. case pending of [] \<Rightarrow> None
                   | b # rest \<Rightarrow> Some (Received b, upd_mux h m (\<lambda>mx. mx\<lparr>mx_espPending := rest\<rparr>)))
     in if mx_espPending mx \<noteq> [] then popHead h (mx_espPending mx)
        else case RecvESPBatchConcurrent first h m of
          (Received (t, packets), h) \<Rightarrow> popHead h packets
        | (Failed e, h) \<Rightarrow> Some (Failed e, h)
        | (Blocked, h) \<Rightarrow> Some (Blocked, h))"

text \<open>The forms with a deadline: \<open>timer\<close> says that its case of the \<open>select\<close> is taken.\<close>

definition RecvIKEFromUntil :: "bool \<Rightarrow> bool \<Rightarrow> Hub \<Rightarrow> nat \<Rightarrow> Datagram receive \<times> Hub" where
  "RecvIKEFromUntil timer first h m = (if timer then (Failed ReceiveTimeout, h) else RecvIKEFrom first h m)"

definition RecvESPUntil :: "bool \<Rightarrow> bool \<Rightarrow> Hub \<Rightarrow> nat \<Rightarrow> (bytes receive \<times> Hub) option" where
  "RecvESPUntil timer first h m =
     (if timer \<and> mx_espPending (hub_store h m) = [] then Some (Failed ReceiveTimeout, h) else RecvESP first h m)"

text \<open>
  \<open>RecvESPBatch\<close> blocks only for the first packet. \<open>drainESP\<close> is its loop once it has one: pending
  packets first, then whatever batches are queued; \<open>pick\<close> is the choice of the \<open>select\<close> by the number of
  batches left, for a channel that is done.
\<close>

fun drainESP :: "(nat \<Rightarrow> bool) \<Rightarrow> nat \<Rightarrow> bytes list \<Rightarrow> espDatagramBatch list \<Rightarrow> Mux \<Rightarrow> bytes list \<times> Mux" where
  "drainESP pick room pending bs mx =
     (let n = min room (length pending); out = take n pending; pending = drop n pending in
      if room - n = 0 then (out, mx\<lparr>mx_espPending := pending, mx_espCh := bs\<rparr>)
      else case bs of [] \<Rightarrow> (out, mx\<lparr>mx_espPending := pending, mx_espCh := bs\<rparr>)
           | b # rest \<Rightarrow>
               if mx_done mx \<and> \<not> pick (length bs) then (out, mx\<lparr>mx_espPending := pending, mx_espCh := bs\<rparr>)
               else let (mx, packets) = takeESP mx b;
                        (rest_out, mx) = drainESP pick (room - n) packets rest mx
                    in (out @ rest_out, mx))"

declare drainESP.simps [simp del]

definition RecvESPBatch :: "(nat \<Rightarrow> bool) \<Rightarrow> nat \<Rightarrow> Hub \<Rightarrow> nat \<Rightarrow> bytes list receive \<times> Hub" where
  "RecvESPBatch pick capacity h m =
     (let room = (if capacity = 0 then espSendBatch else capacity); mx = hub_store h m;
          drain = (\<lambda>pending mx. let (out, mx) = drainESP pick room pending (mx_espCh mx) mx
                                 in (Received out, upd_mux h m (\<lambda>_. mx)))
      in if mx_espPending mx \<noteq> [] then drain (mx_espPending mx) mx
         else case mx_espCh mx of
           [] \<Rightarrow> if mx_done mx then (Failed TransportClosed, h) else (Blocked, h)
         | b # bs \<Rightarrow> if mx_done mx \<and> \<not> pick (length (mx_espCh mx)) then (Failed TransportClosed, h)
                    else let (mx, packets) = takeESP (mx\<lparr>mx_espCh := bs\<rparr>) b in drain packets mx)"

definition Mux_Close :: "Hub \<Rightarrow> nat \<Rightarrow> Hub" where
  "Mux_Close h m =
     (if mx_closed (hub_store h m) then h
      else let h = upd_mux h m (\<lambda>mx. mx\<lparr>mx_closed := True, mx_done := True\<rparr>);
               h = h\<lparr>hub_ike := (\<lambda>spi. if hub_ike h spi = Some m then None else hub_ike h spi),
                     hub_esp := (\<lambda>spi. if hub_esp h spi = Some m then None else hub_esp h spi),
                     hub_muxes := hub_muxes h - {m}\<rparr>
           in if mx_ownHub (hub_store h m) then Hub_fail h else h)"

text \<open>\<open>Dial\<close>: a hub with one channel, which closes the hub with itself.\<close>

definition Dial :: "('r \<Rightarrow> Endpoint option) \<Rightarrow> 'r \<Rightarrow> (transport_error, nat \<times> Hub) result" where
  "Dial ParseEndpoint remote =
     (case NewMux ParseEndpoint NewHub remote of Inl e \<Rightarrow> Inl e
      | Inr (m, h) \<Rightarrow> Inr (m, upd_mux h m (\<lambda>mx. mx\<lparr>mx_ownHub := True\<rparr>)))"

section \<open>Who holds an SPI\<close>

text \<open>
  What a session relies on when it registers an inbound SPI, for both tables: a registration adds
  exactly one SPI to what the channel holds and takes none from another channel, and releasing one
  removes at most that one.
\<close>

locale spi_table =
  fixes reg :: "Hub \<Rightarrow> nat \<Rightarrow> 's \<Rightarrow> (transport_error, Hub) result"
    and unreg :: "Hub \<Rightarrow> nat \<Rightarrow> 's \<Rightarrow> Hub"
    and owner :: "Hub \<Rightarrow> 's \<Rightarrow> nat option"
  assumes reg_owner: "reg h m s = Inr h' \<Longrightarrow> owner h' = (owner h)(s \<mapsto> m) \<and> owner h s \<in> {None, Some m}"
    and unreg_owner: "owner (unreg h m s) = (if owner h s = Some m then (owner h)(s := None) else owner h)"
begin

lemma reg_holds: "reg h m s = Inr h' \<Longrightarrow> {t. owner h' t = Some m} = insert s {t. owner h t = Some m}"
  by (drule reg_owner) auto

lemma reg_others: "reg h m s = Inr h' \<Longrightarrow> m' \<noteq> m \<Longrightarrow> owner h' t = Some m' \<longleftrightarrow> owner h t = Some m'"
  by (drule reg_owner) auto

lemma unreg_holds: "{t. owner (unreg h m s) t = Some m} = {t. owner h t = Some m} - {s}"
  by (auto simp: unreg_owner split: if_splits)

lemma unreg_others: "m' \<noteq> m \<Longrightarrow> owner (unreg h m s) t = Some m' \<longleftrightarrow> owner h t = Some m'"
  by (auto simp: unreg_owner split: if_splits)

lemma unreg_reg: "reg h m s = Inr h' \<Longrightarrow> owner h s = None \<Longrightarrow> owner (unreg h' m s) = owner h"
  by (drule reg_owner) (auto simp: unreg_owner fun_upd_idem)

end

interpretation ikeTable: spi_table registerIKE UnregisterIKE hub_ike
  by unfold_locales (auto simp: registerIKE_def UnregisterIKE_def split: if_splits)

interpretation espTable: spi_table RegisterESP UnregisterESP hub_esp
  by unfold_locales (auto simp: RegisterESP_def UnregisterESP_def split: if_splits)

section \<open>Invariant\<close>

definition mux_ok :: "Mux \<Rightarrow> bool" where
  "mux_ok mx \<longleftrightarrow> length (mx_ikeCh mx) \<le> ikeChanSize \<and> length (mx_espCh mx) \<le> espChanSize
     \<and> mx_espQueued mx = sum_list (map eb_bytes (mx_espCh mx)) \<and> mx_espQueued mx \<le> espQueueBytes
     \<and> (\<forall>b \<in> set (mx_espCh mx). eb_packets b \<noteq> [] \<and> eb_bytes b = packetBytes (eb_packets b))
     \<and> (\<forall>i < length (mx_espCh mx).
          eb_ticket (mx_espCh mx ! i) = mx_espTicket mx - of_nat (length (mx_espCh mx) - i))"

definition hub_ok :: "Hub \<Rightarrow> bool" where
  "hub_ok h \<longleftrightarrow> finite (hub_muxes h) \<and> (\<forall>m. mux_ok (hub_store h m))
     \<and> hub_ike h 0 = None \<and> hub_esp h 0 = None
     \<and> (\<forall>spi m. hub_ike h spi = Some m \<longrightarrow> m \<in> hub_muxes h)
     \<and> (\<forall>spi m. hub_esp h spi = Some m \<longrightarrow> m \<in> hub_muxes h)
     \<and> (\<forall>m. m \<in> hub_muxes h \<longleftrightarrow> m < hub_next h \<and> \<not> mx_closed (hub_store h m))
     \<and> (hub_closed h \<longrightarrow> hub_muxes h = {})
     \<and> (\<forall>q. hub_listen h = Some q \<longrightarrow> length q \<le> listenSize)"

lemma packetBytes_nonneg: "0 \<le> packetBytes ps"
  unfolding packetBytes_def by (rule sum_list_nonneg) auto

lemma mux_ok_other [simp]:
  "mux_ok (mx\<lparr>mx_endpoint := e\<rparr>) = mux_ok mx" "mux_ok (mx\<lparr>mx_espPending := p\<rparr>) = mux_ok mx"
  "mux_ok (mx\<lparr>mx_done := d\<rparr>) = mux_ok mx" "mux_ok (mx\<lparr>mx_closed := d\<rparr>) = mux_ok mx"
  "mux_ok (mx\<lparr>mx_ownHub := d\<rparr>) = mux_ok mx"
  "mux_ok (mx\<lparr>mx_espPending := p, mx_espCh := bs\<rparr>) = mux_ok (mx\<lparr>mx_espCh := bs\<rparr>)"
  by (simp_all add: mux_ok_def)

lemma mux_ok_fresh [simp]: "mux_ok (freshMux ep)"
  by (simp add: mux_ok_def freshMux_def)

lemma open_fresh [simp]: "mx_closed (freshMux ep) = False"
  by (simp add: freshMux_def)

lemma mux_ok_ike:
  "mux_ok mx \<Longrightarrow> length q \<le> ikeChanSize \<Longrightarrow> mux_ok (mx\<lparr>mx_ikeCh := q\<rparr>)"
  by (simp add: mux_ok_def)

lemma mux_ok_len: "mux_ok mx \<Longrightarrow> length (mx_ikeCh mx) \<le> ikeChanSize"
  by (simp add: mux_ok_def)

lemma mux_ok_take:
  assumes "mux_ok mx" "mx_espCh mx = b # bs"
  shows "mux_ok (fst (takeESP (mx\<lparr>mx_espCh := bs\<rparr>) b))" "eb_packets b \<noteq> []"
proof -
  have t: "eb_ticket (bs ! i) = mx_espTicket mx - of_nat (length bs - i)" if "i < length bs" for i
    using assms that unfolding mux_ok_def by (auto dest: spec [of _ "Suc i"])
  have "0 \<le> eb_bytes b" using assms packetBytes_nonneg by (auto simp: mux_ok_def)
  then show "mux_ok (fst (takeESP (mx\<lparr>mx_espCh := bs\<rparr>) b))"
    using assms t by (auto simp: mux_ok_def takeESP_def)
  show "eb_packets b \<noteq> []" using assms by (auto simp: mux_ok_def)
qed

lemma mux_ok_dispatch:
  assumes "mux_ok mx" "ps \<noteq> []" "n = packetBytes ps"
  shows "mux_ok (fst (dispatchESP mx ps n))"
proof -
  have "eb_ticket ((mx_espCh mx @ [\<lparr>eb_ticket = mx_espTicket mx, eb_packets = ps, eb_bytes = n\<rparr>]) ! i)
      = mx_espTicket mx + 1 - of_nat (Suc (length (mx_espCh mx)) - i)"
    if "i < Suc (length (mx_espCh mx))" for i
    using assms(1) that by (cases "i = length (mx_espCh mx)") (auto simp: mux_ok_def nth_append Suc_diff_le)
  with assms show ?thesis by (auto simp: dispatchESP_def mux_ok_def)
qed

lemma drainESP_step:
  "drainESP pick room pending [] mx =
     (take room pending, mx\<lparr>mx_espPending := drop room pending, mx_espCh := []\<rparr>)"
  "drainESP pick room pending (b # rest) mx =
     (if room \<le> length pending \<or> mx_done mx \<and> \<not> pick (Suc (length rest))
      then (take room pending, mx\<lparr>mx_espPending := drop room pending, mx_espCh := b # rest\<rparr>)
      else let r = drainESP pick (room - length pending) (eb_packets b) rest (fst (takeESP mx b))
           in (pending @ fst r, snd r))"
  by (auto simp: drainESP.simps [of pick room pending] takeESP_def Let_def min_def split: prod.splits)

lemma mux_ok_drain:
  assumes "mux_ok (mx\<lparr>mx_espCh := bs\<rparr>)"
  shows "mux_ok (snd (drainESP pick room pending bs mx))"
  using assms
proof (induction bs arbitrary: room pending mx)
  case Nil
  then show ?case by (simp add: drainESP_step mux_ok_def)
next
  case (Cons b rest)
  have "mux_ok ((fst (takeESP mx b))\<lparr>mx_espCh := rest\<rparr>)"
    using mux_ok_take(1) [OF Cons.prems, of b rest] by (simp add: takeESP_def mux_ok_def)
  from Cons.IH [OF this] Cons.prems show ?case
    by (auto simp: drainESP_step Let_def)
qed

lemma hub_ok_upd:
  assumes "hub_ok h" "mux_ok (f (hub_store h m))" "mx_closed (f (hub_store h m)) = mx_closed (hub_store h m)"
  shows "hub_ok (upd_mux h m f)"
  using assms by (auto simp: hub_ok_def upd_mux_def)

lemma hub_ok_mux: "hub_ok h \<Longrightarrow> mux_ok (hub_store h m)"
  by (simp add: hub_ok_def)

lemma hub_ok_new: "hub_ok NewHub"
  by (simp add: hub_ok_def NewHub_def)

lemma hub_ok_alloc:
  "hub_ok h \<Longrightarrow> \<not> hub_closed h \<Longrightarrow>
   hub_ok (h\<lparr>hub_store := (hub_store h)(hub_next h := freshMux ep), hub_next := Suc (hub_next h),
             hub_muxes := insert (hub_next h) (hub_muxes h)\<rparr>)"
  by (auto simp: hub_ok_def less_Suc_eq)

lemma hub_ok_NewMuxTo: "hub_ok h \<Longrightarrow> NewMuxTo h ep = Inr (m, h') \<Longrightarrow> hub_ok h'"
  by (auto simp: NewMuxTo_def Let_def hub_ok_alloc split: if_splits)

lemma hub_ok_NewMux: "hub_ok h \<Longrightarrow> NewMux parse h r = Inr (m, h') \<Longrightarrow> hub_ok h'"
  by (auto simp: NewMux_def Let_def hub_ok_alloc split: if_splits option.splits)

lemma hub_ok_Dial: "Dial parse r = Inr (m, h) \<Longrightarrow> hub_ok h"
  by (auto simp: Dial_def split: sum.splits intro!: hub_ok_upd dest: hub_ok_NewMux [OF hub_ok_new])
    (auto simp: hub_ok_def dest: hub_ok_NewMux [OF hub_ok_new])

lemma hub_ok_Listen: "hub_ok h \<Longrightarrow> hub_ok (Listen h)"
  by (auto simp: Listen_def hub_ok_def split: option.splits)

lemma hub_ok_fail: "hub_ok h \<Longrightarrow> hub_ok (Hub_fail h)"
  by (auto simp: Hub_fail_def hub_ok_def)

lemma hub_ok_registerIKE: "hub_ok h \<Longrightarrow> m < hub_next h \<Longrightarrow> registerIKE h m spi = Inr h' \<Longrightarrow> hub_ok h'"
  by (auto simp: hub_ok_def registerIKE_def split: if_splits)

lemma hub_ok_RegisterESP: "hub_ok h \<Longrightarrow> m < hub_next h \<Longrightarrow> RegisterESP h m spi = Inr h' \<Longrightarrow> hub_ok h'"
  by (auto simp: hub_ok_def RegisterESP_def split: if_splits)

lemma hub_ok_Unregister: "hub_ok h \<Longrightarrow> hub_ok (UnregisterIKE h m spi)" "hub_ok h \<Longrightarrow> hub_ok (UnregisterESP h m spi')"
  by (auto simp: hub_ok_def UnregisterIKE_def UnregisterESP_def)

lemma hub_ok_Adopt: "hub_ok h \<Longrightarrow> hub_ok (AdoptEndpoint h m ep)"
  unfolding AdoptEndpoint_def by (rule hub_ok_upd) (auto simp: hub_ok_def)

lemma hub_ok_Close: "hub_ok h \<Longrightarrow> hub_ok (Mux_Close h m)"
proof -
  assume ok: "hub_ok h"
  let ?h = "(upd_mux h m (\<lambda>mx. mx\<lparr>mx_closed := True, mx_done := True\<rparr>))
     \<lparr>hub_ike := (\<lambda>spi. if hub_ike h spi = Some m then None else hub_ike h spi),
      hub_esp := (\<lambda>spi. if hub_esp h spi = Some m then None else hub_esp h spi),
      hub_muxes := hub_muxes h - {m}\<rparr>"
  have "hub_ok ?h" using ok by (auto simp: hub_ok_def upd_mux_def)
  then show ?thesis using ok hub_ok_fail [of ?h] by (auto simp: Mux_Close_def Let_def upd_mux_def cong: if_cong)
qed

lemma hub_ok_noteDrop: "hub_ok h \<Longrightarrow> hub_ok (fst (noteDrop now n h))"
  by (auto simp: noteDrop_def hub_ok_def Let_def)

lemma hub_ok_deliverIKE:
  assumes "hub_ok h"
  shows "hub_ok (deliverIKE now p h)"
proof -
  obtain m raw ep where p: "p = (m, raw, ep)" by (cases p)
  have "length (mx_ikeCh (hub_store h m)) < ikeChanSize" if "length (mx_ikeCh (hub_store h m)) \<noteq> ikeChanSize"
    using that mux_ok_len [OF hub_ok_mux [OF assms], of m] by simp
  then show ?thesis
    using assms hub_ok_mux [OF assms, of m]
    by (auto simp: deliverIKE_def p intro!: hub_ok_noteDrop hub_ok_upd mux_ok_ike)
qed

lemma hub_ok_deliverUnclaimed: "hub_ok h \<Longrightarrow> hub_ok (deliverUnclaimed d h)"
  unfolding deliverUnclaimed_def hub_ok_def
  by (cases "hub_listen h") auto

lemma dispatchESP_closed: "mx_closed (fst (dispatchESP mx ps n)) = mx_closed mx"
  by (simp add: dispatchESP_def)

lemma hub_ok_deliverESP:
  assumes "hub_ok h" "snd b \<noteq> []"
  shows "hub_ok (deliverESP now b h)"
proof -
  obtain m ps where b: "b = (m, ps)" by (cases b)
  obtain mx took where d: "dispatchESP (hub_store h m) ps (packetBytes ps) = (mx, took)" by fastforce
  have "mux_ok mx" "mx_closed mx = mx_closed (hub_store h m)"
    using assms b d mux_ok_dispatch [of "hub_store h m" ps] dispatchESP_closed [of "hub_store h m" ps]
    by (auto simp: hub_ok_def) (metis fst_conv)+
  then show ?thesis using assms
    by (auto simp: deliverESP_def b d Let_def hub_ok_noteDrop intro: hub_ok_upd)
qed

lemma hub_ok_fold: "(\<And>x h. x \<in> set xs \<Longrightarrow> hub_ok h \<Longrightarrow> hub_ok (f x h)) \<Longrightarrow> hub_ok h \<Longrightarrow> hub_ok (fold f xs h)"
  by (induction xs arbitrary: h) auto

lemma espBatches_spec:
  "(m, ps) \<in> set (espBatches l) \<longleftrightarrow> m \<in> fst ` set l \<and> ps = map snd (filter (\<lambda>p. fst p = m) l)"
proof (induction l rule: espBatches.induct)
  case (2 k raw l)
  have f: "filter (\<lambda>p. fst p = m) (filter (\<lambda>p. fst p \<noteq> k) l) = filter (\<lambda>p. fst p = m) l" if "m \<noteq> k"
    using that by (induction l) auto
  show ?case using 2 f by (cases "m = k") (auto simp: image_iff intro: bexI [of _ "(m, _)"])
qed simp

lemma espBatches_distinct: "distinct (map fst (espBatches l))"
proof (induction l rule: espBatches.induct)
  case (2 k raw l)
  have "(k, ps) \<notin> set (espBatches (filter (\<lambda>p. fst p \<noteq> k) l))" for ps
    by (auto simp: espBatches_spec)
  with 2 show ?case by (auto simp: image_iff)
qed simp

lemma espBatches_nonempty: "b \<in> set (espBatches l) \<Longrightarrow> snd b \<noteq> []"
  by (cases b) (auto simp: espBatches_spec filter_empty_conv)

lemma hub_ok_receivePass: "hub_ok h \<Longrightarrow> hub_ok (receivePass now refused ds h)"
  unfolding receivePass_def Let_def
  by (intro hub_ok_fold hub_ok_deliverIKE hub_ok_deliverUnclaimed hub_ok_deliverESP)
    (auto dest: espBatches_nonempty simp: hub_ok_def)

lemma hub_ok_RecvIKEFrom:
  assumes "hub_ok h"
  shows "hub_ok (snd (RecvIKEFrom first h m))"
  using assms hub_ok_mux [OF assms, of m] mux_ok_len [of "hub_store h m"]
  by (auto simp: RecvIKEFrom_def Let_def split: list.splits intro!: hub_ok_upd mux_ok_ike)

lemma hub_ok_RecvConcurrent:
  assumes "hub_ok h"
  shows "hub_ok (snd (RecvESPBatchConcurrent first h m))"
    and "fst (RecvESPBatchConcurrent first h m) = Received (t, ps) \<Longrightarrow> ps \<noteq> []"
proof -
  have ok: "mux_ok (hub_store h m)" using assms by (simp add: hub_ok_def)
  show "hub_ok (snd (RecvESPBatchConcurrent first h m))"
    using assms mux_ok_take(1) [OF ok]
    by (auto simp: RecvESPBatchConcurrent_def takeESP_def Let_def split: list.splits intro!: hub_ok_upd)
  show "fst (RecvESPBatchConcurrent first h m) = Received (t, ps) \<Longrightarrow> ps \<noteq> []"
    using mux_ok_take(2) [OF ok]
    by (auto simp: RecvESPBatchConcurrent_def takeESP_def Let_def split: list.splits if_splits)
qed

lemma hub_ok_pending: "hub_ok h \<Longrightarrow> hub_ok (upd_mux h m (\<lambda>mx. mx\<lparr>mx_espPending := ps\<rparr>))"
  by (rule hub_ok_upd) (auto simp: hub_ok_def)

lemma RecvESP_total:
  assumes "hub_ok h"
  shows "\<exists>r h'. RecvESP first h m = Some (r, h') \<and> hub_ok h'"
  using assms hub_ok_RecvConcurrent [OF assms, of first m] hub_ok_pending
  by (auto simp: RecvESP_def Let_def neq_Nil_conv split: list.splits receive.splits prod.splits)

lemma hub_ok_RecvESPBatch:
  assumes "hub_ok h"
  shows "hub_ok (snd (RecvESPBatch pick c h m))"
proof -
  have ok: "mux_ok (hub_store h m)" using assms by (simp add: hub_ok_def)
  have closed: "mx_closed (snd (drainESP pick room ps bs mx)) = mx_closed mx" for room ps bs mx
    by (induction bs arbitrary: room ps mx) (auto simp: drainESP_step Let_def takeESP_def)
  have d: "hub_ok (upd_mux h m (\<lambda>_. snd (drainESP pick room ps (mx_espCh mx) mx)))"
    if "mux_ok mx" "mx_closed mx = mx_closed (hub_store h m)" for room ps mx
    using assms that by (intro hub_ok_upd mux_ok_drain) (simp_all add: closed)
  show ?thesis
    using assms d [OF ok] d [OF mux_ok_take(1) [OF ok]]
    by (auto simp: RecvESPBatch_def Let_def takeESP_def case_prod_beta split: list.splits)
qed

section \<open>Every sequence of calls\<close>

text \<open>
  The calls a program can make on a hub and its channels, with what the environment contributes:
  received datagrams, the clock, and the choices of \<open>select\<close>. A call on a channel that was never
  made does nothing; a panic would be kept as \<open>None\<close>.
\<close>

datatype hub_op =
    DoNewMuxTo "Endpoint option" | DoListen | DoClose nat | DoCloseHub
  | DoReceive int nat "(bytes \<times> Endpoint option) list"
  | DoRegisterIKE nat u64 | DoUnregisterIKE nat u64 | DoRegisterESP nat u32 | DoUnregisterESP nat u32
  | DoAdopt nat "Endpoint option" | DoRecvIKE nat bool | DoRecvESP nat bool
  | DoRecvConcurrent nat bool | DoRecvBatch nat nat "nat \<Rightarrow> bool" | DoTakeUnclaimed

definition kept :: "Hub \<Rightarrow> (transport_error, Hub) result \<Rightarrow> Hub" where
  "kept h r = (case r of Inl _ \<Rightarrow> h | Inr h' \<Rightarrow> h')"

fun hub_apply :: "hub_op \<Rightarrow> Hub \<Rightarrow> Hub option" where
  "hub_apply (DoNewMuxTo ep) h = Some (case NewMuxTo h ep of Inl _ \<Rightarrow> h | Inr (_, h') \<Rightarrow> h')"
| "hub_apply DoListen h = Some (Listen h)"
| "hub_apply (DoClose m) h = Some (if m < hub_next h then Mux_Close h m else h)"
| "hub_apply DoCloseHub h = Some (Hub_fail h)"
| "hub_apply (DoReceive now refused ds) h = Some (receivePass now refused ds h)"
| "hub_apply (DoRegisterIKE m spi) h = Some (if m < hub_next h then kept h (registerIKE h m spi) else h)"
| "hub_apply (DoUnregisterIKE m spi) h = Some (UnregisterIKE h m spi)"
| "hub_apply (DoRegisterESP m spi) h = Some (if m < hub_next h then kept h (RegisterESP h m spi) else h)"
| "hub_apply (DoUnregisterESP m spi) h = Some (UnregisterESP h m spi)"
| "hub_apply (DoAdopt m ep) h = Some (AdoptEndpoint h m ep)"
| "hub_apply (DoRecvIKE m first) h = Some (snd (RecvIKEFrom first h m))"
| "hub_apply (DoRecvESP m first) h = map_option snd (RecvESP first h m)"
| "hub_apply (DoRecvConcurrent m first) h = Some (snd (RecvESPBatchConcurrent first h m))"
| "hub_apply (DoRecvBatch m c pick) h = Some (snd (RecvESPBatch pick c h m))"
| "hub_apply DoTakeUnclaimed h = Some (h\<lparr>hub_listen := map_option tl (hub_listen h)\<rparr>)"

fun hub_run :: "hub_op list \<Rightarrow> Hub \<Rightarrow> Hub option" where
  "hub_run [] h = Some h"
| "hub_run (x # xs) h = Option.bind (hub_apply x h) (hub_run xs)"

lemma hub_apply_ok:
  assumes "hub_ok h"
  shows "\<exists>h'. hub_apply x h = Some h' \<and> hub_ok h'"
proof (cases x)
  case (DoRecvESP m first)
  then show ?thesis using RecvESP_total [OF assms, of first m] by auto
next
  case DoTakeUnclaimed
  then show ?thesis using assms by (auto simp: hub_ok_def)
qed (use assms in \<open>auto simp: kept_def hub_ok_Listen hub_ok_Close hub_ok_fail hub_ok_receivePass hub_ok_Unregister
    hub_ok_Adopt hub_ok_RecvIKEFrom hub_ok_RecvConcurrent(1) hub_ok_RecvESPBatch
    intro: hub_ok_NewMuxTo hub_ok_registerIKE hub_ok_RegisterESP split: sum.splits\<close>)

lemma hub_run_ok: "hub_ok h \<Longrightarrow> \<exists>h'. hub_run xs h = Some h' \<and> hub_ok h'"
proof (induction xs arbitrary: h)
  case (Cons x xs)
  then show ?case using hub_apply_ok [of h x] by auto
qed simp

text \<open>
  C38. The receive queues of the shared socket are bounded and consistent whatever anyone sends: after any
  sequence of calls and received datagrams no call has panicked, no SPI 0 is routed, every routed SPI
  belongs to an open channel, a closed hub routes nothing, no channel holds more than 16 IKE messages,
  1024 batches or 8 MiB of ESP, the byte count charged against that budget is the size of the packets
  queued, at most 64 unclaimed messages wait, and the tickets of the queued batches are consecutive up to
  the next one, so that results emitted by ticket come out in the order received.
\<close>

theorem receive_queues_bounded:
  "\<exists>h. hub_run ops NewHub = Some h \<and> hub_ike h 0 = None \<and> hub_esp h 0 = None
     \<and> (\<forall>m. m \<in> ran (hub_ike h) \<union> ran (hub_esp h) \<longrightarrow>
          m < hub_next h \<and> \<not> mx_closed (hub_store h m) \<and> \<not> hub_closed h)
     \<and> (\<forall>q. hub_listen h = Some q \<longrightarrow> length q \<le> 64)
     \<and> (\<forall>m. let mx = hub_store h m; bs = mx_espCh mx in
          length (mx_ikeCh mx) \<le> 16 \<and> length bs \<le> 1024
          \<and> mx_espQueued mx = (\<Sum>b\<leftarrow>bs. \<Sum>p\<leftarrow>eb_packets b. int (length p)) \<and> mx_espQueued mx \<le> 8 * 2 ^ 20
          \<and> (\<forall>i < length bs. eb_packets (bs ! i) \<noteq> []
               \<and> eb_ticket (bs ! i) = mx_espTicket mx - of_nat (length bs - i)))"
proof -
  from hub_run_ok [OF hub_ok_new] obtain h where h: "hub_run ops NewHub = Some h" "hub_ok h" by blast
  have bytes: "(\<Sum>b\<leftarrow>mx_espCh mx. \<Sum>p\<leftarrow>eb_packets b. int (length p)) = sum_list (map eb_bytes (mx_espCh mx))"
    if "mux_ok mx" for mx
    using that by (intro arg_cong [of _ _ sum_list] map_cong) (auto simp: mux_ok_def packetBytes_def comp_def)
  have "\<forall>m. let mx = hub_store h m; bs = mx_espCh mx in length (mx_ikeCh mx) \<le> 16 \<and> length bs \<le> 1024
      \<and> mx_espQueued mx = (\<Sum>b\<leftarrow>bs. \<Sum>p\<leftarrow>eb_packets b. int (length p)) \<and> mx_espQueued mx \<le> 8 * 2 ^ 20
      \<and> (\<forall>i < length bs. eb_packets (bs ! i) \<noteq> [] \<and> eb_ticket (bs ! i) = mx_espTicket mx - of_nat (length bs - i))" (is "\<forall>m. ?Q m")
  proof (intro allI)
    fix m
    have "mux_ok (hub_store h m)" by (rule hub_ok_mux [OF h(2)])
    then show "?Q m" unfolding Let_def bytes [OF \<open>mux_ok (hub_store h m)\<close>] by (auto simp: mux_ok_def)
  qed
  moreover have "\<forall>m. m \<in> ran (hub_ike h) \<union> ran (hub_esp h) \<longrightarrow>
      m < hub_next h \<and> \<not> mx_closed (hub_store h m) \<and> \<not> hub_closed h"
    using h(2) by (auto simp: hub_ok_def ran_def)
  moreover have "hub_ike h 0 = None" "hub_esp h 0 = None" "\<forall>q. hub_listen h = Some q \<longrightarrow> length q \<le> 64"
    using h(2) by (auto simp: hub_ok_def)
  ultimately show ?thesis using h(1) by blast
qed

theorem receive_queues_bounded_witness:
  "\<exists>h. hub_run [DoListen, DoNewMuxTo (Some \<lparr>ep_Addr = Addr4 1, ep_Port = 4500, ep_String = []\<rparr>), DoRegisterESP 0 7,
       DoReceive 0 0 [([0, 0, 0, 7, 1], None), ([0xff], None), ([0, 0, 0, 7, 2, 3], None)]] NewHub = Some h
     \<and> mx_espQueued (hub_store h 0) \<le> 8 * 2 ^ 20 \<and> mx_espQueued (hub_store h 0) = 11"
proof -
  have "\<exists>h. hub_run [DoListen, DoNewMuxTo (Some \<lparr>ep_Addr = Addr4 1, ep_Port = 4500, ep_String = []\<rparr>), DoRegisterESP 0 7,
       DoReceive 0 0 [([0, 0, 0, 7, 1], None), ([0xff], None), ([0, 0, 0, 7, 2, 3], None)]] NewHub = Some h
      \<and> mx_espQueued (hub_store h 0) = 11"
    by (simp add: NewHub_def Listen_def NewMuxTo_def kept_def RegisterESP_def freshMux_def receivePass_def route_of_def
        rd32_def ikeDatagrams_def espDatagrams_def List.map_filter_def deliverESP_def packetBytes_def dispatchESP_def
        hasRoomForESP_def upd_mux_def Let_def)
  then show ?thesis using receive_queues_bounded by (metis (mono_tags, lifting) option.inject)
qed

section \<open>Where a datagram goes\<close>

lemma deliverIKE_queues:
  "mx_ikeCh (hub_store (deliverIKE now (k, raw, ep) h) m) =
     (if k = m \<and> length (mx_ikeCh (hub_store h m)) \<noteq> ikeChanSize
      then mx_ikeCh (hub_store h m) @ [\<lparr>dg_Raw = drop 4 raw, dg_Endpoint = ep\<rparr>] else mx_ikeCh (hub_store h m))"
  "mx_espCh (hub_store (deliverIKE now p h) m) = mx_espCh (hub_store h m)"
  "mx_espTicket (hub_store (deliverIKE now p h) m) = mx_espTicket (hub_store h m)"
  "mx_espQueued (hub_store (deliverIKE now p h) m) = mx_espQueued (hub_store h m)"
  "hub_listen (deliverIKE now p h) = hub_listen h"
  "hub_muxes (deliverIKE now p h) = hub_muxes h"
  by (auto simp: deliverIKE_def noteDrop_def upd_mux_def Let_def split: prod.splits)

lemma deliverUnclaimed_queues:
  "hub_store (deliverUnclaimed d h) = hub_store h"
  "hub_muxes (deliverUnclaimed d h) = hub_muxes h"
  "hub_listen h = Some q \<Longrightarrow> hub_listen (deliverUnclaimed d h) =
     Some (if length q = listenSize then q else q @ [\<lparr>un_Raw = drop 4 (fst d), un_Endpoint = snd d\<rparr>])"
  by (auto simp: deliverUnclaimed_def split: option.splits)

lemma noteDrop_queues:
  "hub_store (fst (noteDrop now n h)) = hub_store h" "hub_listen (fst (noteDrop now n h)) = hub_listen h"
  "hub_muxes (fst (noteDrop now n h)) = hub_muxes h" "hub_refused (fst (noteDrop now n h)) = hub_refused h"
  "hub_keepalives (fst (noteDrop now n h)) = hub_keepalives h"
  "hub_dropped (fst (noteDrop now n h)) = hub_dropped h + of_nat n"
  by (simp_all add: noteDrop_def Let_def)

text \<open>A batch offered to a channel: taken as one, under the next ticket, or not at all.\<close>

definition offerESP :: "Mux \<Rightarrow> bytes list \<Rightarrow> espDatagramBatch list" where
  "offerESP mx ps = (if ps = [] \<or> \<not> hasRoomForESP mx (packetBytes ps) then []
     else [\<lparr>eb_ticket = mx_espTicket mx, eb_packets = ps, eb_bytes = packetBytes ps\<rparr>])"

lemma deliverESP_queues:
  "mx_espCh (hub_store (deliverESP now (k, ps) h) m) =
     mx_espCh (hub_store h m) @ (if k = m \<and> ps \<noteq> [] then offerESP (hub_store h m) ps else
       if k = m \<and> hasRoomForESP (hub_store h m) 0 then [\<lparr>eb_ticket = mx_espTicket (hub_store h m), eb_packets = [], eb_bytes = 0\<rparr>] else [])"
  "k \<noteq> m \<Longrightarrow> hub_store (deliverESP now (k, ps) h) m = hub_store h m"
  "mx_ikeCh (hub_store (deliverESP now b h) m) = mx_ikeCh (hub_store h m)"
  "hub_listen (deliverESP now b h) = hub_listen h"
  "hub_muxes (deliverESP now b h) = hub_muxes h"
  by (auto simp: deliverESP_def dispatchESP_def hasRoomForESP_def offerESP_def noteDrop_queues upd_mux_def Let_def
      packetBytes_def split: prod.splits)

lemma ikeCh_fold:
  assumes "length (mx_ikeCh (hub_store h m)) \<le> ikeChanSize"
  shows "mx_ikeCh (hub_store (fold (deliverIKE now) ps h) m) = mx_ikeCh (hub_store h m)
    @ take (ikeChanSize - length (mx_ikeCh (hub_store h m)))
        (map (\<lambda>(_, raw, ep). \<lparr>dg_Raw = drop 4 raw, dg_Endpoint = ep\<rparr>) (filter (\<lambda>p. fst p = m) ps))"
  using assms
proof (induction ps arbitrary: h)
  case (Cons p ps)
  obtain k raw ep where p: "p = (k, raw, ep)" by (cases p)
  show ?case
  proof (cases "k = m \<and> length (mx_ikeCh (hub_store h m)) \<noteq> ikeChanSize")
    case True
    with Cons.prems have "\<exists>n. ikeChanSize - length (mx_ikeCh (hub_store h m)) = Suc n"
      by (cases "ikeChanSize - length (mx_ikeCh (hub_store h m))") auto
    then obtain n where "ikeChanSize - length (mx_ikeCh (hub_store h m)) = Suc n" ..
    then have "15 - length (mx_ikeCh (hub_store h m)) = n" by simp
    with True Cons.prems \<open>_ = Suc n\<close> show ?thesis
      by (simp add: p Cons.IH deliverIKE_queues)
  next
    case False
    with Cons.prems show ?thesis by (auto simp: p Cons.IH deliverIKE_queues)
  qed
qed simp

lemma ike_fold_keeps:
  "mx_espCh (hub_store (fold (deliverIKE now) ps h) m) = mx_espCh (hub_store h m)"
  "mx_espTicket (hub_store (fold (deliverIKE now) ps h) m) = mx_espTicket (hub_store h m)"
  "mx_espQueued (hub_store (fold (deliverIKE now) ps h) m) = mx_espQueued (hub_store h m)"
  "hub_listen (fold (deliverIKE now) ps h) = hub_listen h"
  "hub_muxes (fold (deliverIKE now) ps h) = hub_muxes h"
  by (induction ps arbitrary: h) (auto simp: deliverIKE_queues)

lemma listen_fold:
  assumes "hub_listen h = Some q" "length q \<le> listenSize"
  shows "hub_listen (fold deliverUnclaimed ds h) = Some (q @ take (listenSize - length q)
      (map (\<lambda>d. \<lparr>un_Raw = drop 4 (fst d), un_Endpoint = snd d\<rparr>) ds))"
  using assms
proof (induction ds arbitrary: h q)
  case (Cons d ds)
  show ?case
  proof (cases "length q = listenSize")
    case True
    with Cons show ?thesis by (simp add: deliverUnclaimed_queues)
  next
    case False
    with Cons.prems obtain n where "listenSize - length q = Suc n" "63 - length q = n"
      by (cases "listenSize - length q") auto
    with False Cons.prems show ?thesis
      using Cons.IH [of "deliverUnclaimed d h" "q @ [\<lparr>un_Raw = drop 4 (fst d), un_Endpoint = snd d\<rparr>]"]
      by (simp add: deliverUnclaimed_queues)
  qed
qed simp

lemma unclaimed_fold_keeps:
  "hub_store (fold deliverUnclaimed ds h) = hub_store h"
  "hub_muxes (fold deliverUnclaimed ds h) = hub_muxes h"
  by (induction ds arbitrary: h) (auto simp: deliverUnclaimed_queues)

lemma esp_fold_keeps:
  "mx_ikeCh (hub_store (fold (deliverESP now) bs h) m) = mx_ikeCh (hub_store h m)"
  "hub_listen (fold (deliverESP now) bs h) = hub_listen h"
  "hub_muxes (fold (deliverESP now) bs h) = hub_muxes h"
  "m \<notin> fst ` set bs \<Longrightarrow> hub_store (fold (deliverESP now) bs h) m = hub_store h m"
  by (induction bs arbitrary: h) (auto simp: deliverESP_queues)

lemma espCh_fold:
  assumes "distinct (map fst bs)" "(m, ps) \<in> set bs" "ps \<noteq> []"
  shows "mx_espCh (hub_store (fold (deliverESP now) bs h) m) = mx_espCh (hub_store h m) @ offerESP (hub_store h m) ps"
  using assms
proof (induction bs arbitrary: h)
  case (Cons b bs)
  show ?case
  proof (cases "fst b = m")
    case True
    with Cons.prems have "b = (m, ps)" "m \<notin> fst ` set bs" by (auto simp: image_iff)
    then show ?thesis using Cons.prems(3) by (simp add: esp_fold_keeps deliverESP_queues)
  next
    case False
    with Cons.prems have "(m, ps) \<in> set bs" "distinct (map fst bs)" by auto
    with Cons.IH [OF this(2,1) Cons.prems(3)] False show ?thesis
      by (cases b) (simp add: deliverESP_queues(2))
  qed
qed simp

lemma ikeDatagrams_filter:
  "filter (\<lambda>p. fst p = m) (ikeDatagrams h ds) = map (Pair m) (filter (\<lambda>d. route_of h d = ToIKE m) ds)"
  by (induction ds) (auto simp: ikeDatagrams_def map_filter_simps split: route.splits)

lemma espDatagrams_filter:
  "map snd (filter (\<lambda>p. fst p = m) (espDatagrams h ds)) = map fst (filter (\<lambda>d. route_of h d = ToESP m) ds)"
  by (induction ds) (auto simp: espDatagrams_def map_filter_simps split: route.splits)

lemma offer_batches:
  "mx_espCh (hub_store (fold (deliverESP now) (espBatches l) h) m) =
     mx_espCh (hub_store h m) @ offerESP (hub_store h m) (map snd (filter (\<lambda>p. fst p = m) l))"
proof (cases "m \<in> fst ` set l")
  case True
  then have "(m, map snd (filter (\<lambda>p. fst p = m) l)) \<in> set (espBatches l)" by (simp add: espBatches_spec)
  moreover from espBatches_nonempty [OF this] have "map snd (filter (\<lambda>p. fst p = m) l) \<noteq> []" by simp
  ultimately show ?thesis by (rule espCh_fold [OF espBatches_distinct])
next
  case False
  then have "m \<notin> fst ` set (espBatches l)" "filter (\<lambda>p. fst p = m) l = []"
    by (auto simp: espBatches_spec filter_empty_conv image_iff)
  then show ?thesis by (simp add: esp_fold_keeps offerESP_def)
qed

text \<open>A batch leaves in calls of at most 128 packets, in order and complete unless the socket fails.\<close>

lemma sendChunks_exact:
  assumes "sendChunks bindSend bufs = (calls, ok)"
  shows "(\<forall>c \<in> set calls. c \<noteq> [] \<and> length c \<le> espSendBatch) \<and> (\<exists>rest. bufs = concat calls @ rest \<and> (ok \<longrightarrow> rest = []))"
  using assms
proof (induction bindSend bufs arbitrary: calls ok rule: sendChunks.induct)
  case (1 bindSend bufs)
  let ?n = "min (length bufs) espSendBatch"
  show ?case
  proof (cases "bufs = [] \<or> \<not> bindSend (take ?n bufs)")
    case True
    with "1.prems" show ?thesis
      by (auto simp: sendChunks.simps [of bindSend bufs] Let_def min_def split: if_splits
          intro: exI [of _ "[]"] exI [of _ "drop espSendBatch bufs"])
  next
    case False
    obtain cs ok' where r: "sendChunks bindSend (drop ?n bufs) = (cs, ok')" by fastforce
    have "sendChunks bindSend bufs = (take ?n bufs # cs, ok')"
      using False by (subst sendChunks.simps) (simp add: Let_def r)
    with "1.prems" have c: "calls = take ?n bufs # cs" "ok = ok'" by simp_all
    from False have "bufs \<noteq> []" "\<not> \<not> bindSend (take ?n bufs)" by simp_all
    from "1.IH" [OF this(1) refl this(2) r] obtain rest where
      "drop ?n bufs = concat cs @ rest" "ok' \<longrightarrow> rest = []" "\<forall>c \<in> set cs. c \<noteq> [] \<and> length c \<le> espSendBatch" by blast
    then show ?thesis using False c append_take_drop_id [of ?n bufs] by (auto intro!: exI [of _ rest])
  qed
qed

section \<open>Nothing is lost without being counted\<close>

definition held :: "Mux \<Rightarrow> nat" where
  "held mx = length (mx_ikeCh mx) + (\<Sum>b\<leftarrow>mx_espCh mx. length (eb_packets b))"

definition accounted :: "Hub \<Rightarrow> u64" where
  "accounted h = hub_keepalives h + hub_refused h + hub_dropped h
     + of_nat (case hub_listen h of None \<Rightarrow> 0 | Some q \<Rightarrow> length q)
     + of_nat (\<Sum>m\<in>hub_muxes h. held (hub_store h m))"

lemma sum_upd_mux:
  assumes "finite M" "m \<in> M"
  shows "(\<Sum>k\<in>M. held (hub_store (upd_mux h m f) k)) + held (hub_store h m)
       = (\<Sum>k\<in>M. held (hub_store h k)) + held (f (hub_store h m))"
proof -
  have "(\<Sum>k\<in>M - {m}. held (hub_store (upd_mux h m f) k)) = (\<Sum>k\<in>M - {m}. held (hub_store h k))"
    by (rule sum.cong) (auto simp: upd_mux_def)
  then show ?thesis
    using assms by (simp add: sum.remove [OF assms] upd_mux_def)
qed

lemma accounted_upd:
  assumes "finite (hub_muxes h)" "m \<in> hub_muxes h" "held (f (hub_store h m)) = held (hub_store h m) + n"
  shows "accounted (upd_mux h m f) = accounted h + of_nat n"
proof -
  have "(\<Sum>k\<in>hub_muxes h. held (hub_store (upd_mux h m f) k)) = (\<Sum>k\<in>hub_muxes h. held (hub_store h k)) + n"
    using sum_upd_mux [OF assms(1,2), of h f] assms(3) by simp
  moreover have "hub_muxes (upd_mux h m f) = hub_muxes h" "hub_listen (upd_mux h m f) = hub_listen h"
    "hub_keepalives (upd_mux h m f) = hub_keepalives h" "hub_refused (upd_mux h m f) = hub_refused h"
    "hub_dropped (upd_mux h m f) = hub_dropped h" by (simp_all add: upd_mux_def)
  ultimately show ?thesis by (simp add: accounted_def)
qed

lemma accounted_noteDrop: "accounted (fst (noteDrop now n h)) = accounted h + of_nat n"
  by (simp add: accounted_def noteDrop_queues)

lemma accounted_deliverIKE:
  assumes "finite (hub_muxes h)" "fst p \<in> hub_muxes h"
  shows "accounted (deliverIKE now p h) = accounted h + 1"
proof -
  obtain m raw ep where p: "p = (m, raw, ep)" by (cases p)
  show ?thesis
    using assms accounted_upd [OF assms(1), of m _ 1]
    by (auto simp: p deliverIKE_def accounted_noteDrop held_def)
qed

lemma accounted_deliverUnclaimed: "accounted (deliverUnclaimed d h) = accounted h + 1"
  by (auto simp: deliverUnclaimed_def accounted_def split: option.splits)

lemma accounted_deliverESP:
  assumes "finite (hub_muxes h)" "fst b \<in> hub_muxes h"
  shows "accounted (deliverESP now b h) = accounted h + of_nat (length (snd b))"
proof -
  obtain m ps where b: "b = (m, ps)" by (cases b)
  show ?thesis
    using assms accounted_upd [OF assms(1), of m _ "length ps"]
    by (auto simp: b deliverESP_def dispatchESP_def accounted_noteDrop held_def Let_def)
qed

lemma accounted_fold:
  assumes "\<And>x h. x \<in> set xs \<Longrightarrow> hub_muxes h = M \<Longrightarrow> accounted (f x h) = accounted h + of_nat (w x) \<and> hub_muxes (f x h) = M"
    and "hub_muxes h = M"
  shows "accounted (fold f xs h) = accounted h + of_nat (\<Sum>x\<leftarrow>xs. w x) \<and> hub_muxes (fold f xs h) = M"
  using assms by (induction xs arbitrary: h) (auto simp: add.assoc)

lemma batch_count: "(\<Sum>b\<leftarrow>espBatches l. length (snd b)) = length l"
proof (induction l rule: espBatches.induct)
  case (2 m raw l)
  have "length (filter (\<lambda>p. fst p = m) l) + length (filter (\<lambda>p. fst p \<noteq> m) l) = length l"
    by (rule sum_length_filter_compl)
  with 2 show ?case by simp
qed simp

lemma route_count:
  "count_list (map (route_of h) ds) Unwanted + count_list (map (route_of h) ds) Keepalive
     + length (ikeDatagrams h ds) + length (filter (\<lambda>d. route_of h d = ToListen) ds) + length (espDatagrams h ds) = length ds"
  by (induction ds) (auto simp: ikeDatagrams_def espDatagrams_def map_filter_simps split: route.splits)

lemma route_open:
  assumes "hub_ok h"
  shows "route_of h d = ToIKE m \<Longrightarrow> m \<in> hub_muxes h" "route_of h d = ToESP m \<Longrightarrow> m \<in> hub_muxes h"
  using assms by (auto simp: route_of_def Let_def hub_ok_def split: if_splits option.splits)

lemma routed_open:
  assumes "hub_ok h"
  shows "p \<in> set (ikeDatagrams h ds) \<Longrightarrow> fst p \<in> hub_muxes h"
    and "b \<in> set (espBatches (espDatagrams h ds)) \<Longrightarrow> fst b \<in> hub_muxes h"
  by (auto simp: ikeDatagrams_def List.map_filter_def split: route.splits dest: route_open [OF assms])
    (cases b, auto simp: espDatagrams_def List.map_filter_def espBatches_spec split: route.splits dest: route_open [OF assms])

lemma accounted_receivePass:
  assumes "hub_ok h"
  shows "accounted (receivePass now refused ds h) = accounted h + of_nat (length ds) + of_nat refused"
proof -
  let ?M = "hub_muxes h"
  define h0 where "h0 = h\<lparr>hub_refused := hub_refused h + of_nat refused + of_nat (count_list (map (route_of h) ds) Unwanted),
                hub_keepalives := hub_keepalives h + of_nat (count_list (map (route_of h) ds) Keepalive)\<rparr>"
  define h1 where "h1 = fold (deliverIKE now) (ikeDatagrams h ds) h0"
  define h2 where "h2 = fold deliverUnclaimed (filter (\<lambda>d. route_of h d = ToListen) ds) h1"
  have fin: "finite ?M" using assms by (simp add: hub_ok_def)
  have a0: "accounted h0 = accounted h + of_nat refused + of_nat (count_list (map (route_of h) ds) Unwanted)
      + of_nat (count_list (map (route_of h) ds) Keepalive)" "hub_muxes h0 = ?M"
    by (simp_all add: h0_def accounted_def)
  have "accounted h1 = accounted h0 + of_nat (\<Sum>x\<leftarrow>ikeDatagrams h ds. 1) \<and> hub_muxes h1 = ?M"
    unfolding h1_def using routed_open(1) [OF assms, of _ ds] fin a0(2)
    by (intro accounted_fold) (auto simp: accounted_deliverIKE deliverIKE_queues(6))
  then have a1: "accounted h1 = accounted h0 + of_nat (length (ikeDatagrams h ds))" "hub_muxes h1 = ?M"
    by (simp_all add: sum_list_triv)
  have "accounted h2 = accounted h1 + of_nat (\<Sum>x\<leftarrow>filter (\<lambda>d. route_of h d = ToListen) ds. 1) \<and> hub_muxes h2 = ?M"
    unfolding h2_def using a1(2)
    by (intro accounted_fold) (auto simp: accounted_deliverUnclaimed deliverUnclaimed_queues(2))
  then have a2: "accounted h2 = accounted h1 + of_nat (length (filter (\<lambda>d. route_of h d = ToListen) ds))" "hub_muxes h2 = ?M"
    by (simp_all add: sum_list_triv)
  have "accounted (fold (deliverESP now) (espBatches (espDatagrams h ds)) h2) = accounted h2
      + of_nat (\<Sum>b\<leftarrow>espBatches (espDatagrams h ds). length (snd b))
    \<and> hub_muxes (fold (deliverESP now) (espBatches (espDatagrams h ds)) h2) = ?M"
    using routed_open(2) [OF assms, of _ ds] fin a2(2)
    by (intro accounted_fold) (auto simp: accounted_deliverESP deliverESP_queues(5))
  then have "accounted (receivePass now refused ds h) = accounted h2 + of_nat (length (espDatagrams h ds))"
    by (simp add: receivePass_def Let_def h0_def h1_def h2_def batch_count)
  then show ?thesis
    using arg_cong [OF route_count [of h ds], of "of_nat :: nat \<Rightarrow> u64"] by (simp add: a0(1) a1(1) a2(1) algebra_simps)
qed

text \<open>
  C37. Every datagram is accounted for: in any state the calls can bring about, one read of the socket adds
  to the keepalive, refused and dropped counters and to what the queues hold, together, exactly the number
  of datagrams it returned plus those the receiver could not use (in the 64 bits of the counters).
\<close>

theorem datagrams_accounted:
  "\<exists>h. hub_run ops NewHub = Some h
     \<and> accounted (receivePass now refused ds h) = accounted h + of_nat (length ds) + of_nat refused"
  using hub_run_ok [OF hub_ok_new, of ops] accounted_receivePass by blast

lemma list_comp_filter:
  "concat (map (\<lambda>(raw, ep). if P raw ep then [f raw ep] else []) ds)
     = map (\<lambda>d. f (fst d) (snd d)) (filter (\<lambda>d. P (fst d) (snd d)) ds)"
  by (induction ds) auto

lemma put32_zero: "put32 (0 :: u32) = [0, 0, 0, 0]"
  by (simp add: numeral_eq_Suc)

lemma marker_iff:
  assumes "4 \<le> length b"
  shows "b ! 0 OR b ! 1 OR b ! 2 OR b ! 3 = 0 \<longleftrightarrow> rd32 b = 0"
proof -
  obtain b0 b1 b2 b3 r where b: "b = b0 # b1 # b2 # b3 # r"
    using assms by (auto simp: numeral_eq_Suc Suc_le_length_iff)
  have "b0 OR b1 OR b2 OR b3 = 0 \<longleftrightarrow> [b0, b1, b2, b3] = [0, 0, 0, 0]"
    by (auto simp: or_eq_0_iff)
  also have "[b0, b1, b2, b3] = put32 (rd32 b)" using assms by (simp add: put_rd b)
  also have "put32 (rd32 b) = [0, 0, 0, 0] \<longleftrightarrow> rd32 b = 0"
    unfolding put32_zero [symmetric] by (rule be_bytes_inj) simp
  finally show ?thesis by (simp add: b numeral_eq_Suc)
qed

lemma route_of_ike: "route_of h (ikeFrame (put64 spi @ r), ep) =
    (case hub_ike h spi of Some m \<Rightarrow> ToIKE m | None \<Rightarrow> if hub_listen h \<noteq> None \<and> ep \<noteq> None then ToListen else Unwanted)"
proof -
  have "replicate 4 0 = put32 0" by (simp add: put32_zero numeral_eq_Suc)
  then have f: "ikeFrame (put64 spi @ r) = put32 0 @ put64 spi @ r" by (simp add: ikeFrame_def)
  from marker_iff [of "put32 0 @ put64 spi @ r"] show ?thesis
    by (auto simp: route_of_def Let_def f)
qed

lemma route_of_esp: "spi \<noteq> 0 \<Longrightarrow> route_of h (put32 spi @ r, ep) =
    (case hub_esp h spi of Some m \<Rightarrow> ToESP m | None \<Rightarrow> Unwanted)"
  using marker_iff [of "put32 spi @ r"] by (simp add: route_of_def Let_def)

lemma offerESP_cong:
  "mx_espCh mx' = mx_espCh mx \<Longrightarrow> mx_espTicket mx' = mx_espTicket mx \<Longrightarrow> mx_espQueued mx' = mx_espQueued mx \<Longrightarrow>
   offerESP mx' ps = offerESP mx ps"
  by (simp add: offerESP_def hasRoomForESP_def)

lemma receivePass_queues:
  assumes "hub_ok h"
  shows "mx_ikeCh (hub_store (receivePass now refused ds h) m) = mx_ikeCh (hub_store h m)
      @ take (16 - length (mx_ikeCh (hub_store h m)))
          (map (\<lambda>d. \<lparr>dg_Raw = drop 4 (fst d), dg_Endpoint = snd d\<rparr>) (filter (\<lambda>d. route_of h d = ToIKE m) ds))" (is ?ike)
    and "mx_espCh (hub_store (receivePass now refused ds h) m) = mx_espCh (hub_store h m)
      @ offerESP (hub_store h m) (map fst (filter (\<lambda>d. route_of h d = ToESP m) ds))" (is ?esp)
    and "hub_listen (receivePass now refused ds h) = map_option (\<lambda>q. q @ take (64 - length q)
          (map (\<lambda>d. \<lparr>un_Raw = drop 4 (fst d), un_Endpoint = snd d\<rparr>) (filter (\<lambda>d. route_of h d = ToListen) ds))) (hub_listen h)" (is ?listen)
proof -
  define h0 where "h0 = h\<lparr>hub_refused := hub_refused h + of_nat refused + of_nat (count_list (map (route_of h) ds) Unwanted),
                hub_keepalives := hub_keepalives h + of_nat (count_list (map (route_of h) ds) Keepalive)\<rparr>"
  have h0: "hub_store h0 = hub_store h" "hub_listen h0 = hub_listen h" by (simp_all add: h0_def)
  have e: "receivePass now refused ds h = fold (deliverESP now) (espBatches (espDatagrams h ds))
      (fold deliverUnclaimed (filter (\<lambda>d. route_of h d = ToListen) ds) (fold (deliverIKE now) (ikeDatagrams h ds) h0))"
    by (simp add: receivePass_def Let_def h0_def)
  note keeps = esp_fold_keeps unclaimed_fold_keeps ike_fold_keeps h0
  have "length (mx_ikeCh (hub_store h0 m)) \<le> ikeChanSize"
    using mux_ok_len [OF hub_ok_mux [OF assms]] by (simp add: h0)
  from ikeCh_fold [OF this] show ?ike
    by (simp add: e keeps ikeDatagrams_filter comp_def case_prod_beta)
  show ?esp
    by (simp add: e offer_batches keeps espDatagrams_filter)
      (rule offerESP_cong, simp_all add: keeps)
  show ?listen
  proof (cases "hub_listen h")
    case None
    then have "filter (\<lambda>d. route_of h d = ToListen) ds = []"
      by (auto simp: filter_empty_conv route_of_def Let_def split: if_splits option.splits)
    then show ?thesis by (simp add: e keeps None)
  next
    case (Some q)
    with assms have "length q \<le> listenSize" by (simp add: hub_ok_def)
    with Some show ?thesis by (simp add: e keeps listen_fold)
  qed
qed


definition demoOps :: "hub_op list" where
  "demoOps = [DoNewMuxTo (Some \<lparr>ep_Addr = Addr4 1, ep_Port = 4500, ep_String = []\<rparr>), DoRegisterESP 0 7]"

lemma demo_run: "\<exists>h. hub_run demoOps NewHub = Some h \<and> hub_esp h 7 = Some 0 \<and> mx_espCh (hub_store h 0) = []
    \<and> mx_espTicket (hub_store h 0) = 0 \<and> mx_espQueued (hub_store h 0) = 0"
  by (simp add: demoOps_def NewHub_def NewMuxTo_def kept_def RegisterESP_def freshMux_def Let_def)


end
