(* ===== verification/Spec2Isabelle.thy ===== *)
theory Spec2Isabelle
  imports Esp_SA Ip_Packet Route_Table Srv6 Babel_Udp Babel_Tlv Babel_Runs Babel_Mesh Ike_Proposal Ike_Identity Transport_Mux
begin

text \<open>
  ranet-lite: a userspace IKEv2/ESP mesh client with an embedded Babel routing speaker.
\<close>

end
